(* ===== verification/Pard_Prelude.thy ===== *)
theory Pard_Prelude
  imports Main "HOL-Library.Word" "HOL-Library.Multiset"
begin

text \<open>
  Shared vocabulary of the PARD/gem5 development: the machine types of the simulator
  (\<^verbatim>\<open>base/types.hh\<close>, \<^verbatim>\<open>hyper/base/pardg5v.hh\<close>), the outcome type that makes every
  \<^verbatim>\<open>panic\<close>, \<^verbatim>\<open>fatal\<close>, failed \<^verbatim>\<open>assert\<close> and out-of-range access of the C++ a value,
  checked vector access, and the list and word lemmas the component theories share.
\<close>

unbundle bit_operations_syntax

section \<open>Machine types\<close>

text \<open>
  \<^verbatim>\<open>Addr\<close> is an unsigned 64-bit integer, \<^verbatim>\<open>GuestID\<close> and \<^verbatim>\<open>LDomID\<close> are unsigned 16-bit
  integers. \<^verbatim>\<open>Tick\<close> values are only compared, added and maximised; they are natural
  numbers here (a run never reaches \<open>2 ^ 64\<close> ticks).
\<close>

type_synonym addr = "64 word"
type_synonym u64 = "64 word"
type_synonym u32 = "32 word"
type_synonym u16 = "16 word"
type_synonym u8 = "8 word"
type_synonym guest_id = "16 word"
type_synonym ldom_id = "16 word"
type_synonym tick = nat

section \<open>Outcomes\<close>

text \<open>
  The simulator stops in four ways: \<^verbatim>\<open>panic\<close>, \<^verbatim>\<open>fatal\<close>, a failed \<^verbatim>\<open>assert\<close>, and (as
  undefined behaviour of C++) an access outside an array or through a null pointer.
\<close>

datatype sim_error = Panic | Fatal | AssertFail | BadAccess

type_synonym 'a result = "sim_error + 'a"

definition rbind :: "'a result \<Rightarrow> ('a \<Rightarrow> 'b result) \<Rightarrow> 'b result" where
  "rbind r f = (case r of Inl e \<Rightarrow> Inl e | Inr x \<Rightarrow> f x)"

definition sim_assert :: "bool \<Rightarrow> unit result" where
  "sim_assert b = (if b then Inr () else Inl AssertFail)"

definition vec_get :: "'a list \<Rightarrow> nat \<Rightarrow> 'a result" where
  "vec_get xs i = (if i < length xs then Inr (xs ! i) else Inl BadAccess)"

definition vec_set :: "'a list \<Rightarrow> nat \<Rightarrow> 'a \<Rightarrow> 'a list result" where
  "vec_set xs i v = (if i < length xs then Inr (xs[i := v]) else Inl BadAccess)"

text \<open>Facts that unfold a bind or a checked access; used as \<open>simp add: outcome_simps\<close>.\<close>

named_theorems outcome_simps

lemma rbind_Inr [simp, outcome_simps]: "rbind (Inr x) f = f x"
  by (simp add: rbind_def)

lemma rbind_Inl [simp, outcome_simps]: "rbind (Inl e) f = Inl e"
  by (simp add: rbind_def)

lemma rbind_eq_Inr_iff: "rbind r f = Inr y \<longleftrightarrow> (\<exists>x. r = Inr x \<and> f x = Inr y)"
  by (cases r) auto

lemma rbind_InrE:
  assumes "rbind r f = Inr y"
  obtains x where "r = Inr x" and "f x = Inr y"
  using assms by (auto simp: rbind_eq_Inr_iff)

lemma sim_assert_Inr_iff [simp]: "sim_assert b = Inr u \<longleftrightarrow> b"
  by (simp add: sim_assert_def)

lemma rbind_assert: "rbind (sim_assert b) f = (if b then f () else Inl AssertFail)"
  by (simp add: sim_assert_def)

lemma vec_get_ok [simp]: "i < length xs \<Longrightarrow> vec_get xs i = Inr (xs ! i)"
  by (simp add: vec_get_def)

lemma vec_get_Inr_iff: "vec_get xs i = Inr x \<longleftrightarrow> i < length xs \<and> x = xs ! i"
  by (auto simp: vec_get_def)

lemma vec_set_ok [simp]: "i < length xs \<Longrightarrow> vec_set xs i v = Inr (xs[i := v])"
  by (simp add: vec_set_def)

lemma vec_set_Inr_iff: "vec_set xs i v = Inr ys \<longleftrightarrow> i < length xs \<and> ys = xs[i := v]"
  by (auto simp: vec_set_def)

lemma vec_set_get_same: "vec_set xs i v = Inr ys \<Longrightarrow> vec_get ys i = Inr v"
  by (auto simp: vec_set_Inr_iff)

lemma vec_set_get_other: "vec_set xs i v = Inr ys \<Longrightarrow> j \<noteq> i \<Longrightarrow> vec_get ys j = vec_get xs j"
  by (auto simp: vec_set_Inr_iff vec_get_def)

section \<open>Lists\<close>

lemma find_SomeD: "find P xs = Some x \<Longrightarrow> x \<in> set xs \<and> P x"
  by (induction xs) (auto split: if_splits)

lemma find_NoneD: "find P xs = None \<Longrightarrow> x \<in> set xs \<Longrightarrow> \<not> P x"
  by (auto simp: find_None_iff)

lemma find_cong_filter: "find P (filter Q xs) = find (\<lambda>x. Q x \<and> P x) xs"
  by (induction xs) auto

lemma find_upt_Some: "find P [0..<n] = Some i \<longleftrightarrow> i < n \<and> P i \<and> (\<forall>j < i. \<not> P j)"
  by (auto simp: find_Some_iff)

lemma distinct_remove1_mem: "distinct xs \<Longrightarrow> y \<in> set (remove1 x xs) \<longleftrightarrow> y \<in> set xs \<and> y \<noteq> x"
  by (auto simp: set_remove1_eq)

lemma length_filter_update:
  "i < length xs \<Longrightarrow> length (filter P (xs[i := y])) + of_bool (P (xs ! i)) =
     length (filter P xs) + of_bool (P y)"
proof (induction xs arbitrary: i)
  case (Cons x xs)
  show ?case
  proof (cases i)
    case (Suc j)
    with Cons.prems Cons.IH [of j] show ?thesis by simp
  qed simp
qed simp

lemma list_all_update:
  "list_all P xs \<Longrightarrow> (i < length xs \<Longrightarrow> P y) \<Longrightarrow> list_all P (xs[i := y])"
  by (cases "i < length xs") (auto simp: list_all_length nth_list_update list_update_beyond)

lemma sum_list_update_nat:
  fixes xs :: "nat list"
  shows "i < length xs \<Longrightarrow> sum_list (xs[i := y]) + xs ! i = sum_list xs + y"
proof (induction xs arbitrary: i)
  case (Cons x xs)
  show ?case
  proof (cases i)
    case (Suc j)
    with Cons.prems Cons.IH [of j] show ?thesis by simp
  qed simp
qed simp

lemma sum_list_bound:
  fixes xs :: "nat list"
  shows "(\<And>x. x \<in> set xs \<Longrightarrow> x \<le> k) \<Longrightarrow> sum_list xs \<le> length xs * k"
  by (induction xs) (auto simp: add_mono)

section \<open>Words\<close>

lemma unat_power_lower: "k < LENGTH('a) \<Longrightarrow> unat ((2 :: 'a::len word) ^ k) = 2 ^ k"
  by (transfer, simp add: take_bit_eq_mod nat_power_eq)

lemma word_le_unat: "(a :: 'a::len word) \<le> b \<longleftrightarrow> unat a \<le> unat b"
  by (simp add: word_le_nat_alt)

lemma word_less_unat: "(a :: 'a::len word) < b \<longleftrightarrow> unat a < unat b"
  by (simp add: word_less_nat_alt)

lemma unat_drop_bit: "unat (drop_bit n (w :: 'a::len word)) = unat w div 2 ^ n"
  by (metis drop_bit_eq_div unat_drop_bit_eq)

lemma unat_take_bit: "unat (take_bit n (w :: 'a::len word)) = unat w mod 2 ^ n"
  by (metis take_bit_eq_mod unsigned_take_bit_eq)

lemma unat_drop_bit_less: "unat (x :: 'a::len word) < 2 ^ (j + k) \<Longrightarrow> unat (drop_bit k x) < 2 ^ j"
  by (simp add: unat_drop_bit less_mult_imp_div_less power_add)

lemma take_bit_self: "unat (x :: 'a::len word) < 2 ^ k \<Longrightarrow> take_bit k x = x"
  by (metis unat_take_bit mod_less unsigned_word_eqI)

lemma drop_bit_zero_iff: "drop_bit k (x :: 'a::len word) = 0 \<longleftrightarrow> unat x < 2 ^ k"
  by (metis unat_drop_bit div_eq_0_iff unat_eq_0 power_not_zero zero_neq_numeral)

lemma nat_div_1_iff: "(n :: nat) div 2 ^ k = 1 \<longleftrightarrow> 2 ^ k \<le> n \<and> n < 2 ^ (k + 1)"
proof
  assume *: "n div 2 ^ k = 1"
  have "n mod 2 ^ k < 2 ^ k" by simp
  moreover have "n = 2 ^ k + n mod 2 ^ k"
    using div_mult_mod_eq [of n "2 ^ k"] unfolding * by simp
  ultimately have "2 ^ k \<le> n \<and> n < 2 * 2 ^ k" by linarith
  then show "2 ^ k \<le> n \<and> n < 2 ^ (k + 1)" by simp
next
  assume "2 ^ k \<le> n \<and> n < 2 ^ (k + 1)"
  then show "n div 2 ^ k = 1" by (intro div_nat_eqI) auto
qed

lemma unat_minus_le: "b \<le> a \<Longrightarrow> unat (a - b) = unat a - unat (b :: 'a::len word)"
  by (simp add: unat_sub)

lemma unat_add_lt: "unat a + unat b < 2 ^ LENGTH('a) \<Longrightarrow> unat (a + b) = unat a + unat (b :: 'a::len word)"
  by (simp add: unat_word_ariths)

lemma unat_of_nat_lt: "n < 2 ^ LENGTH('a) \<Longrightarrow> unat (of_nat n :: 'a::len word) = n"
  by (simp add: unat_of_nat)

lemma unat_range_end:
  assumes "0 < n" "unat (a :: 'a::len word) + n \<le> 2 ^ LENGTH('a)"
  shows "unat (a + of_nat n - 1) = unat a + n - 1"
proof -
  have "unat (of_nat (n - 1) :: 'a word) = n - 1"
    using assms by (intro unat_of_nat_lt) simp
  moreover from this assms have "unat (a + of_nat (n - 1)) = unat a + unat (of_nat (n - 1) :: 'a word)"
    by (intro unat_add_lt) simp
  ultimately show ?thesis
    using assms(1) by (simp add: of_nat_diff algebra_simps Suc_leI)
qed

section \<open>Bytes\<close>

text \<open>
  \<^verbatim>\<open>memcpy\<close> between byte buffers: reading \<open>n\<close> bytes at an offset and overwriting bytes at
  an offset, both refused when they leave the buffer. Offsets are integers because several
  callers compute them as signed \<^verbatim>\<open>int\<close>.
\<close>

definition mem_read :: "u8 list \<Rightarrow> int \<Rightarrow> nat \<Rightarrow> u8 list result" where
  "mem_read bs off n =
     (if 0 \<le> off \<and> nat off + n \<le> length bs then Inr (take n (drop (nat off) bs)) else Inl BadAccess)"

definition mem_write :: "u8 list \<Rightarrow> int \<Rightarrow> u8 list \<Rightarrow> u8 list result" where
  "mem_write bs off src =
     (if 0 \<le> off \<and> nat off + length src \<le> length bs
      then Inr (take (nat off) bs @ src @ drop (nat off + length src) bs) else Inl BadAccess)"

lemma mem_read_length: "mem_read bs off n = Inr r \<Longrightarrow> length r = n"
  by (auto simp: mem_read_def split: if_splits)

lemma mem_write_length: "mem_write bs off src = Inr bs' \<Longrightarrow> length bs' = length bs"
  by (auto simp: mem_write_def split: if_splits)

lemma mem_write_read_same:
  "mem_write bs off src = Inr bs' \<Longrightarrow> mem_read bs' off (length src) = Inr src"
  by (auto simp: mem_write_def mem_read_def split: if_splits)

lemma mem_write_nth:
  assumes "mem_write bs off src = Inr bs'" "i < length bs"
  shows "bs' ! i = (if nat off \<le> i \<and> i < nat off + length src then src ! (i - nat off) else bs ! i)"
  using assms by (auto simp: mem_write_def nth_append min_def split: if_splits)

lemma mem_read_nth:
  assumes "mem_read bs off n = Inr r" "i < n"
  shows "r ! i = bs ! (nat off + i)"
  using assms by (auto simp: mem_read_def split: if_splits)

text \<open>Little-endian words.\<close>

definition le_bytes :: "nat \<Rightarrow> 'a::len word \<Rightarrow> u8 list" where
  "le_bytes n w = map (\<lambda>i. ucast (drop_bit (8 * i) w)) [0..<n]"

fun le_word :: "u8 list \<Rightarrow> 'a::len word" where
  "le_word [] = 0"
| "le_word (b # bs) = ucast b OR push_bit 8 (le_word bs)"

lemma length_le_bytes [simp]: "length (le_bytes n w) = n"
  by (simp add: le_bytes_def)

lemma nth_le_bytes: "i < n \<Longrightarrow> le_bytes n w ! i = ucast (drop_bit (8 * i) w)"
  by (simp add: le_bytes_def)

lemma bit_le_word:
  "bit (le_word bs :: 'a::len word) i \<longleftrightarrow> i < LENGTH('a) \<and> i div 8 < length bs \<and> bit (bs ! (i div 8)) (i mod 8)"
proof (induction bs arbitrary: i)
  case (Cons b bs)
  show ?case
  proof (cases "i < 8")
    case True
    then show ?thesis by (auto simp: bit_simps)
  next
    case False
    then have "i div 8 = Suc ((i - 8) div 8)" "i mod 8 = (i - 8) mod 8"
      by (simp_all add: le_div_geq le_mod_geq)
    then show ?thesis
      using False Cons.IH [of "i - 8"] by (auto simp: bit_simps dest: bit_imp_le_length)
  qed
qed simp

lemma le_word_bytes:
  assumes "LENGTH('a) \<le> 8 * n"
  shows "le_word (le_bytes n w) = (w :: 'a::len word)"
proof (rule bit_word_eqI)
  fix i assume i: "i < LENGTH('a)"
  then have "i div 8 < n" using assms by simp
  then show "bit (le_word (le_bytes n w) :: 'a word) i \<longleftrightarrow> bit w i"
    using i by (simp add: bit_le_word nth_le_bytes bit_simps)
qed

lemma le_bytes_word:
  assumes "length bs = n" "8 * n \<le> LENGTH('a)"
  shows "le_bytes n (le_word bs :: 'a::len word) = bs"
proof (rule nth_equalityI)
  fix i assume "i < length (le_bytes n (le_word bs :: 'a word))"
  then have i: "i < n" by simp
  show "le_bytes n (le_word bs :: 'a word) ! i = bs ! i"
  proof (rule bit_word_eqI)
    fix j assume "j < LENGTH(8)"
    then have j: "j < 8" by simp
    have "(8 * i + j) div 8 = i" "(8 * i + j) mod 8 = j" using j by simp_all
    then show "bit (le_bytes n (le_word bs :: 'a word) ! i) j \<longleftrightarrow> bit (bs ! i) j"
      using i j assms by (simp add: nth_le_bytes bit_simps bit_le_word)
  qed
qed (use assms in simp)

end
