(* ===== verification/Bits_Intmath.thy ===== *)
theory Bits_Intmath
  imports Pard_Prelude
begin

text \<open>
  The bit-field and integer helpers of gem5 that the PARD sources call:
  \<^verbatim>\<open>gem5-pard/src/base/bitfield.hh\<close> and \<^verbatim>\<open>gem5-pard/src/base/intmath.hh\<close>.
  The templates are polymorphic in the word width; \<^verbatim>\<open>mask\<close> always works at 64 bits, as in
  the source. Bit positions are natural numbers (the \<^verbatim>\<open>int\<close> arguments of the source are
  never negative).
\<close>

section \<open>bitfield.hh\<close>

definition mask_n :: "nat \<Rightarrow> u64" where
  "mask_n nbits = (if nbits = 64 then - 1 else push_bit nbits 1 - 1)"

definition bits :: "'a::len word \<Rightarrow> nat \<Rightarrow> nat \<Rightarrow> 'a word" where
  "bits val first lst =
     (let nbits = first + 1 - lst in ucast (ucast (drop_bit lst val) AND mask_n nbits))"

definition bits1 :: "'a::len word \<Rightarrow> nat \<Rightarrow> 'a word" where
  "bits1 val b = bits val b b"

definition mbits :: "'a::len word \<Rightarrow> nat \<Rightarrow> nat \<Rightarrow> 'a word" where
  "mbits val first lst = ucast (ucast val AND (mask_n (first + 1) AND NOT (mask_n lst)))"

definition mask_range :: "nat \<Rightarrow> nat \<Rightarrow> u64" where
  "mask_range first lst = mbits (- 1) first lst"

definition sext :: "nat \<Rightarrow> u64 \<Rightarrow> u64" where
  "sext n val = (if bits val (n - 1) (n - 1) \<noteq> 0 then val OR NOT (mask_n n) else val)"

definition insertBits :: "'a::len word \<Rightarrow> nat \<Rightarrow> nat \<Rightarrow> 'a word \<Rightarrow> 'a word" where
  "insertBits val first lst bit_val =
     (let bmask = ucast (push_bit lst (mask_n (first + 1 - lst)))
      in (push_bit lst bit_val AND bmask) OR (val AND NOT bmask))"

text \<open>The repeated statement \<^verbatim>\<open>if (x & m) { y += k; x >>= k; }\<close> of the binary searches.\<close>

definition search_stage :: "('a::len word \<Rightarrow> bool) \<Rightarrow> nat \<Rightarrow> nat \<times> 'a word \<Rightarrow> nat \<times> 'a word" where
  "search_stage test k = (\<lambda>(y, x). if test x then (y + k, drop_bit k x) else (y, x))"

definition findMsbSet :: "u64 \<Rightarrow> nat" where
  "findMsbSet val =
     (if val = 0 then 0
      else fst (search_stage (\<lambda>v. bits v 1 1 \<noteq> 0) 1
               (search_stage (\<lambda>v. bits v 3 2 \<noteq> 0) 2
               (search_stage (\<lambda>v. bits v 7 4 \<noteq> 0) 4
               (search_stage (\<lambda>v. bits v 15 8 \<noteq> 0) 8
               (search_stage (\<lambda>v. bits v 31 16 \<noteq> 0) 16
               (search_stage (\<lambda>v. bits v 63 32 \<noteq> 0) 32 (0, val))))))))"

definition findLsbSet :: "u64 \<Rightarrow> nat" where
  "findLsbSet val =
     (if val = 0 then 64
      else fst (search_stage (\<lambda>v. bits v 0 0 = 0) 1
               (search_stage (\<lambda>v. bits v 1 0 = 0) 2
               (search_stage (\<lambda>v. bits v 3 0 = 0) 4
               (search_stage (\<lambda>v. bits v 7 0 = 0) 8
               (search_stage (\<lambda>v. bits v 15 0 = 0) 16
               (search_stage (\<lambda>v. bits v 31 0 = 0) 32 (0, val))))))))"

section \<open>intmath.hh\<close>

text \<open>\<^verbatim>\<open>isPrime\<close>: the trial-division loop toggling between candidates \<open>i\<close> and \<open>i + 2\<close>.\<close>

function isPrime_loop :: "nat \<Rightarrow> nat \<Rightarrow> bool" where
  "isPrime_loop n i =
     (if i * i \<le> n then (if n mod i = 0 \<or> n mod (i + 2) = 0 then False
                        else isPrime_loop n (i + 6))
      else True)"
  by pat_completeness auto
termination
proof (relation "measure (\<lambda>(n, i). Suc n - i)")
  fix n i :: nat
  assume "i * i \<le> n"
  moreover have "i \<le> i * i" by (cases i) auto
  ultimately have "i \<le> n" by linarith
  then show "((n, i + 6), n, i) \<in> measure (\<lambda>(n, i). Suc n - i)" by simp
qed simp

declare isPrime_loop.simps [simp del]

definition isPrime :: "nat \<Rightarrow> bool" where
  "isPrime n = (if n = 2 \<or> n = 3 then True else isPrime_loop n 5)"

definition leastSigBit :: "'a::len word \<Rightarrow> 'a word" where
  "leastSigBit n = n AND NOT (n - 1)"

definition isPowerOf2 :: "'a::len word \<Rightarrow> bool" where
  "isPowerOf2 n = (n \<noteq> 0 \<and> leastSigBit n = n)"

text \<open>
  \<^verbatim>\<open>power\<close>: the loop runs \<open>e - 1\<close> times; the warnings are printed only and are not part of
  the result.
\<close>

fun power_loop :: "u32 \<Rightarrow> nat \<Rightarrow> u64 \<Rightarrow> u64" where
  "power_loop n 0 acc = acc"
| "power_loop n (Suc k) acc = power_loop n k (acc * ucast n)"

definition power_u :: "u32 \<Rightarrow> u32 \<Rightarrow> u64" where
  "power_u n e = (if e = 0 then 1 else power_loop n (unat e - 1) (ucast n))"

definition floorLog2_u32 :: "u32 \<Rightarrow> nat result" where
  "floorLog2_u32 x = rbind (sim_assert (x > 0)) (\<lambda>_.
     Inr (fst (search_stage (\<lambda>v. v AND 0x2 \<noteq> 0) 1
              (search_stage (\<lambda>v. v AND 0xc \<noteq> 0) 2
              (search_stage (\<lambda>v. v AND 0xf0 \<noteq> 0) 4
              (search_stage (\<lambda>v. v AND 0xff00 \<noteq> 0) 8
              (search_stage (\<lambda>v. v AND 0xffff0000 \<noteq> 0) 16 (0, x))))))))"

definition floorLog2 :: "u64 \<Rightarrow> nat result" where
  "floorLog2 x = rbind (sim_assert (x > 0)) (\<lambda>_.
     Inr (fst (search_stage (\<lambda>v. v AND 0x2 \<noteq> 0) 1
              (search_stage (\<lambda>v. v AND 0xc \<noteq> 0) 2
              (search_stage (\<lambda>v. v AND 0xf0 \<noteq> 0) 4
              (search_stage (\<lambda>v. v AND 0xff00 \<noteq> 0) 8
              (search_stage (\<lambda>v. v AND 0xffff0000 \<noteq> 0) 16
              (search_stage (\<lambda>v. v AND 0xffffffff00000000 \<noteq> 0) 32 (0, x)))))))))"

definition ceilLog2 :: "u64 \<Rightarrow> nat result" where
  "ceilLog2 n = (if n = 1 then Inr 0 else rbind (floorLog2 (n - 1)) (\<lambda>y. Inr (y + 1)))"

definition floorPow2 :: "u64 \<Rightarrow> u64 result" where
  "floorPow2 n = rbind (floorLog2 n) (\<lambda>y. Inr (push_bit y 1))"

definition ceilPow2 :: "u64 \<Rightarrow> u64 result" where
  "ceilPow2 n = rbind (ceilLog2 n) (\<lambda>y. Inr (push_bit y 1))"

definition divCeil :: "u64 \<Rightarrow> u64 \<Rightarrow> u64 result" where
  "divCeil a b = (if b = 0 then Inl BadAccess else Inr ((a + b - 1) div b))"

definition roundUp :: "u64 \<Rightarrow> u64 \<Rightarrow> u64" where
  "roundUp val align = (let m = align - 1 in (val + m) AND NOT m)"

definition roundDown :: "u64 \<Rightarrow> u64 \<Rightarrow> u64" where
  "roundDown val align = (let m = align - 1 in val AND NOT m)"

definition isHex :: "u8 \<Rightarrow> bool" where
  "isHex c = ((c \<ge> 0x30 \<and> c \<le> 0x39) \<or> (c \<ge> 0x41 \<and> c \<le> 0x46) \<or> (c \<ge> 0x61 \<and> c \<le> 0x66))"

definition isOct :: "u8 \<Rightarrow> bool" where
  "isOct c = (c \<ge> 0x30 \<and> c \<le> 0x37)"

definition isDec :: "u8 \<Rightarrow> bool" where
  "isDec c = (c \<ge> 0x30 \<and> c \<le> 0x39)"

definition hex2Int :: "u8 \<Rightarrow> u32" where
  "hex2Int c =
     (if c \<ge> 0x30 \<and> c \<le> 0x39 then ucast (c - 0x30)
      else if c \<ge> 0x41 \<and> c \<le> 0x46 then ucast (c - 0x41) + 10
      else if c \<ge> 0x61 \<and> c \<le> 0x66 then ucast (c - 0x61) + 10
      else 0)"

section \<open>Bit fields\<close>

lemma mask_n_eq: "nbits \<le> 64 \<Longrightarrow> mask_n nbits = mask nbits"
  by (auto simp: mask_n_def mask_eq_exp_minus_1 push_bit_eq_mult)

lemma bits_eq_take_drop:
  fixes val :: "'a::len word"
  assumes "LENGTH('a) \<le> 64" "first + 1 - lst \<le> 64"
  shows "bits val first lst = take_bit (first + 1 - lst) (drop_bit lst val)"
  using assms
  by (auto simp: bits_def mask_n_eq Let_def bit_eq_iff bit_simps)

lemma unat_bits:
  fixes val :: "'a::len word"
  assumes "LENGTH('a) \<le> 64" "first + 1 - lst \<le> 64"
  shows "unat (bits val first lst) = unat val div 2 ^ lst mod 2 ^ (first + 1 - lst)"
  using assms by (simp add: bits_eq_take_drop unat_take_bit unat_drop_bit)

lemma mbits_eq:
  fixes val :: "'a::len word"
  assumes "LENGTH('a) \<le> 64" "first < 64" "lst \<le> 64"
  shows "mbits val first lst = val AND (mask (first + 1) AND NOT (mask lst))"
  using assms
  by (auto simp: mbits_def mask_n_eq bit_eq_iff bit_simps)

lemma bit_insertBits:
  fixes val :: "'a::len word"
  assumes "LENGTH('a) \<le> 64" "lst \<le> first" "first < LENGTH('a)"
  shows "bit (insertBits val first lst b) n \<longleftrightarrow>
     n < LENGTH('a) \<and> (if lst \<le> n \<and> n \<le> first then bit b (n - lst) else bit val n)"
  using assms
  by (auto simp: insertBits_def mask_n_eq Let_def bit_simps)

lemma bits_insertBits_same:
  fixes val :: "'a::len word"
  assumes "LENGTH('a) \<le> 64" "lst \<le> first" "first < LENGTH('a)"
  shows "bits (insertBits val first lst b) first lst = take_bit (first + 1 - lst) b"
  using assms
  by (auto simp: bits_eq_take_drop bit_eq_iff bit_simps bit_insertBits)

lemma bits_insertBits_other:
  fixes val :: "'a::len word"
  assumes "LENGTH('a) \<le> 64" "lst \<le> first" "first < LENGTH('a)" "h < l \<or> h < lst \<or> first < l" "h + 1 - l \<le> 64"
  shows "bits (insertBits val first lst b) h l = bits val h l"
  using assms
  by (auto simp: bits_eq_take_drop bit_eq_iff bit_simps bit_insertBits dest: bit_imp_le_length)

lemma bits_single:
  fixes val :: "'a::len word"
  assumes "LENGTH('a) \<le> 64"
  shows "bits val b b \<noteq> 0 \<longleftrightarrow> bit val b"
  using assms by (simp add: bits_eq_take_drop take_bit_Suc bit_iff_odd_drop_bit odd_iff_mod_2_eq_one)

lemma bit_sext:
  assumes "0 < n" "n \<le> 64"
  shows "bit (sext n val) i \<longleftrightarrow> i < 64 \<and> (if i < n then bit val i else bit val (n - 1) \<or> bit val i)"
  using assms by (auto simp: sext_def mask_n_eq bits_single bit_simps dest: bit_imp_le_length)

section \<open>Binary searches\<close>

text \<open>
  The invariant of the binary searches for the most significant bit: \<open>y\<close> positions have
  been shifted out, \<open>x\<close> is what is left of the argument \<open>n\<close>, it is not zero and fits in
  \<open>w\<close> bits.
\<close>

definition msb_inv :: "nat \<Rightarrow> 'a::len word \<Rightarrow> nat \<times> 'a word \<Rightarrow> bool" where
  "msb_inv w n = (\<lambda>(y, x). x = drop_bit y n \<and> x \<noteq> 0 \<and> unat x < 2 ^ w)"

lemma and_upper_half:
  fixes x :: "'a::len word"
  assumes "unat x < 2 ^ (2 * k)"
  shows "x AND push_bit k (mask k) \<noteq> 0 \<longleftrightarrow> drop_bit k x \<noteq> 0"
proof -
  have "take_bit k (drop_bit k x) = drop_bit k x"
    using assms by (simp add: take_bit_self unat_drop_bit_less flip: mult_2)
  moreover have "x AND push_bit k (mask k) = push_bit k (take_bit k (drop_bit k x))"
    by (auto simp: bit_eq_iff bit_simps)
  moreover have "drop_bit k (push_bit k (drop_bit k x)) = drop_bit k x"
    by (auto simp: bit_eq_iff bit_simps) (metis bit_imp_le_length)
  ultimately show ?thesis
    by (metis drop_bit_of_0 push_bit_of_0)
qed

lemma bits_upper_half:
  fixes x :: "'a::len word"
  assumes "unat x < 2 ^ (2 * k)" "LENGTH('a) \<le> 64" "0 < k" "k \<le> 64"
  shows "bits x (2 * k - 1) k \<noteq> 0 \<longleftrightarrow> drop_bit k x \<noteq> 0"
  using assms by (simp add: bits_eq_take_drop take_bit_self unat_drop_bit_less flip: mult_2)

lemma msb_inv_stage:
  assumes "msb_inv (2 * k) n p" "\<And>x. unat x < 2 ^ (2 * k) \<Longrightarrow> test x \<longleftrightarrow> drop_bit k x \<noteq> 0"
  shows "msb_inv k n (search_stage test k p)"
proof -
  obtain y x where p: "p = (y, x)" by (cases p)
  with assms have x: "x = drop_bit y n" "x \<noteq> 0" "unat x < 2 ^ (k + k)" "test x \<longleftrightarrow> drop_bit k x \<noteq> 0"
    by (auto simp: msb_inv_def mult_2)
  have "unat (drop_bit k x) < 2 ^ k" and "\<not> test x \<Longrightarrow> unat x < 2 ^ k"
    using x(4) unat_drop_bit_less [OF x(3)] drop_bit_zero_iff [of k x] by blast+
  with x show ?thesis
    by (auto simp: p search_stage_def msb_inv_def add.commute)
qed

lemma msb_inv_1:
  assumes "msb_inv 1 n p"
  shows "2 ^ fst p \<le> unat n \<and> unat n < 2 ^ (fst p + 1)"
proof -
  have "unat (drop_bit (fst p) n) = 1"
    using assms by (auto simp: msb_inv_def less_2_cases_iff unat_eq_0 split: prod.splits)
  then show ?thesis by (simp only: unat_drop_bit nat_div_1_iff)
qed

lemma msb_inv_start: "n \<noteq> 0 \<Longrightarrow> msb_inv LENGTH('a) n (0, n :: 'a::len word)"
  by (simp add: msb_inv_def)

lemma msb_stage_and:
  "msb_inv (2 * k) n p \<Longrightarrow> m = push_bit k (mask k)
   \<Longrightarrow> msb_inv k n (search_stage (\<lambda>v. v AND m \<noteq> 0) k p)"
  by (rule msb_inv_stage) (simp_all add: and_upper_half)

lemma msb_stage_bits:
  fixes n :: u64
  shows "msb_inv (2 * k) n p \<Longrightarrow> 0 < k \<Longrightarrow> k \<le> 32 \<Longrightarrow> h = 2 * k - 1
   \<Longrightarrow> msb_inv k n (search_stage (\<lambda>v. bits v h k \<noteq> 0) k p)"
  by (rule msb_inv_stage) (simp_all add: bits_upper_half [simplified])

lemma msb_stages_and:
  fixes n :: "'a::len word"
  shows "msb_inv 64 n p \<Longrightarrow> msb_inv 32 n (search_stage (\<lambda>v. v AND 0xffffffff00000000 \<noteq> 0) 32 p)"
    and "msb_inv 32 n p \<Longrightarrow> msb_inv 16 n (search_stage (\<lambda>v. v AND 0xffff0000 \<noteq> 0) 16 p)"
    and "msb_inv 16 n p \<Longrightarrow> msb_inv 8 n (search_stage (\<lambda>v. v AND 0xff00 \<noteq> 0) 8 p)"
    and "msb_inv 8 n p \<Longrightarrow> msb_inv 4 n (search_stage (\<lambda>v. v AND 0xf0 \<noteq> 0) 4 p)"
    and "msb_inv 4 n p \<Longrightarrow> msb_inv 2 n (search_stage (\<lambda>v. v AND 0xc \<noteq> 0) 2 p)"
    and "msb_inv 2 n p \<Longrightarrow> msb_inv 1 n (search_stage (\<lambda>v. v AND 0x2 \<noteq> 0) 1 p)"
  by (intro msb_stage_and; simp add: mask_eq_exp_minus_1 push_bit_eq_mult)+

lemma msb_stages_bits:
  fixes n :: u64
  shows "msb_inv 64 n p \<Longrightarrow> msb_inv 32 n (search_stage (\<lambda>v. bits v 63 32 \<noteq> 0) 32 p)"
    and "msb_inv 32 n p \<Longrightarrow> msb_inv 16 n (search_stage (\<lambda>v. bits v 31 16 \<noteq> 0) 16 p)"
    and "msb_inv 16 n p \<Longrightarrow> msb_inv 8 n (search_stage (\<lambda>v. bits v 15 8 \<noteq> 0) 8 p)"
    and "msb_inv 8 n p \<Longrightarrow> msb_inv 4 n (search_stage (\<lambda>v. bits v 7 4 \<noteq> 0) 4 p)"
    and "msb_inv 4 n p \<Longrightarrow> msb_inv 2 n (search_stage (\<lambda>v. bits v 3 2 \<noteq> 0) 2 p)"
    and "msb_inv 2 n p \<Longrightarrow> msb_inv 1 n (search_stage (\<lambda>v. bits v 1 1 \<noteq> 0) 1 p)"
  by (intro msb_stage_bits; simp)+

lemma msb_inv_start64: "n \<noteq> 0 \<Longrightarrow> msb_inv 64 n (0, n :: u64)"
  using msb_inv_start [of n] by simp

lemma msb_inv_start32: "n \<noteq> 0 \<Longrightarrow> msb_inv 32 n (0, n :: u32)"
  using msb_inv_start [of n] by simp

lemma floorLog2_bounds:
  assumes "floorLog2 n = Inr y"
  shows "2 ^ y \<le> unat n \<and> unat n < 2 ^ (y + 1)"
proof -
  have "n \<noteq> 0" and y: "y = fst (search_stage (\<lambda>v. v AND 0x2 \<noteq> 0) 1
              (search_stage (\<lambda>v. v AND 0xc \<noteq> 0) 2
              (search_stage (\<lambda>v. v AND 0xf0 \<noteq> 0) 4
              (search_stage (\<lambda>v. v AND 0xff00 \<noteq> 0) 8
              (search_stage (\<lambda>v. v AND 0xffff0000 \<noteq> 0) 16
              (search_stage (\<lambda>v. v AND 0xffffffff00000000 \<noteq> 0) 32 (0, n)))))))"
    using assms by (auto simp: floorLog2_def rbind_assert split: if_splits)
  show ?thesis unfolding y using \<open>n \<noteq> 0\<close>
    by (intro msb_inv_1 msb_stages_and msb_inv_start64)
qed

lemma floorLog2_total: "n \<noteq> 0 \<Longrightarrow> \<exists>y. floorLog2 n = Inr y"
  by (simp add: floorLog2_def rbind_assert word_gt_0)

lemma floorLog2_zero: "floorLog2 0 = Inl AssertFail"
  by (simp add: floorLog2_def rbind_assert)

lemma log2_unique:
  fixes n :: nat
  assumes "2 ^ y \<le> n" "n < 2 ^ (y + 1)" "2 ^ z \<le> n" "n < 2 ^ (z + 1)"
  shows "y = z"
proof -
  have "(2 :: nat) ^ y < 2 ^ (z + 1)" "(2 :: nat) ^ z < 2 ^ (y + 1)" using assms by linarith+
  then have "y < z + 1" "z < y + 1" by (metis one_less_numeral_iff power_less_imp_less_exp semiring_norm(76))+
  then show ?thesis by simp
qed

lemma floorLog2_exp:
  assumes "k < 64"
  shows "floorLog2 (2 ^ k) = Inr k"
proof -
  have "(2 :: u64) ^ k \<noteq> 0" using assms by simp
  then obtain y where y: "floorLog2 (2 ^ k) = Inr y" using floorLog2_total by blast
  have "y = k"
    using floorLog2_bounds [OF y] assms log2_unique [of y "2 ^ k" k] by (simp add: unat_power_lower)
  with y show ?thesis by simp
qed

lemma floorLog2_u32_bounds:
  assumes "floorLog2_u32 n = Inr y"
  shows "2 ^ y \<le> unat n \<and> unat n < 2 ^ (y + 1)"
proof -
  have "n \<noteq> 0" and y: "y = fst (search_stage (\<lambda>v. v AND 0x2 \<noteq> 0) 1
              (search_stage (\<lambda>v. v AND 0xc \<noteq> 0) 2
              (search_stage (\<lambda>v. v AND 0xf0 \<noteq> 0) 4
              (search_stage (\<lambda>v. v AND 0xff00 \<noteq> 0) 8
              (search_stage (\<lambda>v. v AND 0xffff0000 \<noteq> 0) 16 (0, n))))))"
    using assms by (auto simp: floorLog2_u32_def rbind_assert split: if_splits)
  show ?thesis unfolding y using \<open>n \<noteq> 0\<close>
    by (intro msb_inv_1 msb_stages_and msb_inv_start32)
qed

lemma findMsbSet_bounds:
  assumes "n \<noteq> 0"
  shows "2 ^ findMsbSet n \<le> unat n \<and> unat n < 2 ^ (findMsbSet n + 1)"
proof -
  have y: "findMsbSet n = fst (search_stage (\<lambda>v. bits v 1 1 \<noteq> 0) 1
               (search_stage (\<lambda>v. bits v 3 2 \<noteq> 0) 2
               (search_stage (\<lambda>v. bits v 7 4 \<noteq> 0) 4
               (search_stage (\<lambda>v. bits v 15 8 \<noteq> 0) 8
               (search_stage (\<lambda>v. bits v 31 16 \<noteq> 0) 16
               (search_stage (\<lambda>v. bits v 63 32 \<noteq> 0) 32 (0, n)))))))"
    using assms by (simp add: findMsbSet_def)
  show ?thesis unfolding y using assms
    by (intro msb_inv_1 msb_stages_bits msb_inv_start64)
qed

lemma findMsbSet_floorLog2: "n \<noteq> 0 \<Longrightarrow> floorLog2 n = Inr (findMsbSet n)"
  using floorLog2_total findMsbSet_bounds floorLog2_bounds log2_unique by metis

lemma ceilLog2_bounds:
  assumes "ceilLog2 n = Inr y" "1 < n"
  shows "2 ^ (y - 1) < unat n \<and> unat n \<le> 2 ^ y"
proof -
  from assms obtain z where z: "floorLog2 (n - 1) = Inr z" "y = z + 1"
    by (auto simp: ceilLog2_def rbind_eq_Inr_iff split: if_splits)
  have "unat (n - 1) = unat n - 1" "1 < unat n"
    using assms(2) by (auto simp: unat_minus_le word_less_nat_alt order_less_imp_le)
  with floorLog2_bounds [OF z(1)] z(2) show ?thesis by auto
qed

text \<open>
  The invariant of the search for the least significant set bit: no bit below \<open>y\<close> is set
  and one below \<open>y + w\<close> is.
\<close>

definition lsb_inv :: "nat \<Rightarrow> 'a::len word \<Rightarrow> nat \<times> 'a word \<Rightarrow> bool" where
  "lsb_inv w n = (\<lambda>(y, x). x = drop_bit y n \<and> (\<forall>i < y. \<not> bit n i) \<and> (\<exists>i < y + w. bit n i))"

lemma take_bit_zero_iff: "take_bit k (x :: 'a::len word) = 0 \<longleftrightarrow> (\<forall>i < k. \<not> bit x i)"
  by (auto simp: bit_eq_iff bit_simps dest: bit_imp_le_length)

lemma lsb_inv_stage:
  assumes "lsb_inv (2 * k) n p" "\<And>x. test x \<longleftrightarrow> take_bit k x = 0"
  shows "lsb_inv k n (search_stage test k p)"
proof -
  obtain y x where p: "p = (y, x)" by (cases p)
  from assms(1) obtain i where inv: "x = drop_bit y n" "\<forall>i < y. \<not> bit n i" "i < y + 2 * k" "bit n i"
    by (auto simp: p lsb_inv_def)
  have test: "test x \<longleftrightarrow> (\<forall>i < y + k. y \<le> i \<longrightarrow> \<not> bit n i)"
    by (auto simp: assms(2) take_bit_zero_iff inv(1) bit_drop_bit_eq)
       (metis le_Suc_ex nat_add_left_cancel_less)
  show ?thesis
  proof (cases "test x")
    case True
    with test inv have "\<forall>i < y + k. \<not> bit n i" by (meson not_le)
    with True inv show ?thesis
      by (auto simp: p search_stage_def lsb_inv_def add.commute mult_2 intro!: exI [of _ i])
  next
    case False
    with test inv(1,2) show ?thesis
      by (auto simp: p search_stage_def lsb_inv_def)
  qed
qed

lemma lsb_inv_1: "lsb_inv 1 n p \<Longrightarrow> bit n (fst p) \<and> (\<forall>i < fst p. \<not> bit n i)"
  by (auto simp: lsb_inv_def less_Suc_eq split: prod.splits)

lemma lsb_stage_bits:
  fixes n :: u64
  shows "lsb_inv (2 * k) n p \<Longrightarrow> k \<le> 64 \<Longrightarrow> h + 1 = k
   \<Longrightarrow> lsb_inv k n (search_stage (\<lambda>v. bits v h 0 = 0) k p)"
  by (rule lsb_inv_stage) (auto simp: bits_eq_take_drop)

lemma lsb_stages:
  fixes n :: u64
  shows "lsb_inv 64 n p \<Longrightarrow> lsb_inv 32 n (search_stage (\<lambda>v. bits v 31 0 = 0) 32 p)"
    and "lsb_inv 32 n p \<Longrightarrow> lsb_inv 16 n (search_stage (\<lambda>v. bits v 15 0 = 0) 16 p)"
    and "lsb_inv 16 n p \<Longrightarrow> lsb_inv 8 n (search_stage (\<lambda>v. bits v 7 0 = 0) 8 p)"
    and "lsb_inv 8 n p \<Longrightarrow> lsb_inv 4 n (search_stage (\<lambda>v. bits v 3 0 = 0) 4 p)"
    and "lsb_inv 4 n p \<Longrightarrow> lsb_inv 2 n (search_stage (\<lambda>v. bits v 1 0 = 0) 2 p)"
    and "lsb_inv 2 n p \<Longrightarrow> lsb_inv 1 n (search_stage (\<lambda>v. bits v 0 0 = 0) 1 p)"
  by (intro lsb_stage_bits; simp)+

lemma lsb_inv_start: "n \<noteq> 0 \<Longrightarrow> lsb_inv 64 n (0, n :: u64)"
  by (auto simp: lsb_inv_def bit_eq_iff dest: bit_imp_le_length)

lemma findLsbSet_least:
  assumes "n \<noteq> 0"
  shows "bit n (findLsbSet n) \<and> (\<forall>i < findLsbSet n. \<not> bit n i)"
proof -
  have y: "findLsbSet n = fst (search_stage (\<lambda>v. bits v 0 0 = 0) 1
               (search_stage (\<lambda>v. bits v 1 0 = 0) 2
               (search_stage (\<lambda>v. bits v 3 0 = 0) 4
               (search_stage (\<lambda>v. bits v 7 0 = 0) 8
               (search_stage (\<lambda>v. bits v 15 0 = 0) 16
               (search_stage (\<lambda>v. bits v 31 0 = 0) 32 (0, n)))))))"
    using assms by (simp add: findLsbSet_def)
  show ?thesis unfolding y using assms by (intro lsb_inv_1 lsb_stages lsb_inv_start)
qed

section \<open>Powers of two and rounding\<close>

lemma bit_top:
  fixes n :: "'a::len word"
  assumes "2 ^ y \<le> unat n" "unat n < 2 ^ (y + 1)"
  shows "bit n y"
proof -
  have "odd (unat n div 2 ^ y)" using assms nat_div_1_iff [of "unat n" y] by simp
  then have "bit (unat n) y" by (simp add: bit_iff_odd)
  then show ?thesis by (simp add: bit_unsigned_iff)
qed

lemma leastSigBit_exp: "leastSigBit (2 ^ k :: 'a::len word) = 2 ^ k"
  by (rule bit_word_eqI) (auto simp: leastSigBit_def bit_simps simp flip: mask_eq_exp_minus_1)

lemma isPowerOf2_iff:
  fixes n :: u64
  shows "isPowerOf2 n \<longleftrightarrow> (\<exists>k < 64. n = 2 ^ k)"
proof
  assume pow: "isPowerOf2 n"
  then have "n \<noteq> 0" by (simp add: isPowerOf2_def)
  let ?y = "findMsbSet n"
  note b = findMsbSet_bounds [OF \<open>n \<noteq> 0\<close>]
  have top: "bit n ?y" using b by (blast intro: bit_top)
  then have "?y < 64" using bit_imp_le_length by fastforce
  have "unat n = 2 ^ ?y"
  proof (rule ccontr)
    assume "unat n \<noteq> 2 ^ ?y"
    with b have "2 ^ ?y \<le> unat (n - 1)" "unat (n - 1) < 2 ^ (?y + 1)"
      using \<open>n \<noteq> 0\<close> by (auto simp: unat_minus_one)
    then have "bit (n - 1) ?y" by (rule bit_top)
    then have "\<not> bit (leastSigBit n) ?y" by (simp add: leastSigBit_def bit_simps)
    with pow top show False by (simp add: isPowerOf2_def)
  qed
  with \<open>?y < 64\<close> have "n = 2 ^ ?y" using unat_power_lower [where ?'a = 64, of ?y]
    by (simp add: word_unat_eq_iff)
  with \<open>?y < 64\<close> show "\<exists>k < 64. n = 2 ^ k" by blast
next
  assume "\<exists>k < 64. n = 2 ^ k"
  then show "isPowerOf2 n" by (auto simp: isPowerOf2_def leastSigBit_exp)
qed

lemma power_loop_eq: "power_loop n k acc = acc * ucast n ^ k"
  by (induction n k acc rule: power_loop.induct) (simp_all add: mult.assoc)

lemma power_u_eq: "power_u n e = ucast n ^ unat e"
proof (cases "e = 0")
  case False
  then have "Suc (unat e - 1) = unat e" by (simp add: unat_gt_0)
  then show ?thesis using False by (simp add: power_u_def power_loop_eq flip: power_Suc)
qed (simp add: power_u_def)

lemma roundDown_eq: "roundDown val (2 ^ k) = val - take_bit k val"
proof -
  have "roundDown val (2 ^ k) = push_bit k (drop_bit k val)"
    by (rule bit_word_eqI) (auto simp: roundDown_def bit_simps simp flip: mask_eq_exp_minus_1)
  then show ?thesis by (metis add_diff_cancel_right' bits_ident)
qed

lemma unat_roundDown: "unat (roundDown val (2 ^ k)) = unat val - unat val mod 2 ^ k"
  by (simp add: roundDown_eq unat_minus_le word_le_nat_alt unat_take_bit)

lemma roundDown_aligned: "take_bit k (roundDown val (2 ^ k)) = 0"
  unfolding take_bit_zero_iff by (auto simp: roundDown_def bit_simps simp flip: mask_eq_exp_minus_1)

lemma unat_roundUp:
  assumes "k < 64" "unat val + 2 ^ k \<le> 2 ^ 64"
  shows "unat (roundUp val (2 ^ k)) = (unat val + 2 ^ k - 1) - (unat val + 2 ^ k - 1) mod 2 ^ k"
proof -
  have m: "unat (2 ^ k - 1 :: u64) = 2 ^ k - 1"
    using assms(1) by (simp add: unat_minus_one unat_power_lower)
  have "unat (val + (2 ^ k - 1)) = unat val + (2 ^ k - 1)"
    by (subst unat_add_lt) (use assms(2) in \<open>auto simp: m\<close>)
  moreover have "roundUp val (2 ^ k) = roundDown (val + (2 ^ k - 1)) (2 ^ k)"
    by (simp add: roundUp_def roundDown_def Let_def)
  ultimately show ?thesis by (simp add: unat_roundDown)
qed

lemma roundUp_bounds:
  assumes "k < 64" "unat val + 2 ^ k \<le> 2 ^ 64"
  shows "unat val \<le> unat (roundUp val (2 ^ k))" "unat (roundUp val (2 ^ k)) < unat val + 2 ^ k"
    "take_bit k (roundUp val (2 ^ k)) = 0"
proof -
  let ?n = "unat val + 2 ^ k - 1"
  have "?n mod 2 ^ k < 2 ^ k" "(0 :: nat) < 2 ^ k" by simp_all
  then show "unat val \<le> unat (roundUp val (2 ^ k))" "unat (roundUp val (2 ^ k)) < unat val + 2 ^ k"
    unfolding unat_roundUp [OF assms] by linarith+
  show "take_bit k (roundUp val (2 ^ k)) = 0"
    using roundDown_aligned [of k "val + (2 ^ k - 1)"] by (simp add: roundUp_def roundDown_def Let_def)
qed

lemma divCeil_eq:
  assumes "b \<noteq> 0" "unat a + unat b < 2 ^ 64"
  shows "\<exists>q. divCeil a b = Inr q \<and> unat q = (unat a + unat b - 1) div unat b"
proof -
  have "unat (a + b) = unat a + unat b" using assms(2) by (simp add: unat_add_lt)
  moreover have "0 < unat b" using assms(1) by (simp add: unat_gt_0)
  ultimately have "unat (a + b - 1) = unat a + unat b - 1"
    by (subst unat_minus_one) (auto simp flip: unat_eq_0)
  then show ?thesis using assms(1) by (simp add: divCeil_def unat_div)
qed

lemma isPrime_composites: "isPrime 4" "isPrime 9" "isPrime 26" "\<not> isPrime 25" "isPrime 29"
  by (simp_all add: isPrime_def isPrime_loop.simps)

end
