(* ===== verification/Guest_Addr.thy ===== *)
theory Guest_Addr
  imports Bits_Intmath
begin

text \<open>
  Guest tags and guest-qualified address ranges:
  \<^verbatim>\<open>hyper/base/pardg5v.hh\<close> (the macros that pack a guest or logical-domain id into the
  64-bit QoS tag of a packet), \<^verbatim>\<open>hyper/base/guest_addr_range.hh\<close> and the part of gem5's
  \<^verbatim>\<open>base/addr_range.hh\<close> it is paired with.
\<close>

section \<open>pardg5v.hh\<close>

definition ALL_GUEST :: guest_id where
  "ALL_GUEST = 0xFF"

definition INVALID_LDOM :: ldom_id where
  "INVALID_LDOM = 0xFFFF"

definition QOSTAG_TO_GUESTID :: "u64 \<Rightarrow> guest_id" where
  "QOSTAG_TO_GUESTID tag = ucast (tag AND 0xFF)"

definition SET_GUESTID :: "u64 \<Rightarrow> guest_id \<Rightarrow> u64" where
  "SET_GUESTID tag guest = (tag AND 0xFFFFFFFFFFFFFF00) OR (ucast guest AND 0xFF)"

definition QOSTAG_TO_LDOMID :: "u64 \<Rightarrow> ldom_id" where
  "QOSTAG_TO_LDOMID tag = ucast (tag AND 0xFFFF)"

section \<open>GuestAddrRange\<close>

record guest_addr_range =
  gar_guestID :: guest_id
  gar_start :: addr
  gar_end :: addr
  gar_intlvHighBit :: u8
  gar_intlvBits :: u8
  gar_intlvMatch :: u8

definition GuestAddrRange_default :: guest_addr_range where
  "GuestAddrRange_default =
     \<lparr>gar_guestID = 0, gar_start = 1, gar_end = 0,
      gar_intlvHighBit = 0, gar_intlvBits = 0, gar_intlvMatch = 0\<rparr>"

definition GuestAddrRange_plain :: "addr \<Rightarrow> addr \<Rightarrow> guest_id \<Rightarrow> guest_addr_range" where
  "GuestAddrRange_plain s e g =
     \<lparr>gar_guestID = g, gar_start = s, gar_end = e,
      gar_intlvHighBit = 0, gar_intlvBits = 0, gar_intlvMatch = 0\<rparr>"

definition gar_interleaved :: "guest_addr_range \<Rightarrow> bool" where
  "gar_interleaved r = (gar_intlvBits r \<noteq> 0)"

definition gar_lowBit :: "guest_addr_range \<Rightarrow> nat" where
  "gar_lowBit r = unat (gar_intlvHighBit r) + 1 - unat (gar_intlvBits r)"

definition gar_granularity :: "guest_addr_range \<Rightarrow> u64" where
  "gar_granularity r = push_bit (gar_lowBit r) 1"

definition gar_stripes :: "guest_addr_range \<Rightarrow> u32" where
  "gar_stripes r = ucast (push_bit (unat (gar_intlvBits r)) 1 :: u64)"

definition gar_size :: "guest_addr_range \<Rightarrow> addr" where
  "gar_size r = drop_bit (unat (gar_intlvBits r)) (gar_end r - gar_start r + 1)"

definition gar_valid :: "guest_addr_range \<Rightarrow> bool" where
  "gar_valid r = (gar_start r < gar_end r)"

definition gar_mergesWith :: "guest_addr_range \<Rightarrow> guest_addr_range \<Rightarrow> bool" where
  "gar_mergesWith this r =
     (gar_guestID r = gar_guestID this \<and>
      gar_start r = gar_start this \<and> gar_end r = gar_end this \<and>
      gar_intlvHighBit r = gar_intlvHighBit this \<and>
      gar_intlvBits r = gar_intlvBits this)"

definition gar_contains :: "guest_addr_range \<Rightarrow> addr \<Rightarrow> guest_id \<Rightarrow> bool" where
  "gar_contains this a guestID =
     (if gar_guestID this \<noteq> guestID then False
      else a \<ge> gar_start this \<and> a \<le> gar_end this \<and>
        (\<not> gar_interleaved this \<or>
         bits a (unat (gar_intlvHighBit this)) (gar_lowBit this) = ucast (gar_intlvMatch this)))"

definition gar_intersects :: "guest_addr_range \<Rightarrow> guest_addr_range \<Rightarrow> bool result" where
  "gar_intersects this r =
     (if gar_guestID r \<noteq> gar_guestID this then Inr False
      else if \<not> gar_interleaved this
        then Inr (gar_start this \<le> gar_end r \<and> gar_end this \<ge> gar_start r)
      else if gar_size r = 1 then Inr (gar_contains this (gar_start r) (gar_guestID r))
      else if \<not> gar_interleaved r
        then Inr (gar_start this \<le> gar_end r \<and> gar_end this \<ge> gar_start r)
      else if gar_mergesWith this r then Inr (gar_intlvMatch this = gar_intlvMatch r)
      else Inl Panic)"

definition gar_isSubset :: "guest_addr_range \<Rightarrow> guest_addr_range \<Rightarrow> bool result" where
  "gar_isSubset this r =
     (if gar_guestID r \<noteq> gar_guestID this then Inr False
      else if gar_interleaved this then Inl Panic
      else Inr (gar_start this \<ge> gar_start r \<and> gar_end this \<le> gar_end r))"

definition gar_less :: "guest_addr_range \<Rightarrow> guest_addr_range \<Rightarrow> bool" where
  "gar_less this r =
     (if gar_start this \<noteq> gar_start r then gar_start this < gar_start r
      else gar_intlvMatch this < gar_intlvMatch r)"

text \<open>The loop of the merging constructor: every range merges and the match values count up.\<close>

fun merge_check :: "guest_addr_range \<Rightarrow> u8 \<Rightarrow> guest_addr_range list \<Rightarrow> unit result" where
  "merge_check this m [] = Inr ()"
| "merge_check this m (r # rs) =
     (if \<not> gar_mergesWith this r then Inl Fatal
      else if gar_intlvMatch r \<noteq> m then Inl Fatal
      else merge_check this (m + 1) rs)"

definition GuestAddrRange_merge :: "guest_addr_range list \<Rightarrow> guest_addr_range result" where
  "GuestAddrRange_merge ranges =
     (case ranges of [] \<Rightarrow> Inr GuestAddrRange_default
      | r # _ \<Rightarrow>
        let this = r\<lparr>gar_intlvMatch := 0\<rparr> in
        if of_nat (length ranges) \<noteq> (push_bit (unat (gar_intlvBits this)) 1 :: u64) then Inl Fatal
        else rbind (merge_check this 0 ranges) (\<lambda>_.
          Inr (this\<lparr>gar_intlvHighBit := 0, gar_intlvBits := 0\<rparr>)))"

definition RangeEx :: "addr \<Rightarrow> addr \<Rightarrow> guest_id \<Rightarrow> guest_addr_range" where
  "RangeEx s e guestID = GuestAddrRange_plain s (e - 1) guestID"

definition RangeIn :: "addr \<Rightarrow> addr \<Rightarrow> guest_id \<Rightarrow> guest_addr_range" where
  "RangeIn s e guestID = GuestAddrRange_plain s e guestID"

definition RangeSize :: "addr \<Rightarrow> addr \<Rightarrow> guest_id \<Rightarrow> guest_addr_range" where
  "RangeSize s sz guestID = GuestAddrRange_plain s (s + sz - 1) guestID"

section \<open>Tags\<close>

lemma guest_masks:
  "(0xFF :: u64) = mask 8" "(0xFFFF :: u64) = mask 16" "(0xFFFFFFFFFFFFFF00 :: u64) = NOT (mask 8)"
  by (simp_all add: mask_eq_exp_minus_1)

lemma bit_QOSTAG_TO_GUESTID: "bit (QOSTAG_TO_GUESTID tag) n \<longleftrightarrow> n < 8 \<and> bit tag n"
  by (auto simp: QOSTAG_TO_GUESTID_def guest_masks bit_simps)

lemma bit_SET_GUESTID:
  "bit (SET_GUESTID tag g) n \<longleftrightarrow> n < 64 \<and> (if n < 8 then bit g n else bit tag n)"
  by (auto simp: SET_GUESTID_def guest_masks bit_simps)

lemma SET_GUESTID_get: "QOSTAG_TO_GUESTID (SET_GUESTID tag g) = take_bit 8 g"
  by (rule bit_word_eqI) (auto simp: bit_QOSTAG_TO_GUESTID bit_SET_GUESTID bit_simps)

lemma SET_GUESTID_frame: "drop_bit 8 (SET_GUESTID tag g) = drop_bit 8 tag"
  by (rule bit_word_eqI) (auto simp: bit_SET_GUESTID bit_simps dest: bit_imp_le_length)

lemma QOSTAG_TO_GUESTID_less: "QOSTAG_TO_GUESTID tag < 256"
proof -
  have "QOSTAG_TO_GUESTID tag = take_bit 8 (QOSTAG_TO_GUESTID tag)"
    by (rule bit_word_eqI) (auto simp: bit_QOSTAG_TO_GUESTID bit_simps)
  then have "unat (QOSTAG_TO_GUESTID tag) = unat (QOSTAG_TO_GUESTID tag) mod 2 ^ 8"
    by (metis unat_take_bit)
  then show ?thesis by (simp add: word_less_nat_alt)
qed

lemma GUESTID_of_LDOMID: "QOSTAG_TO_GUESTID tag = take_bit 8 (QOSTAG_TO_LDOMID tag)"
  by (rule bit_word_eqI)
     (auto simp: bit_QOSTAG_TO_GUESTID QOSTAG_TO_LDOMID_def guest_masks bit_simps)

section \<open>Ranges\<close>

lemma gar_contains_guest: "gar_contains r a g \<Longrightarrow> g = gar_guestID r"
  by (simp add: gar_contains_def split: if_splits)

lemma gar_contains_plain:
  "\<not> gar_interleaved r \<Longrightarrow>
   gar_contains r a g \<longleftrightarrow> g = gar_guestID r \<and> gar_start r \<le> a \<and> a \<le> gar_end r"
  by (auto simp: gar_contains_def)

lemma RangeSize_contains:
  assumes "0 < sz" "unat s + unat sz \<le> 2 ^ 64"
  shows "gar_contains (RangeSize s sz g) a h \<longleftrightarrow>
    h = g \<and> unat s \<le> unat a \<and> unat a < unat s + unat sz"
proof -
  have pos: "0 < unat sz" and m1: "unat (sz - 1) = unat sz - 1"
    using assms(1) by (simp_all add: word_gt_0 unat_gt_0 unat_minus_one)
  have "unat (s + (sz - 1)) = unat s + unat (sz - 1)"
    by (rule unat_add_lt) (use assms(2) pos m1 in simp)
  then have "unat (s + sz - 1) = unat s + unat sz - 1"
    using pos m1 by (simp add: algebra_simps)
  with pos show ?thesis
    by (auto simp: gar_contains_plain gar_interleaved_def RangeSize_def GuestAddrRange_plain_def
        word_le_nat_alt)
qed

lemma merge_check_Inr:
  "merge_check this m rs = Inr () \<longleftrightarrow>
     (\<forall>i < length rs. gar_mergesWith this (rs ! i) \<and> gar_intlvMatch (rs ! i) = m + of_nat i)"
proof (induction rs arbitrary: m)
  case (Cons r rs)
  show ?case
    using Cons.IH [of "m + 1"] by (simp add: All_less_Suc2 ac_simps)
qed simp

lemma GuestAddrRange_merge_InrD:
  assumes "GuestAddrRange_merge rs = Inr m" "rs \<noteq> []" "gar_intlvBits (hd rs) < 64" "length rs < 2 ^ 64"
  shows "m = (hd rs)\<lparr>gar_intlvHighBit := 0, gar_intlvBits := 0, gar_intlvMatch := 0\<rparr>"
    and "length rs = 2 ^ unat (gar_intlvBits (hd rs))"
    and "i < length rs \<Longrightarrow>
      rs ! i = (hd rs)\<lparr>gar_intlvMatch := of_nat i\<rparr>"
proof -
  obtain r rs' where rs: "rs = r # rs'" using assms(2) by (cases rs) auto
  have len: "of_nat (length rs) = (push_bit (unat (gar_intlvBits r)) 1 :: u64)"
    and chk: "merge_check (r\<lparr>gar_intlvMatch := 0\<rparr>) 0 rs = Inr ()"
    and m: "m = r\<lparr>gar_intlvMatch := 0, gar_intlvHighBit := 0, gar_intlvBits := 0\<rparr>"
    using assms(1) by (auto simp: GuestAddrRange_merge_def rs Let_def rbind_eq_Inr_iff split: if_splits)
  show "m = (hd rs)\<lparr>gar_intlvHighBit := 0, gar_intlvBits := 0, gar_intlvMatch := 0\<rparr>"
    by (simp add: m rs)
  have "unat (gar_intlvBits r) < 64" using assms(3) by (simp add: rs word_less_nat_alt)
  then show "length rs = 2 ^ unat (gar_intlvBits (hd rs))"
    using arg_cong [OF len, of unat] assms(4)
    by (simp add: push_bit_eq_mult unat_power_lower unat_of_nat del: of_nat_Suc) (simp add: rs)
  show "rs ! i = (hd rs)\<lparr>gar_intlvMatch := of_nat i\<rparr>" if "i < length rs"
    using that chk unfolding merge_check_Inr
    by (intro guest_addr_range.equality) (auto simp: rs gar_mergesWith_def)
qed

lemma merge_complete:
  assumes "GuestAddrRange_merge rs = Inr m" "rs \<noteq> []" "length rs < 2 ^ 64"
    and "unat (gar_intlvBits (hd rs)) \<le> 8" "unat (gar_intlvHighBit (hd rs)) < 64"
    and "unat (gar_intlvBits (hd rs)) \<le> unat (gar_intlvHighBit (hd rs)) + 1"
  shows "gar_contains m a g \<longleftrightarrow> (\<exists>r \<in> set rs. gar_contains r a g)"
proof -
  let ?r = "hd rs" and ?nb = "unat (gar_intlvBits (hd rs))"
  let ?sl = "bits a (unat (gar_intlvHighBit ?r)) (gar_lowBit ?r)"
  have "gar_intlvBits ?r < 64" using assms(4) by (simp add: word_less_nat_alt)
  note D = GuestAddrRange_merge_InrD [OF assms(1,2) this assms(3)]
  have slice: "unat ?sl < 2 ^ ?nb"
    using assms(5,6) by (subst unat_bits) (auto simp: gar_lowBit_def)
  have "2 ^ ?nb \<le> (2 :: nat) ^ 8" using assms(4) by (intro power_increasing) auto
  then have eqv: "?sl = ucast (of_nat i :: u8) \<longleftrightarrow> unat ?sl = i" if "i < 2 ^ ?nb" for i
    using that by (auto simp: word_unat_eq_iff unat_of_nat unsigned_ucast_eq take_bit_eq_mod)
  have nil: "gar_interleaved ?r \<longleftrightarrow> ?nb \<noteq> 0" by (simp add: gar_interleaved_def unat_eq_0)
  have "(\<exists>r \<in> set rs. gar_contains r a g) \<longleftrightarrow> (\<exists>i < 2 ^ ?nb. gar_contains (?r\<lparr>gar_intlvMatch := of_nat i\<rparr>) a g)"
    using D(2,3) by (metis in_set_conv_nth)
  also have "\<dots> \<longleftrightarrow> g = gar_guestID ?r \<and> gar_start ?r \<le> a \<and> a \<le> gar_end ?r"
    using slice eqv nil
    by (auto simp: gar_contains_def gar_interleaved_def gar_lowBit_def)
  also have "\<dots> \<longleftrightarrow> gar_contains m a g"
    by (auto simp: D(1) gar_contains_def gar_interleaved_def)
  finally show ?thesis by simp
qed

lemma intersects_plain:
  assumes "\<not> gar_interleaved r" "\<not> gar_interleaved q" "gar_valid r" "gar_valid q"
  shows "gar_intersects r q = Inr (\<exists>a g. gar_contains r a g \<and> gar_contains q a g)"
proof -
  have "(\<exists>a. gar_start r \<le> a \<and> a \<le> gar_end r \<and> gar_start q \<le> a \<and> a \<le> gar_end q)
      \<longleftrightarrow> gar_start r \<le> gar_end q \<and> gar_start q \<le> gar_end r"
    using assms(3,4) unfolding gar_valid_def
    by (auto intro!: exI [of _ "max (gar_start r) (gar_start q)"] simp: max_def)
  then show ?thesis
    using assms(1,2) by (auto simp: gar_intersects_def gar_contains_plain)
qed

lemma isSubset_plain:
  assumes "\<not> gar_interleaved r" "\<not> gar_interleaved q" "gar_valid r"
  shows "gar_isSubset r q = Inr (\<forall>a g. gar_contains r a g \<longrightarrow> gar_contains q a g)"
  using assms unfolding gar_valid_def
  by (auto simp: gar_isSubset_def gar_contains_plain)

lemma intersects_commute_plain:
  assumes "\<not> gar_interleaved r" "\<not> gar_interleaved q"
  shows "gar_intersects r q = gar_intersects q r"
  using assms by (auto simp: gar_intersects_def)

text \<open>
  \<^verbatim>\<open>operator<\<close> compares the start and the interleaving match only: two ranges of different
  guests at the same start are equivalent keys.
\<close>

lemma gar_less_ignores_guest:
  "\<not> gar_less (RangeSize s n g) (RangeSize s n h) \<and> \<not> gar_less (RangeSize s n h) (RangeSize s n g)"
  by (simp add: gar_less_def RangeSize_def GuestAddrRange_plain_def)

end
