(* ===== verification/LDom_Addr.thy ===== *)
theory LDom_Addr
  imports Guest_Addr
begin

text \<open>
  The logical-domain address translation table, \<^verbatim>\<open>hyper/base/ldom_addr.hh\<close>. Every memory
  access of a logical domain is relocated by the first table entry that covers it; the
  isolation of domains in physical memory rests on this table.
\<close>

section \<open>LDomAddrTLBEntry\<close>

record ldom_tlb_entry =
  le_domid :: ldom_id
  le_start :: addr
  le_size :: addr
  le_remapped :: addr

text \<open>gem5's \<^verbatim>\<open>AddrRange\<close> as the second constructor uses it.\<close>

record addr_range =
  ar_start :: addr
  ar_end :: addr
  ar_intlvHighBit :: u8
  ar_intlvBits :: u8
  ar_intlvMatch :: u8

definition LDomAddrTLBEntry :: "ldom_id \<Rightarrow> addr \<Rightarrow> addr \<Rightarrow> addr \<Rightarrow> ldom_tlb_entry" where
  "LDomAddrTLBEntry d s n m = \<lparr>le_domid = d, le_start = s, le_size = n, le_remapped = m\<rparr>"

definition LDomAddrTLBEntry_ranges :: "guest_addr_range \<Rightarrow> addr_range \<Rightarrow> ldom_tlb_entry result" where
  "LDomAddrTLBEntry_ranges original remapped =
     rbind (sim_assert (\<not> gar_interleaved original \<and> \<not> ar_intlvBits remapped \<noteq> 0)) (\<lambda>_.
       Inr (LDomAddrTLBEntry (gar_guestID original) (gar_start original) (gar_size original)
              (ar_start remapped)))"

definition le_contains :: "ldom_tlb_entry \<Rightarrow> ldom_id \<Rightarrow> addr \<Rightarrow> bool" where
  "le_contains e domid a =
     (le_domid e = domid \<and> a \<ge> le_start e \<and> a \<le> le_start e + le_size e - 1)"

definition le_translate :: "ldom_tlb_entry \<Rightarrow> addr \<Rightarrow> addr" where
  "le_translate e a = a - le_start e + le_remapped e"

section \<open>LDomAddrTLB\<close>

type_synonym ldom_tlb = "ldom_tlb_entry list"

definition tlb_push_back :: "ldom_tlb \<Rightarrow> ldom_tlb_entry \<Rightarrow> ldom_tlb" where
  "tlb_push_back tlb e = tlb @ [e]"

definition tlb_size :: "ldom_tlb \<Rightarrow> nat" where
  "tlb_size tlb = length tlb"

text \<open>The erase loop: the iterator stays where it is after an erase.\<close>

fun tlb_remove :: "ldom_tlb \<Rightarrow> ldom_id \<Rightarrow> ldom_tlb" where
  "tlb_remove [] d = []"
| "tlb_remove (e # es) d = (if le_domid e = d then tlb_remove es d else e # tlb_remove es d)"

fun tlb_query :: "ldom_tlb \<Rightarrow> ldom_id \<Rightarrow> ldom_tlb_entry list \<Rightarrow> ldom_tlb_entry list" where
  "tlb_query [] d xent = xent"
| "tlb_query (e # es) d xent = (if le_domid e = d then xent @ [e] else tlb_query es d xent)"

fun tlb_remapAddr :: "ldom_tlb \<Rightarrow> ldom_id \<Rightarrow> addr \<Rightarrow> addr" where
  "tlb_remapAddr [] d a = a"
| "tlb_remapAddr (e # es) d a =
     (if le_contains e d a then le_translate e a else tlb_remapAddr es d a)"

section \<open>Well-formed tables\<close>

text \<open>
  An entry is well formed when neither its source window nor its target window wraps around
  the address space and it is not empty. A table is well formed when, besides, the source
  windows of one domain do not overlap and no two target windows overlap. Coverage is
  membership in the source window of some entry of the domain.
\<close>

definition le_wf :: "ldom_tlb_entry \<Rightarrow> bool" where
  "le_wf e = (0 < unat (le_size e) \<and> unat (le_start e) + unat (le_size e) \<le> 2 ^ 64 \<and>
              unat (le_remapped e) + unat (le_size e) \<le> 2 ^ 64)"

definition windows_disjoint :: "addr \<Rightarrow> addr \<Rightarrow> addr \<Rightarrow> addr \<Rightarrow> bool" where
  "windows_disjoint s n s' n' =
     (unat s + unat n \<le> unat s' \<or> unat s' + unat n' \<le> unat s)"

definition entries_disjoint :: "ldom_tlb_entry \<Rightarrow> ldom_tlb_entry \<Rightarrow> bool" where
  "entries_disjoint e f =
     (windows_disjoint (le_remapped e) (le_size e) (le_remapped f) (le_size f) \<and>
      (le_domid e = le_domid f \<longrightarrow>
         windows_disjoint (le_start e) (le_size e) (le_start f) (le_size f)))"

fun tlb_wf :: "ldom_tlb \<Rightarrow> bool" where
  "tlb_wf [] = True"
| "tlb_wf (e # es) = (le_wf e \<and> list_all (entries_disjoint e) es \<and> tlb_wf es)"

definition tlb_covers :: "ldom_tlb \<Rightarrow> ldom_id \<Rightarrow> addr \<Rightarrow> bool" where
  "tlb_covers tlb d a = list_ex (\<lambda>e. le_contains e d a) tlb"

section \<open>Entries\<close>

lemma le_contains_iff:
  assumes "le_wf e"
  shows "le_contains e d a \<longleftrightarrow> d = le_domid e \<and>
    unat (le_start e) \<le> unat a \<and> unat a < unat (le_start e) + unat (le_size e)"
proof -
  have "0 < le_size e" "unat (le_start e) + unat (le_size e) \<le> 2 ^ 64"
    using assms by (auto simp: le_wf_def unat_gt_0 word_gt_0)
  from RangeSize_contains [OF this, of 0 a 0] show ?thesis
    by (auto simp: le_contains_def gar_contains_plain gar_interleaved_def RangeSize_def
        GuestAddrRange_plain_def)
qed

lemma unat_le_translate:
  assumes "le_wf e" "le_contains e d a"
  shows "unat (le_translate e a) = unat (le_remapped e) + (unat a - unat (le_start e))"
proof -
  have b: "unat (le_start e) \<le> unat a" "unat a < unat (le_start e) + unat (le_size e)"
    using assms by (simp_all add: le_contains_iff)
  then have "unat (a - le_start e) = unat a - unat (le_start e)"
    by (simp add: unat_minus_le word_le_nat_alt)
  moreover have "unat (a - le_start e) + unat (le_remapped e) < 2 ^ LENGTH(64)"
    using b assms(1) calculation unfolding le_wf_def by simp linarith
  ultimately show ?thesis
    unfolding le_translate_def by (simp add: unat_add_lt)
qed

lemma le_translate_window:
  assumes "le_wf e" "le_contains e d a"
  shows "unat (le_remapped e) \<le> unat (le_translate e a)"
    "unat (le_translate e a) < unat (le_remapped e) + unat (le_size e)"
  using assms unat_le_translate [OF assms] by (auto simp: le_contains_iff)

lemma le_translate_inj:
  assumes "le_translate e a = le_translate e b"
  shows "a = b"
  using assms by (simp add: le_translate_def)

lemma le_size_zero_wraps: "le_contains (LDomAddrTLBEntry d 0 0 m) d a"
  by (simp add: le_contains_def LDomAddrTLBEntry_def)

section \<open>Tables\<close>

lemma tlb_wf_iff: "tlb_wf tlb \<longleftrightarrow> list_all le_wf tlb \<and> sorted_wrt entries_disjoint tlb"
  by (induction tlb) (auto simp: list_all_iff)

lemma entries_disjoint_sym: "entries_disjoint e f \<longleftrightarrow> entries_disjoint f e"
  by (auto simp: entries_disjoint_def windows_disjoint_def)

lemma tlb_wf_pair:
  assumes "tlb_wf tlb" "e \<in> set tlb" "f \<in> set tlb"
  shows "e = f \<or> entries_disjoint e f"
  using assms by (induction tlb) (auto simp: list_all_iff entries_disjoint_sym)

lemma tlb_wf_entry: "tlb_wf tlb \<Longrightarrow> e \<in> set tlb \<Longrightarrow> le_wf e"
  by (auto simp: tlb_wf_iff list_all_iff)

lemma tlb_remapAddr_find:
  "tlb_remapAddr tlb d a =
     (case find (\<lambda>e. le_contains e d a) tlb of None \<Rightarrow> a | Some e \<Rightarrow> le_translate e a)"
  by (induction tlb) auto

lemma tlb_remapAddr_uncovered: "\<not> tlb_covers tlb d a \<Longrightarrow> tlb_remapAddr tlb d a = a"
  by (induction tlb) (auto simp: tlb_covers_def)

lemma tlb_remapAddr_covered:
  assumes "tlb_covers tlb d a"
  obtains e where "e \<in> set tlb" "le_contains e d a" "tlb_remapAddr tlb d a = le_translate e a"
proof -
  from assms obtain e where "find (\<lambda>e. le_contains e d a) tlb = Some e"
    unfolding tlb_covers_def list_ex_iff by (metis (mono_tags, lifting) find_None_iff not_None_eq)
  then show thesis using that find_SomeD [of "\<lambda>e. le_contains e d a" tlb e]
    by (auto simp: tlb_remapAddr_find)
qed

lemma tlb_remove_filter: "tlb_remove tlb d = filter (\<lambda>e. le_domid e \<noteq> d) tlb"
  by (induction tlb) auto

lemma tlb_remove_wf: "tlb_wf tlb \<Longrightarrow> tlb_wf (tlb_remove tlb d)"
  by (auto simp: tlb_wf_iff tlb_remove_filter list_all_iff sorted_wrt_filter)

lemma tlb_push_back_wf:
  "tlb_wf tlb \<Longrightarrow> le_wf e \<Longrightarrow> list_all (\<lambda>f. entries_disjoint f e) tlb \<Longrightarrow> tlb_wf (tlb_push_back tlb e)"
  by (auto simp: tlb_wf_iff tlb_push_back_def list_all_iff sorted_wrt_append)

lemma tlb_remapAddr_append:
  "tlb_remapAddr (xs @ ys) d a =
     (if tlb_covers xs d a then tlb_remapAddr xs d a else tlb_remapAddr ys d a)"
  by (induction xs) (auto simp: tlb_covers_def)

lemma tlb_remove_other: "d' \<noteq> d \<Longrightarrow> tlb_remapAddr (tlb_remove tlb d) d' a = tlb_remapAddr tlb d' a"
  by (induction tlb) (auto simp: le_contains_def)

lemma tlb_remove_same: "tlb_remapAddr (tlb_remove tlb d) d a = a"
  by (induction tlb) (auto simp: le_contains_def)

lemma tlb_query_first:
  "tlb_query tlb d xent = xent @ (case find (\<lambda>e. le_domid e = d) tlb of None \<Rightarrow> [] | Some e \<Rightarrow> [e])"
  by (induction tlb) auto

lemma tlb_isolation:
  assumes "tlb_wf tlb" "tlb_covers tlb d a" "tlb_covers tlb d' a'"
    and "tlb_remapAddr tlb d a = tlb_remapAddr tlb d' a'"
  shows "d = d' \<and> a = a'"
proof -
  obtain e where e: "e \<in> set tlb" "le_contains e d a" "tlb_remapAddr tlb d a = le_translate e a"
    using assms(2) by (rule tlb_remapAddr_covered)
  obtain f where f: "f \<in> set tlb" "le_contains f d' a'" "tlb_remapAddr tlb d' a' = le_translate f a'"
    using assms(3) by (rule tlb_remapAddr_covered)
  note we = tlb_wf_entry [OF assms(1) e(1)] and wf = tlb_wf_entry [OF assms(1) f(1)]
  have "\<not> windows_disjoint (le_remapped e) (le_size e) (le_remapped f) (le_size f)"
    using le_translate_window [OF we e(2)] le_translate_window [OF wf f(2)] assms(4) e(3) f(3)
    by (auto simp: windows_disjoint_def)
  then have "e = f"
    using tlb_wf_pair [OF assms(1) e(1) f(1)] by (auto simp: entries_disjoint_def)
  then show ?thesis
    using assms(4) e f le_translate_inj [of e a a'] by (auto simp: le_contains_def)
qed

text \<open>The order of the entries of a well-formed table does not matter.\<close>

lemma tlb_unique_entry:
  assumes "tlb_wf tlb" "e \<in> set tlb" "f \<in> set tlb" "le_contains e d a" "le_contains f d a"
  shows "e = f"
  using assms tlb_wf_pair [OF assms(1-3)] tlb_wf_entry [OF assms(1)]
  by (auto simp: entries_disjoint_def windows_disjoint_def le_contains_iff)

lemma tlb_remapAddr_mem:
  assumes "tlb_wf tlb" "e \<in> set tlb" "le_contains e d a"
  shows "tlb_remapAddr tlb d a = le_translate e a"
proof -
  have "tlb_covers tlb d a" using assms by (auto simp: tlb_covers_def list_ex_iff)
  then show ?thesis using tlb_unique_entry [OF assms(1) _ assms(2) _ assms(3)]
    by (metis tlb_remapAddr_covered)
qed

end
