(* ===== verification/Packet.thy ===== *)
theory Packet
  imports Guest_Addr
begin

text \<open>
  Memory packets: \<^verbatim>\<open>gem5-pard/src/mem/packet.hh\<close> and \<^verbatim>\<open>packet.cc\<close>. The command table is
  transcribed row by row; a packet is a record with the fields of the class. Its data pointer
  is an optional byte list, its chain of sender states a list (head = top), its flags the
  32-bit flag word. The request a packet points to is embedded in the packet. Address and
  size are always valid: every constructor reached by the modelled components sets
  \<^verbatim>\<open>VALID_ADDR\<close> and \<^verbatim>\<open>VALID_SIZE\<close>; the QoS tag may be missing, and \<^verbatim>\<open>getQosTag\<close> asserts it.
\<close>

section \<open>MemCmd\<close>

datatype mem_cmd =
    InvalidCmd | ReadReq | ReadResp | ReadRespWithInvalidate | WriteReq | WriteResp | Writeback
  | SoftPFReq | HardPFReq | SoftPFResp | HardPFResp | WriteInvalidateReq | WriteInvalidateResp
  | UpgradeReq | SCUpgradeReq | UpgradeResp | SCUpgradeFailReq | UpgradeFailResp
  | ReadExReq | ReadExResp | LoadLockedReq | StoreCondReq | StoreCondFailReq | StoreCondResp
  | SwapReq | SwapResp | MessageReq | MessageResp
  | InvalidDestError | BadAddressError | FunctionalReadError | FunctionalWriteError
  | PrintReq | FlushReq | InvalidationReq

datatype cmd_attribute =
    IsRead | IsWrite | IsUpgrade | IsInvalidate | NeedsExclusive | IsRequest | IsResponse
  | NeedsResponse | IsSWPrefetch | IsHWPrefetch | IsLlsc | HasData | IsError | IsPrint | IsFlush

fun commandInfo :: "mem_cmd \<Rightarrow> cmd_attribute list \<times> mem_cmd" where
  "commandInfo InvalidCmd = ([], InvalidCmd)"
| "commandInfo ReadReq = ([IsRead, IsRequest, NeedsResponse], ReadResp)"
| "commandInfo ReadResp = ([IsRead, IsResponse, HasData], InvalidCmd)"
| "commandInfo ReadRespWithInvalidate = ([IsRead, IsResponse, HasData, IsInvalidate], InvalidCmd)"
| "commandInfo WriteReq = ([IsWrite, NeedsExclusive, IsRequest, NeedsResponse, HasData], WriteResp)"
| "commandInfo WriteResp = ([IsWrite, NeedsExclusive, IsResponse], InvalidCmd)"
| "commandInfo Writeback = ([IsWrite, NeedsExclusive, IsRequest, HasData], InvalidCmd)"
| "commandInfo SoftPFReq = ([IsRead, IsRequest, IsSWPrefetch, NeedsResponse], SoftPFResp)"
| "commandInfo HardPFReq = ([IsRead, IsRequest, IsHWPrefetch, NeedsResponse], HardPFResp)"
| "commandInfo SoftPFResp = ([IsRead, IsResponse, IsSWPrefetch, HasData], InvalidCmd)"
| "commandInfo HardPFResp = ([IsRead, IsResponse, IsHWPrefetch, HasData], InvalidCmd)"
| "commandInfo WriteInvalidateReq =
     ([IsWrite, NeedsExclusive, IsInvalidate, IsRequest, HasData, NeedsResponse], WriteInvalidateResp)"
| "commandInfo WriteInvalidateResp = ([IsWrite, NeedsExclusive, IsResponse], InvalidCmd)"
| "commandInfo UpgradeReq =
     ([IsInvalidate, NeedsExclusive, IsUpgrade, IsRequest, NeedsResponse], UpgradeResp)"
| "commandInfo SCUpgradeReq =
     ([IsInvalidate, NeedsExclusive, IsUpgrade, IsLlsc, IsRequest, NeedsResponse], UpgradeResp)"
| "commandInfo UpgradeResp = ([NeedsExclusive, IsUpgrade, IsResponse], InvalidCmd)"
| "commandInfo SCUpgradeFailReq =
     ([IsInvalidate, NeedsExclusive, IsLlsc, IsRequest, NeedsResponse], UpgradeFailResp)"
| "commandInfo UpgradeFailResp = ([NeedsExclusive, IsResponse], InvalidCmd)"
| "commandInfo ReadExReq =
     ([IsRead, NeedsExclusive, IsInvalidate, IsRequest, NeedsResponse], ReadExResp)"
| "commandInfo ReadExResp = ([IsRead, NeedsExclusive, IsResponse, HasData], InvalidCmd)"
| "commandInfo LoadLockedReq = ([IsRead, IsLlsc, IsRequest, NeedsResponse], ReadResp)"
| "commandInfo StoreCondReq =
     ([IsWrite, NeedsExclusive, IsLlsc, IsRequest, NeedsResponse, HasData], StoreCondResp)"
| "commandInfo StoreCondFailReq =
     ([IsWrite, NeedsExclusive, IsLlsc, IsRequest, NeedsResponse, HasData], StoreCondResp)"
| "commandInfo StoreCondResp = ([IsWrite, NeedsExclusive, IsLlsc, IsResponse], InvalidCmd)"
| "commandInfo SwapReq =
     ([IsRead, IsWrite, NeedsExclusive, IsRequest, HasData, NeedsResponse], SwapResp)"
| "commandInfo SwapResp = ([IsRead, IsWrite, NeedsExclusive, IsResponse, HasData], InvalidCmd)"
| "commandInfo MessageReq = ([IsWrite, IsRequest, NeedsResponse, HasData], MessageResp)"
| "commandInfo MessageResp = ([IsWrite, IsResponse], InvalidCmd)"
| "commandInfo InvalidDestError = ([IsResponse, IsError], InvalidCmd)"
| "commandInfo BadAddressError = ([IsResponse, IsError], InvalidCmd)"
| "commandInfo FunctionalReadError = ([IsRead, IsResponse, IsError], InvalidCmd)"
| "commandInfo FunctionalWriteError = ([IsWrite, IsResponse, IsError], InvalidCmd)"
| "commandInfo PrintReq = ([IsRequest, IsPrint], InvalidCmd)"
| "commandInfo FlushReq = ([IsRequest, IsFlush, NeedsExclusive], InvalidCmd)"
| "commandInfo InvalidationReq = ([NeedsExclusive, IsInvalidate, IsRequest], InvalidCmd)"

definition testCmdAttrib :: "mem_cmd \<Rightarrow> cmd_attribute \<Rightarrow> bool" where
  "testCmdAttrib cmd a = (a \<in> set (fst (commandInfo cmd)))"

definition isRead :: "mem_cmd \<Rightarrow> bool" where "isRead c = testCmdAttrib c IsRead"
definition isWrite :: "mem_cmd \<Rightarrow> bool" where "isWrite c = testCmdAttrib c IsWrite"
definition isUpgrade :: "mem_cmd \<Rightarrow> bool" where "isUpgrade c = testCmdAttrib c IsUpgrade"
definition isRequest :: "mem_cmd \<Rightarrow> bool" where "isRequest c = testCmdAttrib c IsRequest"
definition isResponse :: "mem_cmd \<Rightarrow> bool" where "isResponse c = testCmdAttrib c IsResponse"
definition needsExclusive :: "mem_cmd \<Rightarrow> bool" where "needsExclusive c = testCmdAttrib c NeedsExclusive"
definition needsResponse :: "mem_cmd \<Rightarrow> bool" where "needsResponse c = testCmdAttrib c NeedsResponse"
definition isInvalidate :: "mem_cmd \<Rightarrow> bool" where "isInvalidate c = testCmdAttrib c IsInvalidate"
definition hasData :: "mem_cmd \<Rightarrow> bool" where "hasData c = testCmdAttrib c HasData"
definition isReadWrite :: "mem_cmd \<Rightarrow> bool" where "isReadWrite c = (isRead c \<and> isWrite c)"
definition isLLSC :: "mem_cmd \<Rightarrow> bool" where "isLLSC c = testCmdAttrib c IsLlsc"
definition isError :: "mem_cmd \<Rightarrow> bool" where "isError c = testCmdAttrib c IsError"
definition isPrint :: "mem_cmd \<Rightarrow> bool" where "isPrint c = testCmdAttrib c IsPrint"
definition isFlush :: "mem_cmd \<Rightarrow> bool" where "isFlush c = testCmdAttrib c IsFlush"

definition responseCommand :: "mem_cmd \<Rightarrow> mem_cmd" where
  "responseCommand c = snd (commandInfo c)"

lemmas cmd_attrib_defs =
  isRead_def isWrite_def isUpgrade_def isRequest_def isResponse_def needsExclusive_def
  needsResponse_def isInvalidate_def hasData_def isReadWrite_def isLLSC_def isError_def
  isPrint_def isFlush_def responseCommand_def testCmdAttrib_def

section \<open>Packet\<close>

text \<open>
  The sender states pushed by the modelled components: the label stack of a print request,
  the original address kept by an address mapper, the original source port kept by a bridge,
  the MSHR a cache request belongs to, the request state of a DMA port.
\<close>

datatype sender_state =
    PrintReqState "string list"
  | AddrMapperSenderState addr
  | BridgeReqState int
  | MSHRState nat
  | DmaReqState nat

record request =
  rq_paddr :: addr
  rq_size :: nat
  rq_secure :: bool
  rq_qosTag :: "u64 option"
  rq_uncacheable :: bool
  rq_llsc :: bool
  rq_condSwap :: bool
  rq_instFetch :: bool
  rq_contextId :: int
  rq_masterId :: nat
  rq_taskId :: u32
  rq_extraData :: "u64 option"

text \<open>Constants of \<^verbatim>\<open>mem/request.hh\<close>.\<close>

definition TASK_UNKNOWN :: u32 where "TASK_UNKNOWN = 1024"
definition INVLD_MASTER_ID :: nat where "INVLD_MASTER_ID = 65535"

record packet =
  pk_cmd :: mem_cmd
  pk_req :: request
  pk_data :: "u8 list option"
  pk_qosTag :: u64
  pk_addr :: addr
  pk_isSecure :: bool
  pk_size :: nat
  pk_src :: int
  pk_dest :: int
  pk_origCmd :: mem_cmd
  pk_bytesValidStart :: u16
  pk_bytesValidEnd :: u16
  pk_busFirstWordDelay :: nat
  pk_busLastWordDelay :: nat
  pk_senderState :: "sender_state list"
  pk_flags :: u32

definition SHARED :: u32 where "SHARED = 0x1"
definition EXPRESS_SNOOP :: u32 where "EXPRESS_SNOOP = 0x2"
definition SUPPLY_EXCLUSIVE :: u32 where "SUPPLY_EXCLUSIVE = 0x4"
definition MEM_INHIBIT :: u32 where "MEM_INHIBIT = 0x8"
definition VALID_ADDR :: u32 where "VALID_ADDR = 0x100"
definition VALID_SIZE :: u32 where "VALID_SIZE = 0x200"
definition VALID_QOSTAG :: u32 where "VALID_QOSTAG = 0x800"
definition STATIC_DATA :: u32 where "STATIC_DATA = 0x1000"
definition DYNAMIC_DATA :: u32 where "DYNAMIC_DATA = 0x2000"
definition ARRAY_DATA :: u32 where "ARRAY_DATA = 0x4000"
definition COPY_FLAGS :: u32 where "COPY_FLAGS = 0xF"

lemmas packet_flag_defs =
  SHARED_def EXPRESS_SNOOP_def SUPPLY_EXCLUSIVE_def MEM_INHIBIT_def VALID_ADDR_def VALID_SIZE_def
  VALID_QOSTAG_def STATIC_DATA_def DYNAMIC_DATA_def ARRAY_DATA_def COPY_FLAGS_def

definition InvalidPortID :: int where
  "InvalidPortID = - 1"

definition flag_isSet :: "packet \<Rightarrow> u32 \<Rightarrow> bool" where
  "flag_isSet p f = (pk_flags p AND f \<noteq> 0)"

definition flag_set :: "u32 \<Rightarrow> packet \<Rightarrow> packet" where
  "flag_set f p = p\<lparr>pk_flags := pk_flags p OR f\<rparr>"

definition flag_clear :: "u32 \<Rightarrow> packet \<Rightarrow> packet" where
  "flag_clear f p = p\<lparr>pk_flags := pk_flags p AND NOT f\<rparr>"

definition assertMemInhibit :: "packet \<Rightarrow> packet" where "assertMemInhibit = flag_set MEM_INHIBIT"
definition memInhibitAsserted :: "packet \<Rightarrow> bool" where "memInhibitAsserted p = flag_isSet p MEM_INHIBIT"
definition assertShared :: "packet \<Rightarrow> packet" where "assertShared = flag_set SHARED"
definition sharedAsserted :: "packet \<Rightarrow> bool" where "sharedAsserted p = flag_isSet p SHARED"
definition setExpressSnoop :: "packet \<Rightarrow> packet" where "setExpressSnoop = flag_set EXPRESS_SNOOP"
definition isExpressSnoop :: "packet \<Rightarrow> bool" where "isExpressSnoop p = flag_isSet p EXPRESS_SNOOP"
definition setSupplyExclusive :: "packet \<Rightarrow> packet" where "setSupplyExclusive = flag_set SUPPLY_EXCLUSIVE"
definition clearSupplyExclusive :: "packet \<Rightarrow> packet" where
  "clearSupplyExclusive = flag_clear SUPPLY_EXCLUSIVE"
definition isSupplyExclusive :: "packet \<Rightarrow> bool" where
  "isSupplyExclusive p = flag_isSet p SUPPLY_EXCLUSIVE"

definition getQosTag :: "packet \<Rightarrow> u64 result" where
  "getQosTag p = rbind (sim_assert (flag_isSet p VALID_QOSTAG)) (\<lambda>_. Inr (pk_qosTag p))"

definition setQosTag :: "u64 \<Rightarrow> packet \<Rightarrow> packet" where
  "setQosTag tag p =
     flag_set VALID_QOSTAG (p\<lparr>pk_qosTag := tag, pk_req := (pk_req p)\<lparr>rq_qosTag := Some tag\<rparr>\<rparr>)"

definition PARDG5V_PKT_TO_GUESTID :: "packet \<Rightarrow> guest_id result" where
  "PARDG5V_PKT_TO_GUESTID p = rbind (getQosTag p) (\<lambda>t. Inr (ucast (t AND 0xFF)))"

definition PARDG5V_SET_PKT_GUESTID :: "packet \<Rightarrow> guest_id \<Rightarrow> packet result" where
  "PARDG5V_SET_PKT_GUESTID p g =
     rbind (getQosTag p) (\<lambda>t. Inr (setQosTag ((t AND 0xFFFFFFFFFFFFFF00) OR ucast (g AND 0xFF)) p))"

definition getAddr :: "packet \<Rightarrow> addr result" where
  "getAddr p = rbind (sim_assert (flag_isSet p VALID_ADDR)) (\<lambda>_. Inr (pk_addr p))"

definition setAddr :: "addr \<Rightarrow> packet \<Rightarrow> packet result" where
  "setAddr a p = rbind (sim_assert (flag_isSet p VALID_ADDR)) (\<lambda>_. Inr (p\<lparr>pk_addr := a\<rparr>))"

definition getSize :: "packet \<Rightarrow> nat result" where
  "getSize p = rbind (sim_assert (flag_isSet p VALID_SIZE)) (\<lambda>_. Inr (pk_size p))"

definition getSrc :: "packet \<Rightarrow> int result" where
  "getSrc p = rbind (sim_assert (pk_src p \<noteq> InvalidPortID)) (\<lambda>_. Inr (pk_src p))"

definition getOffset :: "packet \<Rightarrow> u64 \<Rightarrow> addr" where
  "getOffset p blkSize = pk_addr p AND (blkSize - 1)"

definition mk_packet :: "request \<Rightarrow> mem_cmd \<Rightarrow> packet" where
  "mk_packet req c =
     \<lparr>pk_cmd = c, pk_req = req, pk_data = None,
      pk_qosTag = (case rq_qosTag req of None \<Rightarrow> 0 | Some t \<Rightarrow> t),
      pk_addr = rq_paddr req, pk_isSecure = rq_secure req, pk_size = rq_size req,
      pk_src = InvalidPortID, pk_dest = InvalidPortID, pk_origCmd = InvalidCmd,
      pk_bytesValidStart = 0, pk_bytesValidEnd = 0,
      pk_busFirstWordDelay = 0, pk_busLastWordDelay = 0, pk_senderState = [],
      pk_flags = VALID_ADDR OR VALID_SIZE OR (if rq_qosTag req = None then 0 else VALID_QOSTAG)\<rparr>"

definition copy_packet :: "packet \<Rightarrow> bool \<Rightarrow> packet" where
  "copy_packet p clearFlags =
     p\<lparr>pk_data := (if flag_isSet p STATIC_DATA then pk_data p else None),
       pk_origCmd := InvalidCmd,
       pk_flags := (if clearFlags then 0 else pk_flags p AND COPY_FLAGS)
          OR (pk_flags p AND (VALID_ADDR OR VALID_SIZE))
          OR (pk_flags p AND STATIC_DATA) OR (pk_flags p AND VALID_QOSTAG)\<rparr>"

definition makeResponse :: "packet \<Rightarrow> packet result" where
  "makeResponse p =
     rbind (sim_assert (needsResponse (pk_cmd p))) (\<lambda>_.
     rbind (sim_assert (isRequest (pk_cmd p))) (\<lambda>_.
       Inr ((flag_clear EXPRESS_SNOOP
              (p\<lparr>pk_origCmd := pk_cmd p, pk_cmd := responseCommand (pk_cmd p)\<rparr>))
            \<lparr>pk_dest := pk_src p, pk_src := InvalidPortID\<rparr>)))"

definition convertScToWrite :: "packet \<Rightarrow> packet result" where
  "convertScToWrite p =
     rbind (sim_assert (isLLSC (pk_cmd p))) (\<lambda>_.
     rbind (sim_assert (isWrite (pk_cmd p))) (\<lambda>_. Inr (p\<lparr>pk_cmd := WriteReq\<rparr>)))"

definition convertLlToRead :: "packet \<Rightarrow> packet result" where
  "convertLlToRead p =
     rbind (sim_assert (isLLSC (pk_cmd p))) (\<lambda>_.
     rbind (sim_assert (isRead (pk_cmd p))) (\<lambda>_. Inr (p\<lparr>pk_cmd := ReadReq\<rparr>)))"

definition setFunctionalResponseStatus :: "bool \<Rightarrow> packet \<Rightarrow> packet" where
  "setFunctionalResponseStatus success p =
     (if \<not> success then
        (if isWrite (pk_cmd p) then p\<lparr>pk_cmd := FunctionalWriteError\<rparr>
         else p\<lparr>pk_cmd := FunctionalReadError\<rparr>)
      else p)"

definition getPtr :: "packet \<Rightarrow> u8 list result" where
  "getPtr p =
     rbind (sim_assert (flag_isSet p (STATIC_DATA OR DYNAMIC_DATA))) (\<lambda>_.
       case pk_data p of None \<Rightarrow> Inl BadAccess | Some d \<Rightarrow> Inr d)"

text \<open>\<^verbatim>\<open>allocate\<close>: fresh storage is uninitialised; its contents are the argument \<open>junk\<close>.\<close>

definition pkt_allocate :: "u8 list \<Rightarrow> packet \<Rightarrow> packet result" where
  "pkt_allocate junk p =
     (case pk_data p of
        Some _ \<Rightarrow> rbind (sim_assert (flag_isSet p (STATIC_DATA OR DYNAMIC_DATA))) (\<lambda>_. Inr p)
      | None \<Rightarrow>
          rbind (sim_assert (\<not> flag_isSet p (STATIC_DATA OR DYNAMIC_DATA))) (\<lambda>_.
            Inr (flag_set (DYNAMIC_DATA OR ARRAY_DATA)
                   (p\<lparr>pk_data := Some (take (pk_size p) (junk @ replicate (pk_size p) 0))\<rparr>))))"

definition dataStatic :: "u8 list \<Rightarrow> packet \<Rightarrow> packet result" where
  "dataStatic d p =
     rbind (sim_assert (\<not> flag_isSet p (STATIC_DATA OR DYNAMIC_DATA OR ARRAY_DATA))) (\<lambda>_.
       Inr (flag_set STATIC_DATA (p\<lparr>pk_data := Some d\<rparr>)))"

definition setData :: "u8 list \<Rightarrow> int \<Rightarrow> packet \<Rightarrow> packet result" where
  "setData src off p =
     rbind (getPtr p) (\<lambda>d.
     rbind (mem_read src off (pk_size p)) (\<lambda>bs.
     rbind (mem_write d 0 bs) (\<lambda>d'. Inr (p\<lparr>pk_data := Some d'\<rparr>))))"

definition setDataFromBlock :: "u8 list \<Rightarrow> u64 \<Rightarrow> packet \<Rightarrow> packet result" where
  "setDataFromBlock blk_data blkSize p = setData blk_data (uint (getOffset p blkSize)) p"

definition writeData :: "packet \<Rightarrow> u8 list \<Rightarrow> int \<Rightarrow> u8 list result" where
  "writeData p dst off =
     rbind (getPtr p) (\<lambda>d. rbind (mem_read d 0 (pk_size p)) (\<lambda>bs. mem_write dst off bs))"

definition writeDataToBlock :: "packet \<Rightarrow> u8 list \<Rightarrow> u64 \<Rightarrow> u8 list result" where
  "writeDataToBlock p blk_data blkSize = writeData p blk_data (uint (getOffset p blkSize))"

definition pushSenderState :: "sender_state \<Rightarrow> packet \<Rightarrow> packet" where
  "pushSenderState s p = p\<lparr>pk_senderState := s # pk_senderState p\<rparr>"

definition popSenderState :: "packet \<Rightarrow> (sender_state \<times> packet) result" where
  "popSenderState p =
     (case pk_senderState p of [] \<Rightarrow> Inl AssertFail
      | s # ss \<Rightarrow> Inr (s, p\<lparr>pk_senderState := ss\<rparr>))"

text \<open>The label stack of a print request; it always holds the empty bottom label.\<close>

definition pushLabel :: "string \<Rightarrow> packet \<Rightarrow> packet result" where
  "pushLabel lbl p =
     (if isPrint (pk_cmd p) then
        (case pk_senderState p of PrintReqState ls # ss \<Rightarrow>
             Inr (p\<lparr>pk_senderState := PrintReqState (ls @ [lbl]) # ss\<rparr>)
         | _ \<Rightarrow> Inl AssertFail)
      else Inr p)"

definition popLabel :: "packet \<Rightarrow> packet result" where
  "popLabel p =
     (if isPrint (pk_cmd p) then
        (case pk_senderState p of PrintReqState ls # ss \<Rightarrow>
             rbind (sim_assert (butlast ls \<noteq> [])) (\<lambda>_.
               Inr (p\<lparr>pk_senderState := PrintReqState (butlast ls) # ss\<rparr>))
         | _ \<Rightarrow> Inl AssertFail)
      else Inr p)"

section \<open>checkFunctional\<close>

text \<open>Conversion of a 64-bit difference to a C++ \<^verbatim>\<open>int\<close>.\<close>

definition to_int :: "u64 \<Rightarrow> int" where
  "to_int w = sint (ucast w :: 32 word)"

text \<open>
  The bookkeeping of a partial read: from the valid window of the packet and the offsets of
  the found bytes, the new window, the copy to make and, when the found bytes surround the
  window, a first copy \<open>(destination, source, length)\<close>.
\<close>

record partial_copy =
  pc_start :: u16
  pc_end :: u16
  pc_func_offset :: int
  pc_val_offset :: int
  pc_overlap :: int
  pc_first :: "(int \<times> int \<times> int) option"

definition partial_window :: "u16 \<Rightarrow> u16 \<Rightarrow> int \<Rightarrow> int \<Rightarrow> int \<Rightarrow> partial_copy result" where
  "partial_window vs ve fo vo ov =
     (if vs = 0 \<and> ve = 0 then
        Inr \<lparr>pc_start = of_int fo, pc_end = of_int (fo + ov), pc_func_offset = fo,
             pc_val_offset = vo, pc_overlap = ov, pc_first = None\<rparr>
      else
        let a = fo - uint vs; b = (fo + ov) - uint ve; c = fo - uint ve; d = (fo + ov) - uint vs;
            keep = \<lparr>pc_start = vs, pc_end = ve, pc_func_offset = fo,
                    pc_val_offset = vo, pc_overlap = ov, pc_first = None\<rparr>
        in
        if a \<ge> 0 \<and> b \<le> 0 then Inr (keep\<lparr>pc_overlap := 0\<rparr>)
        else if a < 0 \<and> d \<ge> 0 \<and> b \<le> 0 then
          Inr (keep\<lparr>pc_overlap := uint vs - fo, pc_start := of_int fo\<rparr>)
        else if b > 0 \<and> c \<le> 0 \<and> a \<ge> 0 then
          Inr (keep\<lparr>pc_overlap := b, pc_val_offset := vo + (uint ve - fo),
                    pc_func_offset := uint ve, pc_end := ve + of_int b\<rparr>)
        else if a < 0 \<and> b > 0 then
          Inr (keep\<lparr>pc_first := Some (fo, vo, uint vs - fo),
                    pc_val_offset := vo + (uint ve - fo), pc_start := of_int fo,
                    pc_overlap := b, pc_func_offset := uint ve, pc_end := ve + of_int b\<rparr>)
        else if (c > 0 \<and> b > 0) \<or> (a < 0 \<and> d < 0) then Inl Panic
        else Inr keep)"

definition copy_bytes :: "u8 list \<Rightarrow> u8 list \<Rightarrow> int \<times> int \<times> int \<Rightarrow> u8 list result" where
  "copy_bytes dst src = (\<lambda>(d, s, n).
     if n < 0 then Inl BadAccess
     else rbind (mem_read src s (nat n)) (\<lambda>bs. mem_write dst d bs))"

definition checkFunctional_partial ::
  "packet \<Rightarrow> addr \<Rightarrow> int \<Rightarrow> u8 list \<Rightarrow> (bool \<times> packet) result" where
  "checkFunctional_partial p val_start sz data =
     (let func_start = pk_addr p;
          func_end = pk_addr p + of_nat (pk_size p) - 1;
          val_end = val_start + of_int sz - 1
      in
      rbind (if val_start < func_start \<and> val_end \<le> func_end then
               Inr (to_int (func_start - val_start), 0, to_int (val_end - func_start))
             else if val_start \<ge> func_start \<and> val_end > func_end then
               Inr (0, to_int (val_start - func_start), to_int (func_end - val_start))
             else if val_start \<ge> func_start \<and> val_end \<le> func_end then
               Inr (0, to_int (val_start - func_start), sz)
             else Inl Panic) (\<lambda>(vo, fo, ov).
      rbind (partial_window (pk_bytesValidStart p) (pk_bytesValidEnd p) fo vo ov) (\<lambda>w.
      rbind (getPtr p) (\<lambda>d0.
      rbind (case pc_first w of None \<Rightarrow> Inr d0 | Some c \<Rightarrow> copy_bytes d0 data c) (\<lambda>d1.
      rbind (sim_assert (unat (pc_end w) \<le> pk_size p)) (\<lambda>_.
      rbind (copy_bytes d1 data (pc_func_offset w, pc_val_offset w, pc_overlap w)) (\<lambda>d2.
        Inr (pc_start w = 0 \<and> unat (pc_end w) = pk_size p,
             p\<lparr>pk_data := Some d2, pk_bytesValidStart := pc_start w,
               pk_bytesValidEnd := pc_end w\<rparr>))))))))"

definition checkFunctional ::
  "u8 list \<Rightarrow> packet \<Rightarrow> addr \<Rightarrow> bool \<Rightarrow> int \<Rightarrow> u8 list option
   \<Rightarrow> (bool \<times> packet \<times> u8 list option) result" where
  "checkFunctional junk p addr is_secure sz data =
     (let func_start = pk_addr p;
          func_end = pk_addr p + of_nat (pk_size p) - 1;
          val_start = addr;
          val_end = val_start + of_int sz - 1
      in
      if is_secure \<noteq> pk_isSecure p \<or> func_start > val_end \<or> val_start > func_end
        then Inr (False, p, data)
      else if isPrint (pk_cmd p) then
        (case pk_senderState p of PrintReqState _ # _ \<Rightarrow> Inr (False, p, data) | _ \<Rightarrow> Inl BadAccess)
      else case data of None \<Rightarrow> Inr (False, p, None)
      | Some bs \<Rightarrow>
        let offset = to_int (func_start - val_start) in
        if isRead (pk_cmd p) then
          if func_start \<ge> val_start \<and> func_end \<le> val_end then
            rbind (pkt_allocate junk p) (\<lambda>p1.
            rbind (getPtr p1) (\<lambda>d0.
            rbind (copy_bytes d0 bs (0, offset, int (pk_size p))) (\<lambda>d.
              Inr (True, p1\<lparr>pk_data := Some d\<rparr>, data))))
          else
            rbind (checkFunctional_partial p val_start sz bs) (\<lambda>(fin, p1). Inr (fin, p1, data))
        else if isWrite (pk_cmd p) then
          rbind (getPtr p) (\<lambda>d0.
            if offset \<ge> 0 then
              rbind (copy_bytes bs d0 (offset, 0, uint (min func_end val_end - func_start + 1)))
                (\<lambda>bs'. Inr (False, p, Some bs'))
            else
              rbind (copy_bytes bs d0 (0, - offset, uint (min func_end val_end - val_start + 1)))
                (\<lambda>bs'. Inr (False, p, Some bs')))
        else Inl Panic)"

definition checkFunctional_pkt :: "u8 list \<Rightarrow> packet \<Rightarrow> packet \<Rightarrow> (bool \<times> packet \<times> packet) result" where
  "checkFunctional_pkt junk p other =
     rbind (if hasData (pk_cmd other) then rbind (getPtr other) (\<lambda>d. Inr (Some d)) else Inr None) (\<lambda>data.
     rbind (checkFunctional junk p (pk_addr other) (pk_isSecure other) (int (pk_size other)) data)
       (\<lambda>(fin, p', data'). Inr (fin, p',
          case data' of None \<Rightarrow> other | Some d \<Rightarrow> other\<lparr>pk_data := Some d\<rparr>)))"

section \<open>Properties of the command table\<close>

lemma responseCommand_wf:
  assumes "needsResponse c"
  shows "isRequest c \<and> isResponse (responseCommand c) \<and> \<not> isRequest (responseCommand c) \<and>
    \<not> needsResponse (responseCommand c) \<and>
    (isRead c \<longrightarrow> isRead (responseCommand c) \<and> hasData (responseCommand c)) \<and>
    (isWrite c \<longrightarrow> isWrite (responseCommand c))"
  using assms by (cases c) (simp_all add: cmd_attrib_defs)

lemma request_xor_response: "c \<noteq> InvalidCmd \<Longrightarrow> isRequest c \<longleftrightarrow> \<not> isResponse c"
  by (cases c) (simp_all add: cmd_attrib_defs)

lemma error_is_response: "isError c \<Longrightarrow> isResponse c \<and> \<not> isRequest c \<and> \<not> needsResponse c"
  by (cases c) (simp_all add: cmd_attrib_defs)

section \<open>Properties of packets\<close>

lemma flag_and_or_self: "(a OR f) AND f = (f :: u32)"
  by (rule bit_word_eqI) (auto simp: bit_simps)

lemma getQosTag_setQosTag: "getQosTag (setQosTag t p) = Inr t"
proof -
  have "(pk_flags p OR VALID_QOSTAG) AND VALID_QOSTAG \<noteq> 0"
    by (simp add: flag_and_or_self) (simp add: VALID_QOSTAG_def)
  then show ?thesis
    by (simp add: getQosTag_def setQosTag_def flag_set_def flag_isSet_def rbind_assert)
qed

lemma pop_push: "popSenderState (pushSenderState s p) = Inr (s, p)"
  by (simp add: popSenderState_def pushSenderState_def)

lemma PKT_GUESTID_set_get:
  assumes "PARDG5V_SET_PKT_GUESTID p g = Inr p'"
  shows "PARDG5V_PKT_TO_GUESTID p' = Inr (take_bit 8 g)"
proof -
  obtain t where "p' = setQosTag ((t AND 0xFFFFFFFFFFFFFF00) OR ucast (g AND 0xFF)) p"
    using assms by (auto simp: PARDG5V_SET_PKT_GUESTID_def rbind_eq_Inr_iff)
  moreover have m: "(0xFF :: u16) = mask 8" by (simp add: mask_eq_exp_minus_1)
  have "ucast (((t AND 0xFFFFFFFFFFFFFF00) OR ucast (g AND 0xFF)) AND 0xFF) = take_bit 8 g"
    unfolding m guest_masks by (rule bit_word_eqI) (auto simp: bit_simps)
  ultimately show ?thesis by (simp add: PARDG5V_PKT_TO_GUESTID_def getQosTag_setQosTag)
qed

lemma makeResponse_ok:
  assumes "needsResponse (pk_cmd p)"
  obtains p' where "makeResponse p = Inr p'" "isResponse (pk_cmd p')" "pk_dest p' = pk_src p"
    "pk_addr p' = pk_addr p" "pk_size p' = pk_size p" "pk_data p' = pk_data p"
    "pk_senderState p' = pk_senderState p" "pk_qosTag p' = pk_qosTag p"
  using assms responseCommand_wf [OF assms]
  by (auto simp: makeResponse_def rbind_assert flag_clear_def)

lemma popLabel_pushLabel:
  assumes "pk_senderState p = PrintReqState ls # ss" "ls \<noteq> []" "pushLabel l p = Inr p'"
  shows "popLabel p' = Inr p"
proof (cases "isPrint (pk_cmd p)")
  case True
  with assms have "p' = p\<lparr>pk_senderState := PrintReqState (ls @ [l]) # ss\<rparr>"
    by (simp add: pushLabel_def)
  moreover have "p\<lparr>pk_senderState := PrintReqState ls # ss\<rparr> = p"
    using assms(1) by simp
  ultimately show ?thesis
    using True assms(2) by (simp add: popLabel_def rbind_assert)
qed (use assms in \<open>simp add: pushLabel_def popLabel_def\<close>)

section \<open>Functional accesses\<close>

lemma to_int_small:
  assumes "unat w < 2 ^ 31"
  shows "to_int w = int (unat w)"
proof -
  have "unat (ucast w :: 32 word) = unat w"
    using assms by (simp add: unsigned_ucast_eq take_bit_eq_mod)
  then have "uint (ucast w :: 32 word) = int (unat w)" by (metis uint_nat)
  moreover have "int (unat w) < 2 ^ 31" using assms by (metis of_nat_less_numeral_power_cancel_iff)
  moreover have "- (2 ^ 31) \<le> int (unat w)" by (rule order_trans [of _ 0]) simp_all
  ultimately show ?thesis
    using signed_take_bit_int_eq_self_iff [of 31 "int (unat w)"] by (simp add: to_int_def sint_uint)
qed

lemma scast_ucast_small:
  fixes v :: u64
  assumes "v < 2 ^ 31"
  shows "scast (ucast v :: 32 word) = v"
proof -
  have "to_int v = int (unat v)" using assms by (intro to_int_small) (simp add: word_less_nat_alt)
  then show ?thesis
    unfolding to_int_def by (metis of_int_of_nat_eq of_int_sint unsigned_of_nat word_of_nat_eq_iff ucast_id of_nat_unat)
qed

text \<open>The geometry of a functional access to a buffer of \<open>n\<close> bytes at address \<open>a\<close>.\<close>

definition access_within :: "packet \<Rightarrow> addr \<Rightarrow> nat \<Rightarrow> bool" where
  "access_within p a n = (0 < pk_size p \<and> unat a + n \<le> 2 ^ 64 \<and> n < 2 ^ 31 \<and>
     unat a \<le> unat (pk_addr p) \<and> unat (pk_addr p) + pk_size p \<le> unat a + n)"

lemma access_within_ends:
  assumes "access_within p a n"
  shows "unat (pk_addr p + of_nat (pk_size p) - 1) = unat (pk_addr p) + pk_size p - 1"
    "unat (a + of_int (int n) - 1) = unat a + n - 1"
    "unat (pk_addr p - a) = unat (pk_addr p) - unat a"
    "to_int (pk_addr p - a) = int (unat (pk_addr p) - unat a)"
proof -
  have *: "0 < pk_size p" "unat (pk_addr p) + pk_size p \<le> 2 ^ 64" "0 < n" "unat a + n \<le> 2 ^ 64"
    "a \<le> pk_addr p" "unat (pk_addr p) - unat a < 2 ^ 31"
    using assms by (auto simp: access_within_def word_le_nat_alt)
  show "unat (pk_addr p + of_nat (pk_size p) - 1) = unat (pk_addr p) + pk_size p - 1"
    "unat (a + of_int (int n) - 1) = unat a + n - 1"
    using * unat_range_end [of "pk_size p" "pk_addr p"] unat_range_end [of n a] by simp_all
  show 1: "unat (pk_addr p - a) = unat (pk_addr p) - unat a"
    using * by (simp add: unat_minus_le)
  show "to_int (pk_addr p - a) = int (unat (pk_addr p) - unat a)"
    using *(6) by (simp only: to_int_small 1)
qed

lemma access_within_order:
  assumes "access_within p a n"
  shows "pk_addr p \<le> a + of_int (int n) - 1" "a \<le> pk_addr p + of_nat (pk_size p) - 1"
    "a \<le> pk_addr p" "pk_addr p + of_nat (pk_size p) - 1 \<le> a + of_int (int n) - 1"
  using assms access_within_ends [OF assms] unfolding access_within_def word_le_nat_alt
  by linarith+

definition has_buffer :: "packet \<Rightarrow> u8 list \<Rightarrow> bool" where
  "has_buffer p d = (pk_data p = Some d \<and> length d = pk_size p \<and>
     flag_isSet p (STATIC_DATA OR DYNAMIC_DATA))"

lemma has_bufferD:
  assumes "has_buffer p d"
  shows "getPtr p = Inr d" "pkt_allocate junk p = Inr p" "length d = pk_size p" "pk_data p = Some d"
  using assms by (simp_all add: has_buffer_def getPtr_def pkt_allocate_def rbind_assert)

lemma isRead_not_print: "isRead c \<Longrightarrow> \<not> isPrint c"
  by (cases c) (simp_all add: cmd_attrib_defs)

lemma isWrite_not_print: "isWrite c \<Longrightarrow> \<not> isPrint c"
  by (cases c) (simp_all add: cmd_attrib_defs)

lemma checkFunctional_read:
  assumes "isRead (pk_cmd p)" "has_buffer p d" "access_within p a (length bs)"
  shows "checkFunctional junk p a (pk_isSecure p) (int (length bs)) (Some bs) =
    Inr (True, p\<lparr>pk_data := Some (take (pk_size p) (drop (unat (pk_addr p) - unat a) bs))\<rparr>, Some bs)"
proof -
  let ?off = "unat (pk_addr p) - unat a"
  have "?off + pk_size p \<le> length bs"
    using assms(3) by (auto simp: access_within_def)
  then have "copy_bytes d bs (0, int ?off, int (pk_size p)) = Inr (take (pk_size p) (drop ?off bs))"
    using has_bufferD [OF assms(2)] by (simp add: copy_bytes_def mem_read_def mem_write_def)
  then show ?thesis
    using assms access_within_order [OF assms(3)] access_within_ends(4) [OF assms(3)] has_bufferD [OF assms(2)]
    by (simp add: checkFunctional_def Let_def isRead_not_print not_less)
qed

lemma checkFunctional_write:
  assumes "isWrite (pk_cmd p)" "\<not> isRead (pk_cmd p)" "has_buffer p d" "access_within p a (length bs)"
  shows "\<exists>bs'. checkFunctional junk p a (pk_isSecure p) (int (length bs)) (Some bs) =
      Inr (False, p, Some bs') \<and> mem_write bs (int (unat (pk_addr p) - unat a)) d = Inr bs'"
proof -
  let ?off = "unat (pk_addr p) - unat a"
  let ?fe = "pk_addr p + of_nat (pk_size p) - 1"
  note ends = access_within_ends [OF assms(4)] and ord = access_within_order [OF assms(4)]
  have fit: "?off + pk_size p \<le> length bs" "0 < pk_size p"
    using assms(4) by (auto simp: access_within_def)
  have "unat (min ?fe (a + of_int (int (length bs)) - 1) - pk_addr p + 1) = pk_size p"
  proof -
    have "?fe - pk_addr p + 1 = of_nat (pk_size p)" by simp
    moreover have "pk_size p < 2 ^ LENGTH(64)"
      using assms(4) by (auto simp: access_within_def)
    ultimately show ?thesis using ord(4) by (simp add: min_absorb1 unat_of_nat_lt)
  qed
  then have n: "uint (min ?fe (a + of_int (int (length bs)) - 1) - pk_addr p + 1) = int (pk_size p)"
    by (metis uint_nat)
  obtain bs' where bs': "mem_write bs (int ?off) d = Inr bs'"
    using fit has_bufferD(3) [OF assms(3)] by (auto simp: mem_write_def)
  then have "copy_bytes bs d (int ?off, 0, int (pk_size p)) = Inr bs'"
    using has_bufferD(3) [OF assms(3)] by (simp add: copy_bytes_def mem_read_def)
  then show ?thesis
    using assms(1,2) ord ends(4) has_bufferD [OF assms(3)] n bs'
    by (auto simp: checkFunctional_def Let_def isWrite_not_print dest: leD)
qed

lemma checkFunctional_write_read:
  assumes "isWrite (pk_cmd w)" "\<not> isRead (pk_cmd w)" "has_buffer w dw" "access_within w a (length bs)"
    and "isRead (pk_cmd r)" "has_buffer r dr" "pk_addr r = pk_addr w" "pk_size r = pk_size w"
    and "pk_isSecure r = pk_isSecure w"
  shows "\<exists>bs'. checkFunctional junk w a (pk_isSecure w) (int (length bs)) (Some bs) = Inr (False, w, Some bs') \<and>
    checkFunctional junk r a (pk_isSecure w) (int (length bs)) (Some bs') =
      Inr (True, r\<lparr>pk_data := Some dw\<rparr>, Some bs')"
proof -
  let ?off = "unat (pk_addr w) - unat a"
  obtain bs' where w: "checkFunctional junk w a (pk_isSecure w) (int (length bs)) (Some bs) = Inr (False, w, Some bs')"
    and m: "mem_write bs (int ?off) dw = Inr bs'"
    using checkFunctional_write [OF assms(1-4)] by blast
  have len: "length bs' = length bs" using m by (rule mem_write_length)
  have "mem_read bs' (int ?off) (pk_size w) = Inr dw"
    using mem_write_read_same [OF m] has_bufferD(3) [OF assms(3)] by simp
  then have "take (pk_size w) (drop ?off bs') = dw"
    by (simp add: mem_read_def split: if_splits)
  moreover have "access_within r a (length bs')"
    using assms(4,7,8) len by (simp add: access_within_def)
  ultimately show ?thesis
    using w checkFunctional_read [OF assms(5,6), of a bs' junk] assms(7-9) len by simp
qed

text \<open>
  A partial overlap copies one byte too few: the buffer below covers the first four of the
  eight bytes asked for, and only three are marked valid.
\<close>

definition partial_example :: packet where
  "partial_example =
     (mk_packet \<lparr>rq_paddr = 4, rq_size = 8, rq_secure = False, rq_qosTag = None,
                 rq_uncacheable = False, rq_llsc = False, rq_condSwap = False, rq_instFetch = False, rq_contextId = 0, rq_masterId = 0,
                 rq_taskId = TASK_UNKNOWN, rq_extraData = None\<rparr> ReadReq)
     \<lparr>pk_data := Some [0, 0, 0, 0, 0, 0, 0, 0], pk_flags := 0x1300\<rparr>"

lemma ReadReq_attribs: "isRead ReadReq" "\<not> isPrint ReadReq" "needsResponse ReadReq" "\<not> isWrite ReadReq"
  by (simp_all add: cmd_attrib_defs)

lemma WriteReq_attribs: "isWrite WriteReq" "\<not> isPrint WriteReq" "needsResponse WriteReq" "\<not> isRead WriteReq"
  by (simp_all add: cmd_attrib_defs)

lemma partial_overlap_short:
  "checkFunctional [] partial_example 0 False 8 (Some [1, 2, 3, 4, 5, 6, 7, 8]) =
     Inr (False, partial_example\<lparr>pk_data := Some [5, 6, 7, 0, 0, 0, 0, 0],
            pk_bytesValidEnd := 3\<rparr>, Some [1, 2, 3, 4, 5, 6, 7, 8])"
proof -
  have "to_int 4 = 4" "to_int 3 = 3" by (simp_all add: to_int_def sint_uint)
  then show ?thesis
    by (simp add: checkFunctional_def checkFunctional_partial_def partial_example_def mk_packet_def
        ReadReq_attribs partial_window_def copy_bytes_def mem_read_def mem_write_def getPtr_def
        flag_isSet_def rbind_assert packet_flag_defs take_Cons' drop_Cons')
qed

end
