(* ===== verification/Addr_Mapper.thy ===== *)
theory Addr_Mapper
  imports LDom_Addr Packet
begin

text \<open>
  The address mapper in front of physical memory, \<^verbatim>\<open>hyper/mem/addr_mapper.cc\<close>: every request
  is relocated according to the guest its QoS tag names, and every response gets its original
  address back. The virtual method \<^verbatim>\<open>remapAddr\<close> is an argument of the port handlers; the
  locale \<open>domain_remap\<close> states what isolation needs of it and is interpreted on the
  translation table. The peer ports are arguments as well: \<open>send\<close> gives the peer's answer and the packet
  as the peer leaves it.
\<close>

section \<open>Printing of table entries\<close>

text \<open>
  Stream output of an unsigned integer is its decimal numeral; \<^verbatim>\<open>operator<<\<close> of
  \<^verbatim>\<open>hyper/base/ldom_addr.cc\<close> separates the fields with commas.
\<close>

fun dec_digits :: "nat \<Rightarrow> string" where
  "dec_digits n = (if n < 10 then [char_of (48 + n)] else dec_digits (n div 10) @ [char_of (48 + n mod 10)])"

declare dec_digits.simps [simp del]

definition print_entry :: "ldom_tlb_entry \<Rightarrow> string" where
  "print_entry e =
     dec_digits (unat (le_domid e)) @ '','' @ dec_digits (unat (le_start e)) @ '','' @
     dec_digits (unat (le_size e)) @ '','' @ dec_digits (unat (le_remapped e))"

section \<open>PARDg5VAddrMapper\<close>

record addr_mapper =
  am_pendingDelete :: "packet list"
  am_bytesRead :: "nat list"
  am_bytesWritten :: "nat list"

text \<open>\<^verbatim>\<open>regStats\<close> sizes both statistics for four guests.\<close>

definition am_regStats :: "addr_mapper \<Rightarrow> addr_mapper" where
  "am_regStats m = m\<lparr>am_bytesRead := replicate 4 0, am_bytesWritten := replicate 4 0\<rparr>"

text \<open>\<^verbatim>\<open>operator[]\<close> of a statistics vector asserts that its index is in range.\<close>

definition stat_add :: "nat list \<Rightarrow> nat \<Rightarrow> nat \<Rightarrow> nat list result" where
  "stat_add v i n = rbind (sim_assert (i < length v)) (\<lambda>_. Inr (v[i := v ! i + n]))"

definition am_account :: "packet \<Rightarrow> addr_mapper \<Rightarrow> addr_mapper result" where
  "am_account p m =
     rbind (if isRead (pk_cmd p) then
              rbind (PARDG5V_PKT_TO_GUESTID p) (\<lambda>g. rbind (getSize p) (\<lambda>n.
              rbind (stat_add (am_bytesRead m) (unat g) n) (\<lambda>v. Inr (m\<lparr>am_bytesRead := v\<rparr>))))
            else Inr m) (\<lambda>m1.
       if isWrite (pk_cmd p) then
         rbind (PARDG5V_PKT_TO_GUESTID p) (\<lambda>g. rbind (getSize p) (\<lambda>n.
         rbind (stat_add (am_bytesWritten m1) (unat g) n) (\<lambda>v. Inr (m1\<lparr>am_bytesWritten := v\<rparr>))))
       else Inr m1)"

text \<open>The relocation all request handlers share.\<close>

definition am_remap :: "(addr \<Rightarrow> guest_id \<Rightarrow> addr) \<Rightarrow> packet \<Rightarrow> packet result" where
  "am_remap remapAddr p =
     rbind (getAddr p) (\<lambda>orig_addr. rbind (PARDG5V_PKT_TO_GUESTID p) (\<lambda>g.
       setAddr (remapAddr orig_addr g) p))"

definition am_recvFunctional ::
  "(addr \<Rightarrow> guest_id \<Rightarrow> addr) \<Rightarrow> (packet \<Rightarrow> packet) \<Rightarrow> packet \<Rightarrow> packet result" where
  "am_recvFunctional remapAddr sendFunctional p =
     rbind (getAddr p) (\<lambda>orig_addr. rbind (am_remap remapAddr p) (\<lambda>p1.
       setAddr orig_addr (sendFunctional p1)))"

definition am_recvFunctionalSnoop ::
  "(addr \<Rightarrow> guest_id \<Rightarrow> addr) \<Rightarrow> (packet \<Rightarrow> packet) \<Rightarrow> packet \<Rightarrow> packet result" where
  "am_recvFunctionalSnoop remapAddr sendFunctionalSnoop p =
     rbind (getAddr p) (\<lambda>orig_addr. rbind (am_remap remapAddr p) (\<lambda>p1.
       setAddr orig_addr (sendFunctionalSnoop p1)))"

definition am_recvAtomic ::
  "(addr \<Rightarrow> guest_id \<Rightarrow> addr) \<Rightarrow> (packet \<Rightarrow> tick \<times> packet) \<Rightarrow> packet \<Rightarrow> addr_mapper
   \<Rightarrow> (tick \<times> packet \<times> addr_mapper) result" where
  "am_recvAtomic remapAddr sendAtomic p m =
     rbind (getAddr p) (\<lambda>orig_addr.
     rbind (am_account p m) (\<lambda>m1.
     rbind (am_remap remapAddr p) (\<lambda>p1.
       case sendAtomic p1 of (ret_tick, p2) \<Rightarrow>
         rbind (setAddr orig_addr p2) (\<lambda>p3. Inr (ret_tick, p3, m1)))))"

definition am_recvAtomicSnoop ::
  "(addr \<Rightarrow> guest_id \<Rightarrow> addr) \<Rightarrow> (packet \<Rightarrow> tick \<times> packet) \<Rightarrow> packet \<Rightarrow> (tick \<times> packet) result" where
  "am_recvAtomicSnoop remapAddr sendAtomicSnoop p =
     rbind (getAddr p) (\<lambda>orig_addr. rbind (am_remap remapAddr p) (\<lambda>p1.
       case sendAtomicSnoop p1 of (ret_tick, p2) \<Rightarrow>
         rbind (setAddr orig_addr p2) (\<lambda>p3. Inr (ret_tick, p3))))"

definition am_recvTimingReq ::
  "(addr \<Rightarrow> guest_id \<Rightarrow> addr) \<Rightarrow> (packet \<Rightarrow> bool \<times> packet) \<Rightarrow> packet \<Rightarrow> addr_mapper
   \<Rightarrow> (bool \<times> packet \<times> addr_mapper) result" where
  "am_recvTimingReq remapAddr sendTimingReq p m =
     (let m0 = m\<lparr>am_pendingDelete := []\<rparr> in
      if memInhibitAsserted p then Inr (True, p, m0\<lparr>am_pendingDelete := [p]\<rparr>)
      else
        rbind (sim_assert (\<not> isExpressSnoop p)) (\<lambda>_.
        rbind (getAddr p) (\<lambda>orig_addr.
        let needs_response = needsResponse (pk_cmd p);
            mem_inhibit_asserted = memInhibitAsserted p
        in
        rbind (am_account p m0) (\<lambda>m1.
        let p1 = (if needs_response \<and> \<not> mem_inhibit_asserted
                  then pushSenderState (AddrMapperSenderState orig_addr) p else p)
        in
        rbind (am_remap remapAddr p1) (\<lambda>p2.
        case sendTimingReq (p2\<lparr>pk_busFirstWordDelay := 0, pk_busLastWordDelay := 0\<rparr>) of
          (successful, p3) \<Rightarrow>
            if \<not> successful \<and> needs_response
            then rbind (popSenderState p3) (\<lambda>(_, p4). Inr (successful, p4, m1))
            else Inr (successful, p3, m1))))))"

definition am_recvTimingResp ::
  "(packet \<Rightarrow> bool \<times> packet) \<Rightarrow> packet \<Rightarrow> (bool \<times> packet) result" where
  "am_recvTimingResp sendTimingResp p =
     (case pk_senderState p of
        AddrMapperSenderState origAddr # predecessor \<Rightarrow>
          rbind (getAddr p) (\<lambda>remapped_addr.
          rbind (setAddr origAddr (p\<lparr>pk_senderState := predecessor\<rparr>)) (\<lambda>p1.
          case sendTimingResp (p1\<lparr>pk_busFirstWordDelay := 0, pk_busLastWordDelay := 0\<rparr>) of
            (successful, p2) \<Rightarrow>
              if successful then Inr (successful, p2)
              else rbind (setAddr remapped_addr
                            (p2\<lparr>pk_senderState := AddrMapperSenderState origAddr # predecessor\<rparr>))
                     (\<lambda>p3. Inr (successful, p3))))
      | _ \<Rightarrow> Inl Panic)"

definition am_isSnooping :: "bool \<Rightarrow> bool result" where
  "am_isSnooping slave_isSnooping = (if slave_isSnooping then Inl Fatal else Inr False)"

section \<open>PARDg5VRangeAddrMapper\<close>

text \<open>
  The constructor's loop over the two parameter lists. \<^verbatim>\<open>AddrRange::size\<close> of a range
  without interleaving is \<^verbatim>\<open>end - start + 1\<close>; with interleaving the length is shifted
  right by the number of interleaving bits.
\<close>

definition ar_size :: "addr_range \<Rightarrow> addr" where
  "ar_size r = drop_bit (unat (ar_intlvBits r)) (ar_end r - ar_start r + 1)"

fun ram_fill :: "(guest_addr_range \<times> addr_range) list \<Rightarrow> ldom_tlb \<Rightarrow> ldom_tlb result" where
  "ram_fill [] tlb = Inr tlb"
| "ram_fill ((orig, remapped) # rs) tlb =
     (if gar_size orig \<noteq> ar_size remapped then Inl Fatal
      else rbind (LDomAddrTLBEntry_ranges orig remapped) (\<lambda>e. ram_fill rs (tlb_push_back tlb e)))"

definition PARDg5VRangeAddrMapper ::
  "guest_addr_range list \<Rightarrow> addr_range list \<Rightarrow> ldom_tlb result" where
  "PARDg5VRangeAddrMapper original_ranges remapped_ranges =
     (if length original_ranges \<noteq> length remapped_ranges then Inl Fatal
      else ram_fill (zip original_ranges remapped_ranges) [])"

definition ram_set :: "ldom_tlb \<Rightarrow> ldom_id \<Rightarrow> u32 \<Rightarrow> u64 \<Rightarrow> ldom_tlb result" where
  "ram_set tlb ldomID destAddr data = Inr tlb"

definition ram_get :: "ldom_tlb \<Rightarrow> ldom_id \<Rightarrow> u32 \<Rightarrow> (ldom_tlb \<times> u64) result" where
  "ram_get tlb ldomID destAddr = Inr (tlb, 0xFFFF0000FFFF0000)"

definition ram_query :: "ldom_tlb \<Rightarrow> u64 \<Rightarrow> int \<Rightarrow> string" where
  "ram_query tlb tag idx =
     (if idx \<noteq> 0 then ''INV''
      else concat (map (\<lambda>e. print_entry e @ [char_of (10 :: nat)]) (tlb_query tlb (QOSTAG_TO_GUESTID tag) [])))"

definition ram_remapAddr :: "ldom_tlb \<Rightarrow> addr \<Rightarrow> guest_id \<Rightarrow> addr" where
  "ram_remapAddr tlb a guestID = tlb_remapAddr tlb guestID a"

section \<open>What the handlers guarantee\<close>

lemma flag_isSet_update [simp]:
  "flag_isSet (p\<lparr>pk_addr := a\<rparr>) f = flag_isSet p f"
  "flag_isSet (p\<lparr>pk_senderState := ss\<rparr>) f = flag_isSet p f"
  "flag_isSet (p\<lparr>pk_busFirstWordDelay := x\<rparr>) f = flag_isSet p f"
  "flag_isSet (p\<lparr>pk_busLastWordDelay := x\<rparr>) f = flag_isSet p f"
  by (simp_all add: flag_isSet_def)

lemma PKT_GUESTID_update [simp]:
  "PARDG5V_PKT_TO_GUESTID (p\<lparr>pk_addr := a\<rparr>) = PARDG5V_PKT_TO_GUESTID p"
  "PARDG5V_PKT_TO_GUESTID (p\<lparr>pk_senderState := ss\<rparr>) = PARDG5V_PKT_TO_GUESTID p"
  "PARDG5V_PKT_TO_GUESTID (p\<lparr>pk_busFirstWordDelay := x\<rparr>) = PARDG5V_PKT_TO_GUESTID p"
  "PARDG5V_PKT_TO_GUESTID (p\<lparr>pk_busLastWordDelay := x\<rparr>) = PARDG5V_PKT_TO_GUESTID p"
  by (simp_all add: PARDG5V_PKT_TO_GUESTID_def getQosTag_def)

lemma am_remap_Inr_iff:
  "am_remap remap p = Inr q \<longleftrightarrow>
     flag_isSet p VALID_ADDR \<and>
     (\<exists>g. PARDG5V_PKT_TO_GUESTID p = Inr g \<and> q = p\<lparr>pk_addr := remap (pk_addr p) g\<rparr>)"
  by (auto simp: am_remap_def getAddr_def setAddr_def rbind_assert rbind_eq_Inr_iff)

lemma am_account_pending: "am_account p m = Inr m1 \<Longrightarrow> am_pendingDelete m1 = am_pendingDelete m"
  by (auto simp: am_account_def rbind_eq_Inr_iff split: if_splits)

text \<open>
  The request handed to the peer, when the handler gets that far: the packet with the original
  address stacked, if a response is due, and the relocated address.
\<close>

definition am_forwarded :: "(addr \<Rightarrow> guest_id \<Rightarrow> addr) \<Rightarrow> guest_id \<Rightarrow> packet \<Rightarrow> packet" where
  "am_forwarded remapAddr g p =
     (if needsResponse (pk_cmd p) then pushSenderState (AddrMapperSenderState (pk_addr p)) p else p)
       \<lparr>pk_addr := remapAddr (pk_addr p) g, pk_busFirstWordDelay := 0, pk_busLastWordDelay := 0\<rparr>"

lemma am_recvTimingReq_forwards:
  assumes "am_recvTimingReq remap send p m = Inr (ok, q, m1)" "\<not> memInhibitAsserted p"
  obtains g q' where "PARDG5V_PKT_TO_GUESTID p = Inr g" "send (am_forwarded remap g p) = (ok, q')"
    "ok \<or> \<not> needsResponse (pk_cmd p) \<Longrightarrow> q = q'"
    "\<not> ok \<and> needsResponse (pk_cmd p) \<Longrightarrow> \<exists>s. popSenderState q' = Inr (s, q)"
    "flag_isSet p VALID_ADDR" "am_account p (m\<lparr>am_pendingDelete := []\<rparr>) = Inr m1"
proof -
  let ?p1 = "if needsResponse (pk_cmd p) then pushSenderState (AddrMapperSenderState (pk_addr p)) p else p"
  from assms obtain p2 m2 where p2: "am_remap remap ?p1 = Inr p2" "flag_isSet p VALID_ADDR"
    "am_account p (m\<lparr>am_pendingDelete := []\<rparr>) = Inr m2"
    "(case send (p2\<lparr>pk_busFirstWordDelay := 0, pk_busLastWordDelay := 0\<rparr>) of (ok', p3) \<Rightarrow>
        if \<not> ok' \<and> needsResponse (pk_cmd p) then rbind (popSenderState p3) (\<lambda>(_, p4). Inr (ok', p4, m2))
        else Inr (ok', p3, m2)) = Inr (ok, q, m1)"
    by (auto simp: am_recvTimingReq_def Let_def getAddr_def rbind_assert rbind_eq_Inr_iff
        simp del: split_paired_Ex split: if_split_asm)
  then obtain g where g: "PARDG5V_PKT_TO_GUESTID p = Inr g"
    "p2\<lparr>pk_busFirstWordDelay := 0, pk_busLastWordDelay := 0\<rparr> = am_forwarded remap g p"
    by (auto simp: am_remap_Inr_iff am_forwarded_def pushSenderState_def split: if_splits)
  obtain ok' q' where s: "send (am_forwarded remap g p) = (ok', q')" by fastforce
  show thesis
    by (rule that [OF g(1), of q']) (use p2 g s in \<open>auto simp: rbind_eq_Inr_iff split: if_splits\<close>)
qed

lemma am_timing_roundtrip:
  assumes req: "am_recvTimingReq remap (\<lambda>q. (True, q)) p m = Inr (True, p1, m1)"
    and "\<not> memInhibitAsserted p" "needsResponse (pk_cmd p)"
    and resp: "makeResponse p1 = Inr p2"
  shows "\<exists>p3. am_recvTimingResp (\<lambda>q. (True, q)) p2 = Inr (True, p3) \<and>
     pk_addr p3 = pk_addr p \<and> pk_senderState p3 = pk_senderState p \<and>
     pk_cmd p3 = responseCommand (pk_cmd p)"
proof -
  obtain g where g: "p1 = am_forwarded remap g p" "flag_isSet p VALID_ADDR"
    using req assms(2) by (rule am_recvTimingReq_forwards) (use assms(3) in auto)
  have "flag_isSet (flag_clear EXPRESS_SNOOP p) VALID_ADDR"
    using g(2) by (auto simp: flag_isSet_def flag_clear_def packet_flag_defs and.assoc)
  then show ?thesis using resp assms(3) g
    by (auto simp: makeResponse_def rbind_assert am_recvTimingResp_def am_forwarded_def
        pushSenderState_def flag_clear_def getAddr_def setAddr_def flag_isSet_def split: if_splits)
qed

text \<open>A refused response leaves the packet as it was, for the retry.\<close>

lemma am_refused_response:
  assumes "am_recvTimingResp (\<lambda>q. (False, q)) p = Inr (ok, p1)"
  shows "\<not> ok \<and> p1 = p\<lparr>pk_busFirstWordDelay := 0, pk_busLastWordDelay := 0\<rparr>"
  using assms by (auto simp: am_recvTimingResp_def getAddr_def setAddr_def rbind_assert
      rbind_eq_Inr_iff split: list.splits sender_state.splits if_splits)

text \<open>A refused request does not: the sender keeps a packet with the relocated address.\<close>

lemma am_refused_request:
  assumes "am_recvTimingReq remap (\<lambda>q. (False, q)) p m = Inr (ok, p1, m1)"
    and "\<not> memInhibitAsserted p" "PARDG5V_PKT_TO_GUESTID p = Inr g"
  shows "\<not> ok \<and> pk_addr p1 = remap (pk_addr p) g \<and> pk_senderState p1 = pk_senderState p"
  using assms(1,2)
proof (rule am_recvTimingReq_forwards)
  fix g' q'
  assume a: "PARDG5V_PKT_TO_GUESTID p = Inr g'" "(False, am_forwarded remap g' p) = (ok, q')"
    "ok \<or> \<not> needsResponse (pk_cmd p) \<Longrightarrow> p1 = q'"
    "\<not> ok \<and> needsResponse (pk_cmd p) \<Longrightarrow> \<exists>s. popSenderState q' = Inr (s, p1)"
  then have "q' = am_forwarded remap g p" "\<not> ok" using assms(3) by auto
  with a(3,4) show ?thesis
    by (cases "needsResponse (pk_cmd p)")
      (auto simp: am_forwarded_def pushSenderState_def popSenderState_def)
qed

lemma am_recvAtomic_restores:
  assumes "am_recvAtomic remap sendAtomic p m = Inr (t, q, m1)"
  obtains g q' where "PARDG5V_PKT_TO_GUESTID p = Inr g"
    "sendAtomic (p\<lparr>pk_addr := remap (pk_addr p) g\<rparr>) = (t, q')" "q = q'\<lparr>pk_addr := pk_addr p\<rparr>"
proof -
  from assms obtain g where g: "PARDG5V_PKT_TO_GUESTID p = Inr g"
    "\<exists>m2. (case sendAtomic (p\<lparr>pk_addr := remap (pk_addr p) g\<rparr>) of (t', p2) \<Rightarrow>
       rbind (setAddr (pk_addr p) p2) (\<lambda>p3. Inr (t', p3, m2))) = Inr (t, q, m1)"
    by (auto simp: am_recvAtomic_def getAddr_def rbind_assert rbind_eq_Inr_iff am_remap_Inr_iff
        split: if_split_asm)
  obtain t' q' where "sendAtomic (p\<lparr>pk_addr := remap (pk_addr p) g\<rparr>) = (t', q')" by fastforce
  with g show thesis using that [OF g(1), of q']
    by (auto simp: setAddr_def rbind_assert split: if_splits)
qed

lemma am_account_bounded:
  assumes "length (am_bytesRead m) = 4" "length (am_bytesWritten m) = 4"
    "PARDG5V_PKT_TO_GUESTID p = Inr g" "isRead (pk_cmd p) \<or> isWrite (pk_cmd p)" "4 \<le> unat g"
    "flag_isSet p VALID_SIZE"
  shows "am_account p m = Inl AssertFail"
  using assms by (auto simp: am_account_def stat_add_def rbind_assert getSize_def)

section \<open>Isolation\<close>

locale domain_remap =
  fixes inv :: "'s \<Rightarrow> bool"
    and remap :: "'s \<Rightarrow> addr \<Rightarrow> guest_id \<Rightarrow> addr"
    and covers :: "'s \<Rightarrow> guest_id \<Rightarrow> addr \<Rightarrow> bool"
  assumes remap_inj: "\<lbrakk>inv s; covers s g a; covers s g' a'; remap s a g = remap s a' g'\<rbrakk> \<Longrightarrow> g = g' \<and> a = a'"
begin

lemma requests_isolated:
  assumes "inv s" "\<not> memInhibitAsserted p" "\<not> memInhibitAsserted q"
    and p: "am_recvTimingReq (remap s) (\<lambda>x. (True, x)) p m = Inr (True, p1, m1)"
    and q: "am_recvTimingReq (remap s) (\<lambda>x. (True, x)) q n = Inr (True, q1, n1)"
    and tags: "PARDG5V_PKT_TO_GUESTID p = Inr g" "PARDG5V_PKT_TO_GUESTID q = Inr h"
    and cov: "covers s g (pk_addr p)" "covers s h (pk_addr q)"
    and same: "pk_addr p1 = pk_addr q1"
  shows "g = h \<and> pk_addr p = pk_addr q"
proof -
  have "p1 = am_forwarded (remap s) g p"
    using p assms(2) by (rule am_recvTimingReq_forwards) (use tags in auto)
  moreover have "q1 = am_forwarded (remap s) h q"
    using q assms(3) by (rule am_recvTimingReq_forwards) (use tags in auto)
  ultimately have "remap s (pk_addr p) g = remap s (pk_addr q) h"
    using same by (simp add: am_forwarded_def)
  from remap_inj [OF assms(1) cov this] show ?thesis .
qed

end

interpretation ram: domain_remap tlb_wf ram_remapAddr tlb_covers
  by unfold_locales (auto simp: ram_remapAddr_def dest: tlb_isolation)

section \<open>The configured table\<close>

lemma ram_fill_entries:
  assumes "ram_fill rs tlb = Inr tlb'"
  shows "tlb' = tlb @ map (\<lambda>(orig, remapped). LDomAddrTLBEntry (gar_guestID orig) (gar_start orig)
    (gar_size orig) (ar_start remapped)) rs"
  using assms
  by (induction rs tlb rule: ram_fill.induct)
    (auto simp: LDomAddrTLBEntry_ranges_def rbind_assert tlb_push_back_def split: if_splits)

lemma ram_config_translates:
  assumes "PARDg5VRangeAddrMapper origs rems = Inr tlb" "tlb_wf tlb" "i < length origs"
    and "le_contains (LDomAddrTLBEntry (gar_guestID (origs ! i)) (gar_start (origs ! i))
           (gar_size (origs ! i)) (ar_start (rems ! i))) g a"
  shows "ram_remapAddr tlb a g = a - gar_start (origs ! i) + ar_start (rems ! i)"
proof -
  let ?e = "LDomAddrTLBEntry (gar_guestID (origs ! i)) (gar_start (origs ! i))
    (gar_size (origs ! i)) (ar_start (rems ! i))"
  have "length origs = length rems"
    using assms(1) by (auto simp: PARDg5VRangeAddrMapper_def split: if_splits)
  then have "tlb ! i = ?e \<and> i < length tlb" using assms(1,3)
    by (auto simp: PARDg5VRangeAddrMapper_def dest!: ram_fill_entries)
  then have "?e \<in> set tlb" by (metis nth_mem)
  from tlb_remapAddr_mem [OF assms(2) this assms(4)] show ?thesis
    by (simp add: ram_remapAddr_def le_translate_def LDomAddrTLBEntry_def)
qed

end
