(* ===== verification/Abstract_Mem.thy ===== *)
theory Abstract_Mem
  imports Addr_Mapper
begin

text \<open>
  The memory behind every controller (\<^verbatim>\<open>mem/abstract_mem.cc\<close>, \<^verbatim>\<open>mem/abstract_mem.hh\<close>): reads,
  writes, swaps and invalidations on host memory, the list of load-locked reservations, and functional
  accesses. The lemmas say which bytes an access changes and what a read returns.
\<close>

unbundle bit_operations_syntax

section \<open>Reservations\<close>

record locked_addr =
  la_addr :: addr
  la_contextId :: int

definition Addr_Mask :: addr where "Addr_Mask = 0xF"

definition locked_mask :: "addr \<Rightarrow> addr" where
  "locked_mask paddr = paddr AND NOT Addr_Mask"

definition me_matchesContext :: "request \<Rightarrow> locked_addr \<Rightarrow> bool" where
  "me_matchesContext req l = (la_contextId l = rq_contextId req)"

definition LockedAddr :: "request \<Rightarrow> locked_addr" where
  "LockedAddr req = \<lparr>la_addr = locked_mask (rq_paddr req), la_contextId = rq_contextId req\<rparr>"

section \<open>The memory\<close>

text \<open>
  \<open>me_pmem\<close> is the host memory behind \<^verbatim>\<open>pmemAddr\<close>, \<open>None\<close> for a null pointer. \<open>me_woken\<close> lists the
  contexts whose processor has been woken because a reservation was cleared.
\<close>

record abstract_mem =
  me_range :: addr_range
  me_pmem :: "u8 list option"
  me_lockedAddrList :: "locked_addr list"
  me_woken :: "int list"
  me_bytesRead :: "nat list"
  me_bytesInstRead :: "nat list"
  me_bytesWritten :: "nat list"
  me_numReads :: "nat list"
  me_numWrites :: "nat list"
  me_numOther :: "nat list"

definition PageBytes :: addr where "PageBytes = 4096"

definition AbstractMemory :: "addr_range \<Rightarrow> abstract_mem result" where
  "AbstractMemory rng =
     (if ar_size rng mod PageBytes \<noteq> 0 then Inl Panic
      else Inr \<lparr>me_range = rng, me_pmem = None, me_lockedAddrList = [], me_woken = [], me_bytesRead = [],
                me_bytesInstRead = [], me_bytesWritten = [], me_numReads = [], me_numWrites = [], me_numOther = []\<rparr>)"

definition setBackingStore :: "u8 list option \<Rightarrow> abstract_mem \<Rightarrow> abstract_mem" where
  "setBackingStore pmem_addr m = m\<lparr>me_pmem := pmem_addr\<rparr>"

definition me_regStats :: "nat \<Rightarrow> abstract_mem \<Rightarrow> abstract_mem" where
  "me_regStats maxMasters m =
     (let z = replicate maxMasters 0 in
      m\<lparr>me_bytesRead := z, me_bytesInstRead := z, me_bytesWritten := z, me_numReads := z, me_numWrites := z,
        me_numOther := z\<rparr>)"

definition addLockedAddr :: "locked_addr \<Rightarrow> abstract_mem \<Rightarrow> abstract_mem" where
  "addLockedAddr l m = m\<lparr>me_lockedAddrList := me_lockedAddrList m @ [l]\<rparr>"

text \<open>The search of \<^verbatim>\<open>trackLoadLocked\<close>: the first record of the context takes the new address.\<close>

fun relock :: "request \<Rightarrow> addr \<Rightarrow> locked_addr list \<Rightarrow> locked_addr list option" where
  "relock req paddr [] = None"
| "relock req paddr (l # ls) =
     (if me_matchesContext req l then Some (l\<lparr>la_addr := paddr\<rparr> # ls)
      else map_option ((#) l) (relock req paddr ls))"

definition me_trackLoadLocked :: "packet \<Rightarrow> abstract_mem \<Rightarrow> abstract_mem" where
  "me_trackLoadLocked p m =
     (let req = pk_req p; paddr = locked_mask (rq_paddr req) in
      m\<lparr>me_lockedAddrList :=
         (case relock req paddr (me_lockedAddrList m) of
            Some ls \<Rightarrow> ls
          | None \<Rightarrow> LockedAddr req # me_lockedAddrList m)\<rparr>)"

definition setExtraData :: "u64 \<Rightarrow> packet \<Rightarrow> packet" where
  "setExtraData v p = p\<lparr>pk_req := (pk_req p)\<lparr>rq_extraData := Some v\<rparr>\<rparr>"

definition checkLockedAddrList :: "packet \<Rightarrow> abstract_mem \<Rightarrow> bool \<times> packet \<times> abstract_mem" where
  "checkLockedAddrList p m =
     (let req = pk_req p; paddr = locked_mask (rq_paddr req); llsc = isLLSC (pk_cmd p);
          allowStore = (\<not> llsc \<or> list_ex (\<lambda>l. la_addr l = paddr \<and> me_matchesContext req l) (me_lockedAddrList m));
          p1 = (if llsc then setExtraData (if allowStore then 1 else 0) p else p)
      in
      (allowStore, p1,
       if allowStore then
         m\<lparr>me_lockedAddrList := filter (\<lambda>l. la_addr l \<noteq> paddr) (me_lockedAddrList m),
           me_woken := me_woken m @ map la_contextId (filter (\<lambda>l. la_addr l = paddr) (me_lockedAddrList m))\<rparr>
       else m))"

definition writeOK :: "packet \<Rightarrow> abstract_mem \<Rightarrow> bool \<times> packet \<times> abstract_mem" where
  "writeOK p m =
     (if me_lockedAddrList m = [] then
        (\<not> isLLSC (pk_cmd p), if isLLSC (pk_cmd p) then setExtraData 0 p else p, m)
      else checkLockedAddrList p m)"

section \<open>Accesses\<close>

definition AddrRange :: "addr \<Rightarrow> addr \<Rightarrow> addr_range" where
  "AddrRange s e = \<lparr>ar_start = s, ar_end = e, ar_intlvHighBit = 0, ar_intlvBits = 0, ar_intlvMatch = 0\<rparr>"

definition ar_isSubset :: "addr_range \<Rightarrow> addr_range \<Rightarrow> bool result" where
  "ar_isSubset x r =
     (if ar_intlvBits x \<noteq> 0 then Inl Panic else Inr (ar_start x \<ge> ar_start r \<and> ar_end x \<le> ar_end r))"

definition hostAddr :: "abstract_mem \<Rightarrow> addr \<Rightarrow> int" where
  "hostAddr m a = uint (a - ar_start (me_range m))"

definition getExtraData :: "packet \<Rightarrow> u64 result" where
  "getExtraData p = (case rq_extraData (pk_req p) of None \<Rightarrow> Inl AssertFail | Some v \<Rightarrow> Inr v)"

text \<open>\<^verbatim>\<open>memcpy(pkt->getPtr(), hostAddr, size)\<close> and back.\<close>

definition copy_to_packet :: "u8 list \<Rightarrow> int \<Rightarrow> nat \<Rightarrow> packet \<Rightarrow> packet result" where
  "copy_to_packet bs off n p =
     rbind (getPtr p) (\<lambda>d. rbind (mem_read bs off n) (\<lambda>src. rbind (mem_write d 0 src) (\<lambda>d'.
       Inr (p\<lparr>pk_data := Some d'\<rparr>))))"

definition copy_from_packet :: "packet \<Rightarrow> nat \<Rightarrow> u8 list \<Rightarrow> int \<Rightarrow> u8 list result" where
  "copy_from_packet p n bs off =
     rbind (getPtr p) (\<lambda>d. rbind (mem_read d 0 n) (\<lambda>src. mem_write bs off src))"

definition swap_condition :: "packet \<Rightarrow> nat \<Rightarrow> u8 list \<Rightarrow> bool result" where
  "swap_condition p n old =
     (if rq_condSwap (pk_req p) then
        if n = 8 then rbind (getExtraData p) (\<lambda>v. Inr (le_bytes 8 v = old))
        else if n = 4 then rbind (getExtraData p) (\<lambda>v. Inr (le_bytes 4 (ucast v :: u32) = old))
        else Inl Panic
      else Inr True)"

definition access_swap :: "int \<Rightarrow> nat \<Rightarrow> packet \<Rightarrow> abstract_mem \<Rightarrow> (packet \<times> abstract_mem) result" where
  "access_swap off n p m =
     (case me_pmem m of
        None \<Rightarrow> Inl Panic
      | Some bs \<Rightarrow>
          rbind (sim_assert (8 \<ge> n)) (\<lambda>_.
          rbind (mem_read bs off n) (\<lambda>old.
          rbind (copy_to_packet bs off n p) (\<lambda>p1.
          rbind (swap_condition p n old) (\<lambda>overwrite_mem.
          rbind (if overwrite_mem then copy_from_packet p n bs off else Inr bs) (\<lambda>bs'.
          rbind (sim_assert (\<not> rq_instFetch (pk_req p))) (\<lambda>_.
          rbind (stat_add (me_numOther m) (rq_masterId (pk_req p)) 1) (\<lambda>v.
            Inr (p1, m\<lparr>me_pmem := Some bs', me_numOther := v\<rparr>)))))))))"

definition access_read :: "int \<Rightarrow> nat \<Rightarrow> packet \<Rightarrow> abstract_mem \<Rightarrow> (packet \<times> abstract_mem) result" where
  "access_read off n p m =
     rbind (sim_assert (\<not> isWrite (pk_cmd p))) (\<lambda>_.
       let m1 = (if isLLSC (pk_cmd p) then me_trackLoadLocked p m else m); i = rq_masterId (pk_req p) in
     rbind (case me_pmem m1 of None \<Rightarrow> Inr p | Some bs \<Rightarrow> copy_to_packet bs off n p) (\<lambda>p1.
     rbind (stat_add (me_numReads m1) i 1) (\<lambda>r.
     rbind (stat_add (me_bytesRead m1) i n) (\<lambda>b.
     rbind (if rq_instFetch (pk_req p) then stat_add (me_bytesInstRead m1) i n else Inr (me_bytesInstRead m1)) (\<lambda>f.
       Inr (p1, m1\<lparr>me_numReads := r, me_bytesRead := b, me_bytesInstRead := f\<rparr>))))))"

definition access_write :: "int \<Rightarrow> nat \<Rightarrow> packet \<Rightarrow> abstract_mem \<Rightarrow> (packet \<times> abstract_mem) result" where
  "access_write off n p m =
     (case writeOK p m of (ok, p1, m1) \<Rightarrow>
        if ok then
          rbind (case me_pmem m1 of None \<Rightarrow> Inr None
                 | Some bs \<Rightarrow> rbind (copy_from_packet p1 n bs off) (\<lambda>bs'. Inr (Some bs'))) (\<lambda>pm.
          rbind (sim_assert (\<not> rq_instFetch (pk_req p))) (\<lambda>_.
          rbind (stat_add (me_numWrites m1) (rq_masterId (pk_req p)) 1) (\<lambda>w.
          rbind (stat_add (me_bytesWritten m1) (rq_masterId (pk_req p)) n) (\<lambda>b.
            Inr (p1, m1\<lparr>me_pmem := pm, me_numWrites := w, me_bytesWritten := b\<rparr>)))))
        else Inr (p1, m1))"

definition me_access :: "packet \<Rightarrow> abstract_mem \<Rightarrow> (packet \<times> abstract_mem) result" where
  "me_access p m =
     rbind (getAddr p) (\<lambda>a. rbind (getSize p) (\<lambda>n.
     rbind (ar_isSubset (AddrRange a (a + of_nat n - 1)) (me_range m)) (\<lambda>inside.
     rbind (sim_assert inside) (\<lambda>_.
     if memInhibitAsserted p then Inr (p, m)
     else
       let off = hostAddr m a in
       rbind (if pk_cmd p = SwapReq then access_swap off n p m
              else if isRead (pk_cmd p) then access_read off n p m
              else if isWrite (pk_cmd p) then access_write off n p m
              else if isInvalidate (pk_cmd p) then Inr (p, m)
              else Inl Panic) (\<lambda>(p1, m1).
         if needsResponse (pk_cmd p1) then rbind (makeResponse p1) (\<lambda>p2. Inr (p2, m1)) else Inr (p1, m1))))))"

text \<open>The functional access; a print request writes the byte at the address to a stream and needs its sender state.\<close>

definition functionalAccess :: "packet \<Rightarrow> abstract_mem \<Rightarrow> (packet \<times> abstract_mem) result" where
  "functionalAccess p m =
     rbind (getAddr p) (\<lambda>a. rbind (getSize p) (\<lambda>n.
     rbind (ar_isSubset (AddrRange a (a + of_nat n - 1)) (me_range m)) (\<lambda>inside.
     rbind (sim_assert inside) (\<lambda>_.
       let off = hostAddr m a in
       if isRead (pk_cmd p) then
         rbind (case me_pmem m of None \<Rightarrow> Inr p | Some bs \<Rightarrow> copy_to_packet bs off n p) (\<lambda>p1.
         rbind (makeResponse p1) (\<lambda>p2. Inr (p2, m)))
       else if isWrite (pk_cmd p) then
         rbind (case me_pmem m of None \<Rightarrow> Inr None
                | Some bs \<Rightarrow> rbind (copy_from_packet p n bs off) (\<lambda>bs'. Inr (Some bs'))) (\<lambda>pm.
         rbind (makeResponse p) (\<lambda>p1. Inr (p1, m\<lparr>me_pmem := pm\<rparr>)))
       else if isPrint (pk_cmd p) then
         (case pk_senderState p of
            PrintReqState _ # _ \<Rightarrow>
              rbind (case me_pmem m of None \<Rightarrow> Inl BadAccess | Some bs \<Rightarrow> mem_read bs off 1) (\<lambda>_. Inr (p, m))
          | _ \<Rightarrow> Inl AssertFail)
       else Inl Panic))))"

section \<open>What an access changes\<close>

text \<open>Two memories with the same host buffer outside a window of \<open>n\<close> bytes at an offset.\<close>

definition pmem_outside :: "int \<Rightarrow> nat \<Rightarrow> u8 list \<Rightarrow> u8 list \<Rightarrow> bool" where
  "pmem_outside off n bs bs' =
     (length bs' = length bs \<and> (\<forall>i < length bs. \<not> (nat off \<le> i \<and> i < nat off + n) \<longrightarrow> bs' ! i = bs ! i))"

lemma pmem_outside_refl [simp]: "pmem_outside off n bs bs"
  by (simp add: pmem_outside_def)

lemma copy_from_packet_ok:
  assumes "copy_from_packet p n bs off = Inr bs'"
  shows "pmem_outside off n bs bs' \<and> (\<exists>d. getPtr p = Inr d \<and> n \<le> length d \<and> mem_read bs' off n = Inr (take n d))"
proof -
  obtain d where d: "getPtr p = Inr d" "n \<le> length d" "mem_write bs off (take n d) = Inr bs'"
    using assms by (auto simp: copy_from_packet_def rbind_eq_Inr_iff mem_read_def split: if_splits)
  from mem_write_read_same [OF d(3)] d(2) have "mem_read bs' off n = Inr (take n d)" by (simp add: min_absorb2)
  moreover have "pmem_outside off n bs bs'"
    using mem_write_nth [OF d(3)] mem_write_length [OF d(3)] d(2) by (simp add: pmem_outside_def min_absorb2)
  ultimately show ?thesis using d by blast
qed

lemma copy_to_packet_ok:
  assumes "copy_to_packet bs off n p = Inr p'"
  shows "\<exists>d src. mem_read bs off n = Inr src \<and> pk_data p' = Some d \<and> take n d = src \<and> pk_cmd p' = pk_cmd p"
proof -
  obtain d src d' where d: "mem_read bs off n = Inr src" "mem_write d 0 src = Inr d'" "p' = p\<lparr>pk_data := Some d'\<rparr>"
    using assms by (auto simp: copy_to_packet_def rbind_eq_Inr_iff)
  from d(2) mem_read_length [OF d(1)] have "take n d' = src"
    by (auto simp: mem_write_def split: if_splits)
  with d show ?thesis by simp
qed

lemma writeOK_frame:
  assumes "writeOK p m = (ok, p1, m1)"
  shows "me_pmem m1 = me_pmem m" "me_range m1 = me_range m" "pk_data p1 = pk_data p" "pk_flags p1 = pk_flags p"
    "pk_cmd p1 = pk_cmd p" "\<not> isLLSC (pk_cmd p) \<Longrightarrow> ok"
  using assms by (auto simp: writeOK_def checkLockedAddrList_def setExtraData_def Let_def split: if_splits)

lemma getPtr_cong: "pk_data p = pk_data q \<Longrightarrow> pk_flags p = pk_flags q \<Longrightarrow> getPtr p = getPtr q"
  by (simp add: getPtr_def flag_isSet_def)

text \<open>The cases of \<^verbatim>\<open>access\<close> that are not refused, with what happens to the host memory.\<close>

lemma access_read_ok:
  assumes "access_read off n p m = Inr (p1, m1)"
  shows "me_pmem m1 = me_pmem m" "me_range m1 = me_range m" "pk_cmd p1 = pk_cmd p"
    "me_pmem m = Some bs \<Longrightarrow> \<exists>d. pk_data p1 = Some d \<and> mem_read bs off n = Inr (take n d)"
proof -
  obtain p' where p': "(case me_pmem m of None \<Rightarrow> Inr p | Some bs \<Rightarrow> copy_to_packet bs off n p) = Inr p'" "p1 = p'"
    and m1: "me_pmem m1 = me_pmem m" "me_range m1 = me_range m"
    using assms by (auto simp: access_read_def rbind_eq_Inr_iff Let_def me_trackLoadLocked_def split: if_splits)
  then show "me_pmem m1 = me_pmem m" "me_range m1 = me_range m" by simp_all
  show "pk_cmd p1 = pk_cmd p"
    using p' copy_to_packet_ok [of _ off n p p'] by (fastforce split: option.splits)
  show "\<exists>d. pk_data p1 = Some d \<and> mem_read bs off n = Inr (take n d)" if "me_pmem m = Some bs"
    using p' that copy_to_packet_ok [of bs off n p p'] by auto
qed

lemma access_write_ok:
  assumes "access_write off n p m = Inr (p1, m1)" "me_pmem m = Some bs"
  shows "\<exists>bs'. me_pmem m1 = Some bs' \<and> pmem_outside off n bs bs'"
    "\<not> isLLSC (pk_cmd p) \<Longrightarrow> \<exists>bs' d. me_pmem m1 = Some bs' \<and> getPtr p = Inr d \<and> n \<le> length d \<and>
       mem_read bs' off n = Inr (take n d)"
    "me_range m1 = me_range m" "pk_cmd p1 = pk_cmd p"
proof -
  obtain ok q mq where w: "writeOK p m = (ok, q, mq)" by (metis prod_cases3)
  note f = writeOK_frame [OF w]
  consider (no) "\<not> ok" "p1 = q" "m1 = mq"
    | (yes) bs' where "ok" "p1 = q" "copy_from_packet q n bs off = Inr bs'" "me_pmem m1 = Some bs'" "me_range m1 = me_range mq"
    using assms f by (auto simp: access_write_def w rbind_eq_Inr_iff split: if_splits)
  then show "\<exists>bs'. me_pmem m1 = Some bs' \<and> pmem_outside off n bs bs'"
    "\<not> isLLSC (pk_cmd p) \<Longrightarrow> \<exists>bs' d. me_pmem m1 = Some bs' \<and> getPtr p = Inr d \<and> n \<le> length d \<and>
       mem_read bs' off n = Inr (take n d)"
    "me_range m1 = me_range m" "pk_cmd p1 = pk_cmd p"
    using f assms(2) copy_from_packet_ok [of q n bs off] getPtr_cong [OF f(3,4)] by (cases; fastforce)+
qed

lemma access_swap_ok:
  assumes "access_swap off n p m = Inr (p1, m1)" "me_pmem m = Some bs"
  shows "\<exists>bs'. me_pmem m1 = Some bs' \<and> pmem_outside off n bs bs'" "me_range m1 = me_range m" "pk_cmd p1 = pk_cmd p"
    "\<exists>d. pk_data p1 = Some d \<and> mem_read bs off n = Inr (take n d)"
proof -
  obtain ov bs' where r: "copy_to_packet bs off n p = Inr p1" "(if ov then copy_from_packet p n bs off else Inr bs) = Inr bs'" "me_pmem m1 = Some bs'" "me_range m1 = me_range m"
    using assms by (auto simp: access_swap_def rbind_eq_Inr_iff)
  show "\<exists>bs'. me_pmem m1 = Some bs' \<and> pmem_outside off n bs bs'" "me_range m1 = me_range m"
    using r copy_from_packet_ok [of p n bs off bs'] by (auto split: if_splits)
  show "pk_cmd p1 = pk_cmd p" "\<exists>d. pk_data p1 = Some d \<and> mem_read bs off n = Inr (take n d)"
    using copy_to_packet_ok [OF r(1)] by auto
qed

definition me_inner :: "packet \<Rightarrow> abstract_mem \<Rightarrow> (packet \<times> abstract_mem) result" where
  "me_inner p m =
     (let off = hostAddr m (pk_addr p); n = pk_size p in
      if pk_cmd p = SwapReq then access_swap off n p m
      else if isRead (pk_cmd p) then access_read off n p m
      else if isWrite (pk_cmd p) then access_write off n p m
      else if isInvalidate (pk_cmd p) then Inr (p, m)
      else Inl Panic)"

lemma me_access_InrD:
  assumes "me_access p m = Inr (p', m')" "\<not> memInhibitAsserted p"
  obtains p1 where "me_inner p m = Inr (p1, m')" "pk_data p' = pk_data p1"
    "ar_start (me_range m) \<le> pk_addr p" "pk_addr p + of_nat (pk_size p) - 1 \<le> ar_end (me_range m)"
proof -
  obtain p1 where p1: "me_inner p m = Inr (p1, m')"
    "(if needsResponse (pk_cmd p1) then rbind (makeResponse p1) (\<lambda>p2. Inr (p2, m')) else Inr (p1, m')) = Inr (p', m')"
    "ar_start (me_range m) \<le> pk_addr p" "pk_addr p + of_nat (pk_size p) - 1 \<le> ar_end (me_range m)"
    using assms
    by (auto simp: me_access_def me_inner_def rbind_eq_Inr_iff getAddr_def getSize_def rbind_assert ar_isSubset_def
        AddrRange_def Let_def split: if_splits)
  moreover from p1(2) have "pk_data p' = pk_data p1"
    by (auto simp: makeResponse_def rbind_assert flag_clear_def split: if_splits)
  ultimately show ?thesis using that by blast
qed

lemma me_access_inhibited:
  assumes "me_access p m = Inr (p', m')" "memInhibitAsserted p"
  shows "p' = p \<and> m' = m"
  using assms by (auto simp: me_access_def rbind_eq_Inr_iff rbind_assert split: if_splits)

lemma me_inner_frame:
  assumes "me_inner p m = Inr (p1, m')" "me_pmem m = Some bs"
  shows "me_range m' = me_range m \<and> (\<exists>bs'. me_pmem m' = Some bs' \<and> pmem_outside (hostAddr m (pk_addr p)) (pk_size p) bs bs')"
  using assms access_swap_ok [where p = p and m = m and bs = bs] access_write_ok [where p = p and m = m and bs = bs]
    access_read_ok(1,2) [where p = p and m = m]
  by (fastforce simp: me_inner_def Let_def split: if_splits)

lemma me_access_frame:
  assumes "me_access p m = Inr (p', m')" "me_pmem m = Some bs"
  shows "me_range m' = me_range m \<and> (\<exists>bs'. me_pmem m' = Some bs' \<and> pmem_outside (hostAddr m (pk_addr p)) (pk_size p) bs bs')"
proof (cases "memInhibitAsserted p")
  case True
  then show ?thesis using me_access_inhibited [OF assms(1)] assms(2) by auto
next
  case False
  then show ?thesis using me_access_InrD [OF assms(1)] me_inner_frame [OF _ assms(2)] by metis
qed

lemma me_access_read:
  assumes "me_access p m = Inr (p', m')" "\<not> memInhibitAsserted p" "isRead (pk_cmd p)" "me_pmem m = Some bs"
  shows "\<exists>d. pk_data p' = Some d \<and> mem_read bs (hostAddr m (pk_addr p)) (pk_size p) = Inr (take (pk_size p) d)"
proof -
  obtain p1 where p1: "me_inner p m = Inr (p1, m')" "pk_data p' = pk_data p1"
    using me_access_InrD [OF assms(1,2)] by metis
  then show ?thesis
    using assms(3,4) access_swap_ok(4) [where p = p and m = m and bs = bs] access_read_ok(4) [where p = p and m = m and bs = bs]
    by (fastforce simp: me_inner_def Let_def split: if_splits)
qed

lemma me_access_write:
  assumes "me_access p m = Inr (p', m')" "\<not> memInhibitAsserted p" "isWrite (pk_cmd p)" "\<not> isRead (pk_cmd p)"
    "\<not> isLLSC (pk_cmd p)" "me_pmem m = Some bs"
  shows "\<exists>bs' d. me_pmem m' = Some bs' \<and> getPtr p = Inr d \<and> pk_size p \<le> length d \<and>
    mem_read bs' (hostAddr m (pk_addr p)) (pk_size p) = Inr (take (pk_size p) d)"
proof -
  obtain p1 where p1: "me_inner p m = Inr (p1, m')"
    using me_access_InrD [OF assms(1,2)] by metis
  moreover have "pk_cmd p \<noteq> SwapReq" using assms(4) by (auto simp: cmd_attrib_defs)
  ultimately show ?thesis
    using assms(3-6) access_write_ok(2) [where p = p and m = m and bs = bs]
    by (simp add: me_inner_def Let_def)
qed

section \<open>Accesses that succeed\<close>

text \<open>
  A memory whose buffer fills its range and whose statistics know \<open>n\<close> requesters; and a request that lies in
  the range and has a buffer of its size. Swaps are left out: they need a size the processor supports.
\<close>

definition mem_ready :: "nat \<Rightarrow> abstract_mem \<Rightarrow> bool" where
  "mem_ready n m =
     ((case me_pmem m of None \<Rightarrow> False
       | Some bs \<Rightarrow> ar_start (me_range m) \<le> ar_end (me_range m) \<and>
           length bs = unat (ar_end (me_range m)) - unat (ar_start (me_range m)) + 1) \<and>
      length (me_bytesRead m) = n \<and> length (me_bytesInstRead m) = n \<and> length (me_bytesWritten m) = n \<and>
      length (me_numReads m) = n \<and> length (me_numWrites m) = n)"

definition pkt_ready :: "nat \<Rightarrow> addr_range \<Rightarrow> packet \<Rightarrow> bool" where
  "pkt_ready n r p =
     (flag_isSet p VALID_ADDR \<and> flag_isSet p VALID_SIZE \<and> \<not> memInhibitAsserted p \<and> 0 < pk_size p \<and>
      ar_start r \<le> pk_addr p \<and> unat (pk_addr p) + pk_size p \<le> unat (ar_end r) + 1 \<and>
      (\<exists>d. getPtr p = Inr d \<and> pk_size p \<le> length d) \<and> rq_masterId (pk_req p) < n \<and>
      pk_cmd p \<noteq> SwapReq \<and> isRead (pk_cmd p) \<noteq> isWrite (pk_cmd p) \<and> (isWrite (pk_cmd p) \<longrightarrow> \<not> rq_instFetch (pk_req p)))"

lemma window_in_memory:
  assumes "mem_ready n m" "pkt_ready k (me_range m) p" "me_pmem m = Some bs"
  shows "0 \<le> hostAddr m (pk_addr p) \<and> nat (hostAddr m (pk_addr p)) + pk_size p \<le> length bs"
proof -
  let ?r = "me_range m"
  have "unat (pk_addr p - ar_start ?r) = unat (pk_addr p) - unat (ar_start ?r)"
    using assms(2) by (intro unat_minus_le) (simp add: pkt_ready_def)
  moreover have "unat (ar_start ?r) \<le> unat (pk_addr p)" using assms(2) by (simp add: pkt_ready_def word_le_nat_alt)
  moreover have "unat (pk_addr p) + pk_size p \<le> unat (ar_end ?r) + 1" using assms(2) by (simp add: pkt_ready_def)
  moreover have "length bs = unat (ar_end ?r) - unat (ar_start ?r) + 1" using assms(1,3) by (simp add: mem_ready_def)
  ultimately have "unat (pk_addr p - ar_start ?r) + pk_size p \<le> length bs" by linarith
  then show ?thesis by (simp add: hostAddr_def)
qed

lemma copy_to_packet_total:
  assumes "getPtr p = Inr d" "n \<le> length d" "0 \<le> off" "nat off + n \<le> length bs"
  shows "\<exists>d'. copy_to_packet bs off n p = Inr (p\<lparr>pk_data := Some d'\<rparr>)"
  using assms by (auto simp: copy_to_packet_def mem_read_def mem_write_def intro!: exI)

lemma copy_from_packet_total:
  assumes "getPtr p = Inr d" "n \<le> length d" "0 \<le> off" "nat off + n \<le> length bs"
  shows "\<exists>bs'. copy_from_packet p n bs off = Inr bs' \<and> length bs' = length bs"
  using assms by (simp add: copy_from_packet_def mem_read_def mem_write_def)

lemma access_read_total:
  assumes "mem_ready n m" "pkt_ready n (me_range m) p" "isRead (pk_cmd p)"
  shows "\<exists>d m'. access_read (hostAddr m (pk_addr p)) (pk_size p) p m = Inr (p\<lparr>pk_data := Some d\<rparr>, m') \<and>
    mem_ready n m' \<and> me_range m' = me_range m"
proof -
  obtain bs where bs: "me_pmem m = Some bs" using assms(1) by (auto simp: mem_ready_def split: option.splits)
  obtain d where d: "getPtr p = Inr d" "pk_size p \<le> length d" using assms(2) by (auto simp: pkt_ready_def)
  obtain d' where d': "copy_to_packet bs (hostAddr m (pk_addr p)) (pk_size p) p = Inr (p\<lparr>pk_data := Some d'\<rparr>)"
    using copy_to_packet_total [OF d] window_in_memory [OF assms(1,2) bs] by blast
  let ?m = "if isLLSC (pk_cmd p) then me_trackLoadLocked p m else m"
  have m: "me_pmem ?m = Some bs" "mem_ready n ?m" "me_range ?m = me_range m"
    using bs assms(1) by (auto simp: me_trackLoadLocked_def mem_ready_def Let_def)
  have r: "rq_masterId (pk_req p) < n" "\<not> isWrite (pk_cmd p)" using assms(2,3) by (auto simp: pkt_ready_def)
  from m r d' show ?thesis
    unfolding access_read_def Let_def by (auto simp: mem_ready_def stat_add_def rbind_assert)
qed

lemma access_write_total:
  assumes "mem_ready n m" "pkt_ready n (me_range m) p" "isWrite (pk_cmd p)"
  shows "\<exists>p' m'. access_write (hostAddr m (pk_addr p)) (pk_size p) p m = Inr (p', m') \<and> pk_cmd p' = pk_cmd p \<and>
    pk_flags p' = pk_flags p \<and> mem_ready n m' \<and> me_range m' = me_range m"
proof -
  obtain bs where bs: "me_pmem m = Some bs" using assms(1) by (auto simp: mem_ready_def split: option.splits)
  obtain d where d: "getPtr p = Inr d" "pk_size p \<le> length d" using assms(2) by (auto simp: pkt_ready_def)
  obtain ok q mq where w: "writeOK p m = (ok, q, mq)" by (metis prod_cases3)
  note f = writeOK_frame [OF w]
  have mq: "mem_ready n mq" using w assms(1)
    by (auto simp: writeOK_def checkLockedAddrList_def Let_def mem_ready_def split: if_splits option.splits)
  obtain bs' where bs': "copy_from_packet q (pk_size p) bs (hostAddr m (pk_addr p)) = Inr bs'" "length bs' = length bs"
    using copy_from_packet_total [of q d "pk_size p" "hostAddr m (pk_addr p)" bs] getPtr_cong [OF f(3,4)] d
      window_in_memory [OF assms(1,2) bs] by auto
  have r: "rq_masterId (pk_req p) < n" "\<not> rq_instFetch (pk_req p)" using assms(2,3) by (auto simp: pkt_ready_def)
  from bs bs' f mq r show ?thesis
    by (auto simp: access_write_def w mem_ready_def stat_add_def rbind_assert)
qed

lemma makeResponse_not_snoop: "makeResponse p = Inr p' \<Longrightarrow> \<not> isExpressSnoop p'"
  by (auto simp: makeResponse_def rbind_assert isExpressSnoop_def flag_isSet_def flag_clear_def and.assoc split: if_splits)

lemma me_access_total:
  assumes "mem_ready n m" "pkt_ready n (me_range m) p"
  shows "\<exists>p' m'. me_access p m = Inr (p', m') \<and> mem_ready n m' \<and> me_range m' = me_range m \<and>
    (needsResponse (pk_cmd p) \<longrightarrow> isResponse (pk_cmd p') \<and> \<not> isExpressSnoop p')"
proof -
  let ?r = "me_range m"
  have p: "flag_isSet p VALID_ADDR" "flag_isSet p VALID_SIZE" "\<not> memInhibitAsserted p" "pk_cmd p \<noteq> SwapReq"
    "isRead (pk_cmd p) \<noteq> isWrite (pk_cmd p)" "ar_start ?r \<le> pk_addr p" "0 < pk_size p"
    "unat (pk_addr p) + pk_size p \<le> unat (ar_end ?r) + 1"
    using assms(2) by (simp_all add: pkt_ready_def)
  have "unat (pk_addr p) + pk_size p \<le> 2 ^ LENGTH(64)" 
  proof -
    have "unat (ar_end ?r) < 2 ^ LENGTH(64)" by (rule unsigned_less)
    then show ?thesis using p(8) by linarith
  qed
  from unat_range_end [OF p(7) this] p(8) have e: "pk_addr p + of_nat (pk_size p) - 1 \<le> ar_end ?r"
    by (simp add: word_le_nat_alt)
  obtain q m' where q: "(if isRead (pk_cmd p) then access_read (hostAddr m (pk_addr p)) (pk_size p) p m
      else access_write (hostAddr m (pk_addr p)) (pk_size p) p m) = Inr (q, m')"
    "pk_cmd q = pk_cmd p" "mem_ready n m'" "me_range m' = ?r"
  proof (cases "isRead (pk_cmd p)")
    case True
    then show ?thesis using access_read_total [OF assms True] that by fastforce
  next
    case False
    then show ?thesis using access_write_total [OF assms] p(5) that by fastforce
  qed
  have acc: "me_access p m = (if needsResponse (pk_cmd q) then rbind (makeResponse q) (\<lambda>p2. Inr (p2, m')) else Inr (q, m'))"
    using p q(1) e by (auto simp: me_access_def getAddr_def getSize_def rbind_assert ar_isSubset_def AddrRange_def Let_def split: if_splits)
  show ?thesis
  proof (cases "needsResponse (pk_cmd p)")
    case True
    then obtain p' where "makeResponse q = Inr p'" "isResponse (pk_cmd p')" using makeResponse_ok [of q] q(2) by metis
    with acc True q makeResponse_not_snoop show ?thesis by auto
  next
    case False
    with acc q show ?thesis by auto
  qed
qed

end
