(* ===== verification/Guest_Memory.thy ===== *)
theory Guest_Memory
  imports Abstract_Mem
begin

text \<open>
  The address mapper and the memory together: what a guest finds at its own addresses. The locale
  \<open>domain_windows\<close> extends the contract of the mapper by windows that are relocated by a constant; it is
  interpreted on the translation table (\<open>ramw\<close>).
\<close>

section \<open>The view of a guest\<close>

text \<open>
  What a guest finds at an address of its own: the byte of the host memory at the relocated
  address, if the table covers the address and the memory holds it.
\<close>

definition guest_view ::
  "(addr \<Rightarrow> guest_id \<Rightarrow> addr) \<Rightarrow> (guest_id \<Rightarrow> addr \<Rightarrow> bool) \<Rightarrow> abstract_mem \<Rightarrow> guest_id \<Rightarrow> addr \<Rightarrow> u8 option" where
  "guest_view remap covers m h a =
     (case me_pmem m of None \<Rightarrow> None
      | Some bs \<Rightarrow> let i = nat (hostAddr m (remap a h)) in if covers h a \<and> i < length bs then Some (bs ! i) else None)"

definition in_access :: "packet \<Rightarrow> addr \<Rightarrow> bool" where
  "in_access p a = (unat (a - pk_addr p) < pk_size p)"

lemma in_access_offset:
  assumes "in_access p a"
  shows "a = pk_addr p + of_nat (unat (a - pk_addr p))"
  by simp

lemma hostAddr_same:
  assumes "nat (hostAddr m x) = nat (hostAddr m b) + k"
  shows "x = b + of_nat k"
proof -
  have "x - ar_start (me_range m) = of_nat (unat (b - ar_start (me_range m)) + k)"
    using assms by (metis hostAddr_def unat_eq_nat_uint of_nat_unat ucast_id)
  then show ?thesis by (simp add: algebra_simps)
qed

lemma hostAddr_offset:
  assumes "ar_start (me_range m) \<le> b" "unat b + n \<le> 2 ^ 64" "k < n"
  shows "nat (hostAddr m (b + of_nat k)) = nat (hostAddr m b) + k"
proof -
  let ?s = "ar_start (me_range m)"
  have b: "unat (b - ?s) = unat b - unat ?s" using assms(1) by (rule unat_minus_le)
  have k: "unat (of_nat k :: addr) = k" using assms by (intro unat_of_nat_lt) simp
  have "unat (b - ?s + of_nat k) = unat (b - ?s) + unat (of_nat k :: addr)"
    using assms b k by (intro unat_add_lt) simp
  then show ?thesis using k by (simp add: hostAddr_def algebra_simps)
qed

text \<open>
  A relocation with windows: ranges of addresses that are covered and relocated by a constant.
\<close>

locale domain_windows = domain_remap inv remap covers
  for inv :: "'s \<Rightarrow> bool"
    and remap :: "'s \<Rightarrow> addr \<Rightarrow> guest_id \<Rightarrow> addr"
    and covers :: "'s \<Rightarrow> guest_id \<Rightarrow> addr \<Rightarrow> bool" +
  fixes window :: "'s \<Rightarrow> guest_id \<Rightarrow> addr \<Rightarrow> nat \<Rightarrow> bool"
  assumes window_covers: "\<lbrakk>inv s; window s g a n; k < n\<rbrakk> \<Longrightarrow> covers s g (a + of_nat k)"
    and window_linear: "\<lbrakk>inv s; window s g a n; k < n\<rbrakk> \<Longrightarrow> remap s (a + of_nat k) g = remap s a g + of_nat k"
    and window_fits: "\<lbrakk>inv s; window s g a n\<rbrakk> \<Longrightarrow> unat (remap s a g) + n \<le> 2 ^ 64"
begin

lemma view_kept:
  assumes "inv s" "window s g (pk_addr p) (pk_size p)"
    and q: "pk_addr q = remap s (pk_addr p) g" "pk_size q = pk_size p"
    and acc: "me_access q m = Inr (q', m')" and bs: "me_pmem m = Some bs"
    and out: "h \<noteq> g \<or> \<not> in_access p a"
  shows "guest_view (remap s) (covers s) m' h a = guest_view (remap s) (covers s) m h a"
proof -
  obtain bs' where bs': "me_range m' = me_range m" "me_pmem m' = Some bs'"
    "pmem_outside (hostAddr m (pk_addr q)) (pk_size q) bs bs'"
    using me_access_frame [OF acc bs] by blast
  let ?i = "nat (hostAddr m (remap s a h))" and ?off = "nat (hostAddr m (pk_addr q))"
  have "bs' ! ?i = bs ! ?i" if c: "covers s h a" "?i < length bs"
  proof -
    have "\<not> (?off \<le> ?i \<and> ?i < ?off + pk_size q)"
    proof
      assume "?off \<le> ?i \<and> ?i < ?off + pk_size q"
      then obtain k where k: "?i = ?off + k" "k < pk_size p" using q(2) by (metis add_less_cancel_left le_Suc_ex)
      from hostAddr_same [OF k(1)] have "remap s a h = remap s (pk_addr p + of_nat k) g"
        using window_linear [OF assms(1,2) k(2)] q(1) by simp
      with remap_inj [OF assms(1) c(1) window_covers [OF assms(1,2) k(2)]] have "h = g" "a = pk_addr p + of_nat k" by auto
      moreover from this k(2) have "in_access p a"
        by (simp add: in_access_def) (metis le_less_trans unat_of_nat mod_less_eq_dividend)
      ultimately show False using out by blast
    qed
    with bs'(3) c(2) show ?thesis by (simp add: pmem_outside_def)
  qed
  with bs bs' show ?thesis by (simp add: guest_view_def hostAddr_def pmem_outside_def Let_def)
qed

lemma view_byte:
  assumes "inv s" "window s g (pk_addr p) (pk_size p)" "in_access p a"
    and "ar_start (me_range m) \<le> remap s (pk_addr p) g" "me_pmem m = Some bs"
    and "mem_read bs (hostAddr m (remap s (pk_addr p) g)) (pk_size p) = Inr (take (pk_size p) d)"
  shows "guest_view (remap s) (covers s) m g a = Some (d ! unat (a - pk_addr p))"
proof -
  let ?k = "unat (a - pk_addr p)" and ?b = "remap s (pk_addr p) g"
  have k: "?k < pk_size p" using assms(3) by (simp add: in_access_def)
  have a: "a = pk_addr p + of_nat ?k" by simp
  have r: "remap s a g = ?b + of_nat ?k" "covers s g a"
    using window_linear [OF assms(1,2) k] window_covers [OF assms(1,2) k] by simp_all
  have i: "nat (hostAddr m (remap s a g)) = nat (hostAddr m ?b) + ?k"
    unfolding r(1) by (rule hostAddr_offset [OF assms(4) window_fits [OF assms(1,2)] k])
  have "nat (hostAddr m ?b) + pk_size p \<le> length bs"
    using assms(6) by (auto simp: mem_read_def split: if_splits)
  with i k mem_read_nth [OF assms(6) k] r(2) assms(5) show ?thesis by (simp add: guest_view_def)
qed

end

section \<open>Windows of the translation table\<close>

definition tlb_window :: "ldom_tlb \<Rightarrow> ldom_id \<Rightarrow> addr \<Rightarrow> nat \<Rightarrow> bool" where
  "tlb_window tlb d a n =
     list_ex (\<lambda>e. le_contains e d a \<and> unat a + n \<le> unat (le_start e) + unat (le_size e)) tlb"

lemma tlb_window_entry:
  assumes "tlb_wf tlb" "tlb_window tlb d a n" "k < n"
  shows "tlb_covers tlb d (a + of_nat k) \<and> ram_remapAddr tlb (a + of_nat k) d = ram_remapAddr tlb a d + of_nat k"
proof -
  obtain e where e: "e \<in> set tlb" "le_contains e d a" "unat a + n \<le> unat (le_start e) + unat (le_size e)"
    using assms(2) by (auto simp: tlb_window_def list_ex_iff)
  have wf: "le_wf e" using tlb_wf_entry [OF assms(1) e(1)] .
  have ak: "unat (a + of_nat k) = unat a + k"
  proof -
    have lt: "unat a + k < 2 ^ 64" using wf e(3) assms(3) by (simp add: le_wf_def)
    have "unat (of_nat k :: addr) = k" using lt by (intro unat_of_nat_lt) simp
    with lt show ?thesis by (subst unat_add_lt) simp_all
  qed
  have c: "le_contains e d (a + of_nat k)"
    using e(2,3) assms(3) ak by (simp add: le_contains_iff [OF wf])
  then have "tlb_covers tlb d (a + of_nat k)" using e(1) by (auto simp: tlb_covers_def list_ex_iff)
  moreover have "ram_remapAddr tlb (a + of_nat k) d = ram_remapAddr tlb a d + of_nat k"
    using tlb_remapAddr_mem [OF assms(1) e(1) c] tlb_remapAddr_mem [OF assms(1) e(1,2)]
    by (simp add: ram_remapAddr_def le_translate_def)
  ultimately show ?thesis ..
qed

lemma tlb_window_fits:
  assumes "tlb_wf tlb" "tlb_window tlb d a n"
  shows "unat (ram_remapAddr tlb a d) + n \<le> 2 ^ 64"
proof -
  obtain e where e: "e \<in> set tlb" "le_contains e d a" "unat a + n \<le> unat (le_start e) + unat (le_size e)"
    using assms(2) by (auto simp: tlb_window_def list_ex_iff)
  have wf: "le_wf e" using tlb_wf_entry [OF assms(1) e(1)] .
  have "unat (ram_remapAddr tlb a d) = unat (le_remapped e) + (unat a - unat (le_start e))"
    using tlb_remapAddr_mem [OF assms(1) e(1,2)] unat_le_translate [OF wf e(2)] by (simp add: ram_remapAddr_def)
  moreover have "unat (le_start e) \<le> unat a" using e(2) by (simp add: le_contains_iff [OF wf])
  ultimately show ?thesis using e(3) wf unfolding le_wf_def by linarith
qed

interpretation ramw: domain_windows tlb_wf ram_remapAddr tlb_covers tlb_window
  by unfold_locales (use tlb_window_entry tlb_window_fits in blast)+

section \<open>Requests of a guest through the mapper\<close>

lemma am_forwarded_simps [simp]:
  "pk_addr (am_forwarded f g p) = f (pk_addr p) g" "pk_size (am_forwarded f g p) = pk_size p"
  "pk_cmd (am_forwarded f g p) = pk_cmd p" "pk_req (am_forwarded f g p) = pk_req p"
  "pk_data (am_forwarded f g p) = pk_data p" "pk_flags (am_forwarded f g p) = pk_flags p"
  by (simp_all add: am_forwarded_def pushSenderState_def)

lemma am_forwarded_inhibit [simp]: "memInhibitAsserted (am_forwarded f g p) = memInhibitAsserted p"
  by (simp add: memInhibitAsserted_def flag_isSet_def)

lemma guest_access_view:
  assumes tlb: "tlb_wf tlb" "tlb_window tlb g (pk_addr p) (pk_size p)" and inh: "\<not> memInhibitAsserted p"
    and acc: "me_access (am_forwarded (ram_remapAddr tlb) g p) m = Inr (p2, m1)" and bs: "me_pmem m = Some bs"
  defines "view \<equiv> guest_view (ram_remapAddr tlb) (tlb_covers tlb)"
  shows "h \<noteq> g \<or> \<not> in_access p a \<Longrightarrow> view m1 h a = view m h a"
    and "\<lbrakk>isWrite (pk_cmd p); \<not> isRead (pk_cmd p); \<not> isLLSC (pk_cmd p)\<rbrakk> \<Longrightarrow>
      \<exists>d. getPtr p = Inr d \<and> (\<forall>a. in_access p a \<longrightarrow> view m1 g a = Some (d ! unat (a - pk_addr p)))"
    and "isRead (pk_cmd p) \<Longrightarrow>
      \<exists>d. pk_data p2 = Some d \<and> (\<forall>a. in_access p a \<longrightarrow> view m g a = Some (d ! unat (a - pk_addr p)))"
proof -
  let ?q = "am_forwarded (ram_remapAddr tlb) g p"
  have inh': "\<not> memInhibitAsserted ?q" using inh by simp
  have st: "ar_start (me_range m) \<le> ram_remapAddr tlb (pk_addr p) g"
    using me_access_InrD [OF acc inh'] by auto
  have rg: "me_range m1 = me_range m" using me_access_frame [OF acc bs] by blast
  show "view m1 h a = view m h a" if "h \<noteq> g \<or> \<not> in_access p a"
    unfolding view_def by (rule ramw.view_kept [OF tlb _ _ acc bs that]) simp_all
  show "\<exists>d. getPtr p = Inr d \<and> (\<forall>a. in_access p a \<longrightarrow> view m1 g a = Some (d ! unat (a - pk_addr p)))"
    if w: "isWrite (pk_cmd p)" "\<not> isRead (pk_cmd p)" "\<not> isLLSC (pk_cmd p)"
  proof -
    have "getPtr ?q = getPtr p" by (rule getPtr_cong) simp_all
    then obtain bs' d where d: "me_pmem m1 = Some bs'" "getPtr p = Inr d"
      "mem_read bs' (hostAddr m (ram_remapAddr tlb (pk_addr p) g)) (pk_size p) = Inr (take (pk_size p) d)"
      using me_access_write [OF acc inh' _ _ _ bs] w by auto
    have h: "hostAddr m1 = hostAddr m" by (rule ext) (simp add: hostAddr_def rg)
    show ?thesis unfolding view_def
      using d(2) ramw.view_byte [OF tlb, of _ m1 bs' d] st d(1,3) by (auto simp: h rg)
  qed
  show "\<exists>d. pk_data p2 = Some d \<and> (\<forall>a. in_access p a \<longrightarrow> view m g a = Some (d ! unat (a - pk_addr p)))"
    if "isRead (pk_cmd p)"
    using me_access_read [OF acc inh' _ bs] that ramw.view_byte [OF tlb _ st bs] unfolding view_def by auto
qed

section \<open>Reservations\<close>

lemma relock_holds:
  "relock req paddr ls = Some ls' \<Longrightarrow> \<exists>l \<in> set ls'. la_addr l = paddr \<and> me_matchesContext req l"
  by (induction ls arbitrary: ls') (auto simp: me_matchesContext_def split: if_splits)

lemma trackLoadLocked_holds:
  "\<exists>l \<in> set (me_lockedAddrList (me_trackLoadLocked p m)).
     la_addr l = locked_mask (rq_paddr (pk_req p)) \<and> me_matchesContext (pk_req p) l"
  using relock_holds [of "pk_req p" "locked_mask (rq_paddr (pk_req p))" "me_lockedAddrList m"]
  by (auto simp: me_trackLoadLocked_def Let_def LockedAddr_def me_matchesContext_def split: option.splits)

text \<open>
  The memory keeps its reservations by the address in the request, which the mapper does not relocate:
  whatever the two guests and their tables, a load-locked of one guest lets a store-conditional of
  another guest succeed when the two requests name the same guest address and context.
\<close>

lemma reservation_not_relocated:
  assumes "isLLSC (pk_cmd q)" "rq_paddr (pk_req q) = rq_paddr (pk_req p)" "rq_contextId (pk_req q) = rq_contextId (pk_req p)"
  shows "fst (writeOK (am_forwarded f h q) (me_trackLoadLocked (am_forwarded f g p) m))"
  using trackLoadLocked_holds [of "am_forwarded f g p" m] assms
  by (auto simp: writeOK_def checkLockedAddrList_def Let_def me_matchesContext_def list_ex_iff)

text \<open>A store clears every reservation of its line, and a store-conditional without one fails and writes nothing.\<close>

lemma writeOK_clears:
  assumes "writeOK p m = (True, p1, m1)"
  shows "\<forall>l \<in> set (me_lockedAddrList m1). la_addr l \<noteq> locked_mask (rq_paddr (pk_req p))"
  using assms by (auto simp: writeOK_def checkLockedAddrList_def Let_def split: if_splits)

lemma store_conditional_lost:
  assumes "isLLSC (pk_cmd p)"
    and "\<forall>l \<in> set (me_lockedAddrList m). la_addr l = locked_mask (rq_paddr (pk_req p)) \<longrightarrow> \<not> me_matchesContext (pk_req p) l"
  shows "access_write off n p m = Inr (setExtraData 0 p, m)"
  using assms by (auto simp: access_write_def writeOK_def checkLockedAddrList_def Let_def list_ex_iff)

section \<open>Functional accesses\<close>

lemma functional_write_agrees:
  assumes "me_access p m = Inr (p1, m1)" "functionalAccess p m = Inr (p2, m2)"
    and "\<not> memInhibitAsserted p" "isWrite (pk_cmd p)" "\<not> isRead (pk_cmd p)" "\<not> isLLSC (pk_cmd p)"
  shows "me_pmem m1 = me_pmem m2"
proof -
  have "pk_cmd p \<noteq> SwapReq" using assms(5) by (auto simp: cmd_attrib_defs)
  with me_access_InrD [OF assms(1,3)] obtain q where
    a: "access_write (hostAddr m (pk_addr p)) (pk_size p) p m = Inr (q, m1)"
    using assms(4,5) by (auto simp: me_inner_def Let_def)
  obtain q' mq where w: "writeOK p m = (True, q', mq)" using writeOK_frame(6) [of p m] assms(6) by (metis prod_cases3)
  note f = writeOK_frame [OF w]
  have "copy_from_packet q' = copy_from_packet p"
    using getPtr_cong [OF f(3,4)] by (intro ext) (simp add: copy_from_packet_def)
  with a f(1) assms(2,4,5) show ?thesis
    by (auto simp: access_write_def w functionalAccess_def rbind_eq_Inr_iff getAddr_def getSize_def rbind_assert Let_def
        split: if_splits option.splits)
qed

end
