(* ===== verification/Cache_Blk.thy ===== *)
theory Cache_Blk
  imports Packet
begin

text \<open>
  The cache block of the PARD caches, \<^verbatim>\<open>hyper/mem/cache/blk.hh\<close>: status bits, the guest
  that owns the block, and the list of load-locked reservations behind load-linked /
  store-conditional.
\<close>

section \<open>Status bits and fields\<close>

definition BlkValid :: u32 where "BlkValid = 0x01"
definition BlkWritable :: u32 where "BlkWritable = 0x02"
definition BlkReadable :: u32 where "BlkReadable = 0x04"
definition BlkDirty :: u32 where "BlkDirty = 0x08"
definition BlkReferenced :: u32 where "BlkReferenced = 0x10"
definition BlkHWPrefetched :: u32 where "BlkHWPrefetched = 0x20"
definition BlkSecure :: u32 where "BlkSecure = 0x40"

lemmas blk_status_defs =
  BlkValid_def BlkWritable_def BlkReadable_def BlkDirty_def BlkReferenced_def
  BlkHWPrefetched_def BlkSecure_def

record blk_lock =
  lk_contextId :: int
  lk_lowAddr :: addr
  lk_highAddr :: addr

text \<open>The \<^verbatim>\<open>int qosTag\<close> of the source is kept as its 32-bit pattern.\<close>

record cache_blk =
  cb_task_id :: u32
  cb_asid :: int
  cb_tag :: addr
  cb_data :: "u8 list"
  cb_size :: nat
  cb_status :: u32
  cb_whenReady :: tick
  cb_set :: int
  cb_way :: nat
  cb_isTouched :: bool
  cb_refCount :: nat
  cb_qosTag :: u32
  cb_srcMasterId :: nat
  cb_tickInserted :: tick
  cb_lockList :: "blk_lock list"

definition CacheBlk :: "u8 list \<Rightarrow> nat \<Rightarrow> cache_blk" where
  "CacheBlk data0 way0 =
     \<lparr>cb_task_id = TASK_UNKNOWN, cb_asid = - 1, cb_tag = 0, cb_data = data0, cb_size = 0, cb_status = 0,
      cb_whenReady = 0, cb_set = - 1, cb_way = way0, cb_isTouched = False, cb_refCount = 0,
      cb_qosTag = - 1, cb_srcMasterId = INVLD_MASTER_ID, cb_tickInserted = 0, cb_lockList = []\<rparr>"

text \<open>\<^verbatim>\<open>operator=\<close> copies nine of the fields only.\<close>

definition blk_assign :: "cache_blk \<Rightarrow> cache_blk \<Rightarrow> cache_blk" where
  "blk_assign this rhs =
     this\<lparr>cb_asid := cb_asid rhs, cb_tag := cb_tag rhs, cb_data := cb_data rhs, cb_size := cb_size rhs,
          cb_status := cb_status rhs, cb_whenReady := cb_whenReady rhs, cb_set := cb_set rhs,
          cb_refCount := cb_refCount rhs, cb_task_id := cb_task_id rhs\<rparr>"

definition blk_isWritable :: "cache_blk \<Rightarrow> bool" where
  "blk_isWritable b = (let needed_bits = BlkWritable OR BlkValid in cb_status b AND needed_bits = needed_bits)"

definition blk_isReadable :: "cache_blk \<Rightarrow> bool" where
  "blk_isReadable b = (let needed_bits = BlkReadable OR BlkValid in cb_status b AND needed_bits = needed_bits)"

definition blk_isValid :: "cache_blk \<Rightarrow> bool" where
  "blk_isValid b = (cb_status b AND BlkValid \<noteq> 0)"

definition blk_isDirty :: "cache_blk \<Rightarrow> bool" where
  "blk_isDirty b = (cb_status b AND BlkDirty \<noteq> 0)"

definition blk_isReferenced :: "cache_blk \<Rightarrow> bool" where
  "blk_isReferenced b = (cb_status b AND BlkReferenced \<noteq> 0)"

definition blk_wasPrefetched :: "cache_blk \<Rightarrow> bool" where
  "blk_wasPrefetched b = (cb_status b AND BlkHWPrefetched \<noteq> 0)"

definition blk_isSecure :: "cache_blk \<Rightarrow> bool" where
  "blk_isSecure b = (cb_status b AND BlkSecure \<noteq> 0)"

definition blk_getGuestID :: "cache_blk \<Rightarrow> guest_id" where
  "blk_getGuestID b = QOSTAG_TO_GUESTID (scast (cb_qosTag b))"

definition blk_setGuestID :: "guest_id \<Rightarrow> cache_blk \<Rightarrow> cache_blk" where
  "blk_setGuestID guest b = b\<lparr>cb_qosTag := ucast (SET_GUESTID (scast (cb_qosTag b)) guest)\<rparr>"

section \<open>Reservations\<close>

definition req_low :: "request \<Rightarrow> addr" where
  "req_low req = rq_paddr req"

definition req_high :: "request \<Rightarrow> addr" where
  "req_high req = rq_paddr req + of_nat (rq_size req) - 1"

definition matchesContext :: "blk_lock \<Rightarrow> request \<Rightarrow> bool" where
  "matchesContext l req =
     (lk_contextId l = rq_contextId req \<and> req_low req \<ge> lk_lowAddr l \<and> req_high req \<le> lk_highAddr l)"

definition lock_overlapping :: "blk_lock \<Rightarrow> request \<Rightarrow> bool" where
  "lock_overlapping l req = (req_low req \<le> lk_highAddr l \<and> req_high req \<ge> lk_lowAddr l)"

definition Lock :: "request \<Rightarrow> blk_lock" where
  "Lock req = \<lparr>lk_contextId = rq_contextId req, lk_lowAddr = rq_paddr req,
               lk_highAddr = rq_paddr req + of_nat (rq_size req) - 1\<rparr>"

definition trackLoadLocked :: "packet \<Rightarrow> cache_blk \<Rightarrow> cache_blk result" where
  "trackLoadLocked p b =
     rbind (sim_assert (isLLSC (pk_cmd p))) (\<lambda>_.
       Inr (b\<lparr>cb_lockList := Lock (pk_req p) # cb_lockList b\<rparr>))"

text \<open>The erase loop over the reservations that overlap a request.\<close>

fun erase_overlapping :: "request \<Rightarrow> blk_lock list \<Rightarrow> blk_lock list" where
  "erase_overlapping req [] = []"
| "erase_overlapping req (l # ls) =
     (if lock_overlapping l req then erase_overlapping req ls else l # erase_overlapping req ls)"

definition clearLoadLocks :: "request option \<Rightarrow> cache_blk \<Rightarrow> cache_blk" where
  "clearLoadLocks req b =
     (case req of None \<Rightarrow> b\<lparr>cb_lockList := []\<rparr>
      | Some r \<Rightarrow> b\<lparr>cb_lockList := erase_overlapping r (cb_lockList b)\<rparr>)"

definition blk_invalidate :: "cache_blk \<Rightarrow> cache_blk" where
  "blk_invalidate b = clearLoadLocks None (b\<lparr>cb_status := 0, cb_isTouched := False\<rparr>)"

definition checkWrite :: "packet \<Rightarrow> cache_blk \<Rightarrow> bool \<times> packet \<times> cache_blk" where
  "checkWrite p b =
     (let req = pk_req p in
      if isLLSC (pk_cmd p) then
        let success = list_ex (\<lambda>l. matchesContext l req) (cb_lockList b);
            req' = req\<lparr>rq_extraData := Some (if success then 1 else 0)\<rparr>
        in (success, p\<lparr>pk_req := req'\<rparr>, clearLoadLocks (Some req') b)
      else (True, p, clearLoadLocks (Some req) b))"

text \<open>The coherence state letter printed by \<^verbatim>\<open>print\<close>.\<close>

datatype moesi = StM | StO | StE | StS | StI | StT

definition blk_state :: "cache_blk \<Rightarrow> moesi" where
  "blk_state b =
     (case (blk_isWritable b, blk_isDirty b, blk_isValid b) of
        (True, True, True) \<Rightarrow> StM
      | (False, True, True) \<Rightarrow> StO
      | (True, False, True) \<Rightarrow> StE
      | (False, False, True) \<Rightarrow> StS
      | (False, False, False) \<Rightarrow> StI
      | _ \<Rightarrow> StT)"

text \<open>\<^verbatim>\<open>CacheBlkIsDirtyVisitor\<close> driven by \<^verbatim>\<open>forEachBlk\<close>: stop at the first dirty block.\<close>

fun isDirty_visit :: "cache_blk list \<Rightarrow> bool" where
  "isDirty_visit [] = False"
| "isDirty_visit (b # bs) = (if blk_isDirty b then True else isDirty_visit bs)"

section \<open>Properties\<close>

lemma isDirty_visit_iff: "isDirty_visit bs \<longleftrightarrow> (\<exists>b \<in> set bs. blk_isDirty b)"
  by (induction bs) auto

lemma status_bits:
  "blk_isValid b \<longleftrightarrow> bit (cb_status b) 0" "blk_isDirty b \<longleftrightarrow> bit (cb_status b) 3"
  "blk_isSecure b \<longleftrightarrow> bit (cb_status b) 6"
  using and_exp_eq_0_iff_not_bit [of "cb_status b" 0] and_exp_eq_0_iff_not_bit [of "cb_status b" 3]
    and_exp_eq_0_iff_not_bit [of "cb_status b" 6]
  by (simp_all add: blk_isValid_def blk_isDirty_def blk_isSecure_def blk_status_defs)

lemma blk_isWritable_valid: "blk_isWritable b \<Longrightarrow> blk_isValid b"
  unfolding blk_isWritable_def status_bits Let_def
proof -
  assume "cb_status b AND (BlkWritable OR BlkValid) = BlkWritable OR BlkValid"
  then have "bit (cb_status b AND (BlkWritable OR BlkValid)) 0 = bit (BlkWritable OR BlkValid) 0" by simp
  then show "bit (cb_status b) 0" by (simp add: bit_simps blk_status_defs)
qed

lemma blk_invalidate_not_valid: "\<not> blk_isValid (blk_invalidate b)" "\<not> blk_isSecure (blk_invalidate b)"
  "cb_lockList (blk_invalidate b) = []"
  by (simp_all add: blk_invalidate_def clearLoadLocks_def blk_isValid_def blk_isSecure_def)

lemma blk_guest_set_get: "blk_getGuestID (blk_setGuestID g b) = take_bit 8 g"
  by (rule bit_word_eqI)
     (auto simp: blk_getGuestID_def blk_setGuestID_def bit_QOSTAG_TO_GUESTID bit_SET_GUESTID bit_simps)

lemma blk_setGuestID_frame:
  "cb_status (blk_setGuestID g b) = cb_status b" "cb_tag (blk_setGuestID g b) = cb_tag b"
  "cb_way (blk_setGuestID g b) = cb_way b" "cb_set (blk_setGuestID g b) = cb_set b"
  by (simp_all add: blk_setGuestID_def)

text \<open>A state with a dirty, valid block is M or O; T marks the invalid dirty patterns.\<close>

lemma blk_state_owner: "blk_isValid b \<Longrightarrow> blk_isDirty b \<longleftrightarrow> blk_state b \<in> {StM, StO}"
  by (auto simp: blk_state_def split: bool.splits)

lemma erase_overlapping_filter: "erase_overlapping req ls = filter (\<lambda>l. \<not> lock_overlapping l req) ls"
  by (induction ls) auto

definition req_wf :: "request \<Rightarrow> bool" where
  "req_wf req = (0 < rq_size req \<and> unat (rq_paddr req) + rq_size req \<le> 2 ^ 64)"

definition reqs_overlap :: "request \<Rightarrow> request \<Rightarrow> bool" where
  "reqs_overlap r q = (unat (rq_paddr r) < unat (rq_paddr q) + rq_size q \<and>
                       unat (rq_paddr q) < unat (rq_paddr r) + rq_size r)"

lemma unat_req_high: "req_wf r \<Longrightarrow> unat (req_high r) = unat (rq_paddr r) + rq_size r - 1"
  unfolding req_high_def req_wf_def by (rule unat_range_end) simp_all

lemma matches_overlaps:
  assumes "req_wf r" "req_wf q" "reqs_overlap r q" "matchesContext l r"
  shows "lock_overlapping l q"
  using assms unat_req_high [OF assms(1)] unat_req_high [OF assms(2)]
  by (auto simp: matchesContext_def lock_overlapping_def req_low_def reqs_overlap_def req_wf_def
      word_le_nat_alt)

lemma checkWrite_locks: "cb_lockList (snd (snd (checkWrite p b))) =
    filter (\<lambda>l. \<not> lock_overlapping l (pk_req p)) (cb_lockList b)"
proof -
  have "lock_overlapping l (r\<lparr>rq_extraData := e\<rparr>) = lock_overlapping l r" for l r e
    by (simp add: lock_overlapping_def req_low_def req_high_def)
  then show ?thesis
    by (simp add: checkWrite_def clearLoadLocks_def erase_overlapping_filter Let_def)
qed

lemma checkWrite_success:
  "fst (checkWrite p b) \<longleftrightarrow> \<not> isLLSC (pk_cmd p) \<or> (\<exists>l \<in> set (cb_lockList b). matchesContext l (pk_req p))"
  by (auto simp: checkWrite_def Let_def list_ex_iff)

lemma store_breaks_reservation:
  assumes "req_wf (pk_req sc)" "req_wf (pk_req st)" "reqs_overlap (pk_req sc) (pk_req st)"
    and "isLLSC (pk_cmd sc)" "checkWrite st b = (ok, st', b')"
  shows "\<not> fst (checkWrite sc b')"
proof -
  have "cb_lockList b' = filter (\<lambda>l. \<not> lock_overlapping l (pk_req st)) (cb_lockList b)"
    using checkWrite_locks [of st b] assms(5) by simp
  then show ?thesis
    using matches_overlaps [OF assms(1-3)] assms(4) by (auto simp: checkWrite_success)
qed

lemma reservation_survives:
  assumes "l \<in> set (cb_lockList b)" "\<not> lock_overlapping l (pk_req st)" "checkWrite st b = (ok, st', b')"
  shows "l \<in> set (cb_lockList b')"
  using assms checkWrite_locks [of st b] by simp

lemma load_locked_then_conditional:
  assumes "trackLoadLocked ll b = Inr b'" "rq_contextId (pk_req sc) = rq_contextId (pk_req ll)"
    and "rq_paddr (pk_req sc) = rq_paddr (pk_req ll)" "rq_size (pk_req sc) = rq_size (pk_req ll)"
  shows "fst (checkWrite sc b')"
proof -
  have "cb_lockList b' = Lock (pk_req ll) # cb_lockList b"
    using assms(1) by (auto simp: trackLoadLocked_def rbind_assert split: if_splits)
  moreover have "matchesContext (Lock (pk_req ll)) (pk_req sc)"
    using assms(2-4) by (simp add: matchesContext_def Lock_def req_low_def req_high_def)
  ultimately show ?thesis by (simp add: checkWrite_success)
qed

end
