(* ===== verification/Cache_Set.thy ===== *)
theory Cache_Set
  imports Cache_Blk
begin

text \<open>
  One associative set, \<^verbatim>\<open>hyper/mem/cache/tags/cacheset.hh\<close>: an array of pointers to blocks in
  recency order. Pointers are the indices of the blocks in the tag store. The swap loops are
  modelled as they run over the array, and shown to be the list operations of a recency
  order; the contract of a recency order is a locale.
\<close>

section \<open>Operations\<close>

text \<open>\<^verbatim>\<open>findBlk\<close>: the position and the block; the way is the associativity when there is none.\<close>

definition blk_matches :: "guest_id \<Rightarrow> addr \<Rightarrow> bool \<Rightarrow> cache_blk \<Rightarrow> bool" where
  "blk_matches guest tag is_secure b =
     (cb_tag b = tag \<and> blk_isValid b \<and> blk_getGuestID b = guest \<and> blk_isSecure b = is_secure)"

fun findBlk_loop :: "(nat \<Rightarrow> cache_blk) \<Rightarrow> guest_id \<Rightarrow> addr \<Rightarrow> bool \<Rightarrow> nat \<Rightarrow> nat list \<Rightarrow> nat \<times> nat option" where
  "findBlk_loop deref guest tag sec i [] = (i, None)"
| "findBlk_loop deref guest tag sec i (p # ps) =
     (if blk_matches guest tag sec (deref p) then (i, Some p)
      else findBlk_loop deref guest tag sec (i + 1) ps)"

definition findBlk :: "(nat \<Rightarrow> cache_blk) \<Rightarrow> guest_id \<Rightarrow> addr \<Rightarrow> bool \<Rightarrow> nat list \<Rightarrow> nat \<times> nat option" where
  "findBlk deref guest tag sec ps = findBlk_loop deref guest tag sec 0 ps"

text \<open>
  The \<^verbatim>\<open>do ... while (next != blk)\<close> loop: \<open>nxt\<close> is written into the current slot and the old
  contents of the slot become the next value to write; running past the array fails the
  assertion.
\<close>

fun swap_loop :: "'p \<Rightarrow> 'p \<Rightarrow> 'p list \<Rightarrow> 'p list result" where
  "swap_loop blk nxt [] = Inl AssertFail"
| "swap_loop blk nxt (x # xs) =
     (if x = blk then Inr (nxt # xs)
      else rbind (swap_loop blk x xs) (\<lambda>ys. Inr (nxt # ys)))"

definition moveToHead :: "'p \<Rightarrow> 'p list \<Rightarrow> 'p list result" where
  "moveToHead blk blks =
     rbind (vec_get blks 0) (\<lambda>b0. if b0 = blk then Inr blks else swap_loop blk blk blks)"

definition moveToTail :: "'p \<Rightarrow> 'p list \<Rightarrow> 'p list result" where
  "moveToTail blk blks =
     rbind (vec_get blks (length blks - 1)) (\<lambda>bn.
       if bn = blk then Inr blks
       else rbind (swap_loop blk blk (rev blks)) (\<lambda>ys. Inr (rev ys)))"

section \<open>The loops as list operations\<close>

lemma findBlk_loop_find: "snd (findBlk_loop deref guest tag sec i ps) = find (\<lambda>p. blk_matches guest tag sec (deref p)) ps"
  by (induction ps arbitrary: i) auto

lemma findBlk_find: "snd (findBlk deref guest tag sec ps) = find (\<lambda>p. blk_matches guest tag sec (deref p)) ps"
  by (simp add: findBlk_def findBlk_loop_find)

lemma findBlk_way:
  "findBlk deref guest tag sec ps = (w, r) \<Longrightarrow>
   (case r of None \<Rightarrow> w = length ps | Some p \<Rightarrow> w < length ps \<and> ps ! w = p)"
proof -
  have "findBlk_loop deref guest tag sec i ps = (w, r) \<Longrightarrow>
     (case r of None \<Rightarrow> w = i + length ps | Some p \<Rightarrow> i \<le> w \<and> w < i + length ps \<and> ps ! (w - i) = p)" for i
    by (induction ps arbitrary: i) (fastforce split: if_splits option.splits simp: nth_Cons')+
  from this [of 0] show "findBlk deref guest tag sec ps = (w, r) \<Longrightarrow> ?thesis"
    by (auto simp: findBlk_def split: option.splits)
qed

lemma swap_loop_member:
  "blk \<in> set xs \<Longrightarrow> swap_loop blk nxt xs = Inr (nxt # remove1 blk xs)"
  by (induction xs arbitrary: nxt) auto

lemma swap_loop_absent: "blk \<notin> set xs \<Longrightarrow> swap_loop blk nxt xs = Inl AssertFail"
  by (induction xs arbitrary: nxt) auto

lemma moveToHead_member: "blk \<in> set xs \<Longrightarrow> moveToHead blk xs = Inr (blk # remove1 blk xs)"
  by (cases xs) (auto simp: moveToHead_def swap_loop_member)

lemma moveToHead_absent: "blk \<notin> set xs \<Longrightarrow> xs \<noteq> [] \<Longrightarrow> moveToHead blk xs = Inl AssertFail"
  by (cases xs) (auto simp: moveToHead_def swap_loop_absent)

lemma rev_remove1_rev: "distinct xs \<Longrightarrow> rev (remove1 x (rev xs)) = remove1 x xs"
  by (simp add: distinct_remove1_removeAll removeAll_filter_not_eq rev_filter)

lemma moveToTail_member:
  assumes "blk \<in> set xs" "distinct xs"
  shows "moveToTail blk xs = Inr (remove1 blk xs @ [blk])"
proof (cases "last xs = blk")
  case True
  obtain ys where xs: "xs = ys @ [blk]" using assms(1) True by (metis append_butlast_last_id empty_iff empty_set)
  then show ?thesis using assms(2) by (simp add: moveToTail_def remove1_append nth_append)
next
  case False
  then have "vec_get xs (length xs - 1) = Inr (last xs)"
    using assms(1) by (cases xs) (auto simp: last_conv_nth)
  then show ?thesis
    using False assms by (simp add: moveToTail_def swap_loop_member rev_remove1_rev)
qed

section \<open>The contract of a recency order\<close>

text \<open>
  A recency order keeps its members and moves one of them to the front (most recent) or to
  the back. What a replacement policy relies on follows from the two laws: after a sequence
  of touches the victim at the back is the member that was not touched.
\<close>

locale recency_order =
  fixes order :: "'q \<Rightarrow> 'b list" and inv :: "'q \<Rightarrow> bool"
    and touch :: "'b \<Rightarrow> 'q \<Rightarrow> 'q result" and demote :: "'b \<Rightarrow> 'q \<Rightarrow> 'q result"
  assumes distinct_order: "inv q \<Longrightarrow> distinct (order q)"
    and touch_law: "inv q \<Longrightarrow> b \<in> set (order q) \<Longrightarrow>
      \<exists>q'. touch b q = Inr q' \<and> inv q' \<and> order q' = b # remove1 b (order q)"
    and demote_law: "inv q \<Longrightarrow> b \<in> set (order q) \<Longrightarrow>
      \<exists>q'. demote b q = Inr q' \<and> inv q' \<and> order q' = remove1 b (order q) @ [b]"
begin

primrec touch_all :: "'b list \<Rightarrow> 'q \<Rightarrow> 'q result" where
  "touch_all [] q = Inr q"
| "touch_all (b # bs) q = rbind (touch b q) (touch_all bs)"

lemma touch_members:
  assumes "inv q" "b \<in> set (order q)" "touch b q = Inr q'"
  shows "inv q'" "set (order q') = set (order q)" "order q' = b # remove1 b (order q)"
  using touch_law [OF assms(1,2)] assms(2,3) distinct_order [OF assms(1)] by (auto simp: set_remove1_eq)

lemma touch_all_total:
  assumes "inv q" "set bs \<subseteq> set (order q)"
  shows "\<exists>q'. touch_all bs q = Inr q' \<and> inv q' \<and> set (order q') = set (order q)"
  using assms
proof (induction bs arbitrary: q)
  case (Cons b bs)
  then obtain q1 where q1: "touch b q = Inr q1" using touch_law [of q b] by auto
  have m: "inv q1" "set (order q1) = set (order q)"
    using touch_members [OF Cons.prems(1) _ q1] Cons.prems(2) by auto
  show ?case using Cons.IH [OF m(1)] Cons.prems(2) by (simp add: q1 m(2))
qed simp

text \<open>An untouched member keeps every other untouched member on its side.\<close>

lemma victim_is_untouched:
  assumes "inv q" "v \<in> set (order q)" "v \<notin> set bs" "set (order q) \<subseteq> insert v (set bs)"
    and "set bs \<subseteq> set (order q)" "touch_all bs q = Inr q'"
  shows "last (order q') = v"
proof -
  have "\<exists>pre post. order q' = pre @ v # post \<and> set pre = set bs \<union> set pre0 \<and> set post = set post0 - set bs"
    if "inv q" "order q = pre0 @ v # post0" "v \<notin> set bs" "set bs \<subseteq> set (order q)" "touch_all bs q = Inr q'"
    for q q' pre0 post0 bs
    using that
  proof (induction bs arbitrary: q pre0 post0)
    case (Cons b bs)
    obtain q1 where q1: "touch b q = Inr q1" "touch_all bs q1 = Inr q'"
      using Cons.prems(5) by (auto elim: rbind_InrE)
    have b: "b \<in> set (order q)" "b \<noteq> v" using Cons.prems(3,4) by auto
    note m = touch_members [OF Cons.prems(1) b(1) q1(1)]
    have d: "distinct (pre0 @ v # post0)" using distinct_order [OF Cons.prems(1)] Cons.prems(2) by simp
    have "remove1 b post0 = post0" if "b \<in> set pre0"
      using d that by (intro remove1_idem) auto
    then have "order q1 = (b # remove1 b pre0) @ v # remove1 b post0"
      using b(2) d m(3) Cons.prems(2) remove1_idem [of b pre0] by (auto simp: remove1_append)
    from Cons.IH [OF m(1) this _ _ q1(2)] Cons.prems(3,4) m(2)
    obtain pre post where "order q' = pre @ v # post" "set pre = set bs \<union> set (b # remove1 b pre0)"
      "set post = set (remove1 b post0) - set bs" by auto
    then show ?case using d by (auto simp: set_remove1_eq)
  qed auto
  moreover obtain pre0 post0 where q: "order q = pre0 @ v # post0"
    using assms(2) by (meson split_list)
  ultimately obtain pre post where o: "order q' = pre @ v # post" "set post = set post0 - set bs"
    using assms(1,3,5,6) by blast
  have "v \<notin> set post0" using distinct_order [OF assms(1)] q by simp
  then have "set post = {}" using o(2) q assms(4) by auto
  then show ?thesis using o(1) by simp
qed

end

interpretation cset: recency_order "\<lambda>q. q" distinct moveToHead moveToTail
  by unfold_locales
     (auto simp: moveToHead_member moveToTail_member set_remove1_eq)

end
