(* ===== verification/Cp_Network.thy ===== *)
theory Cp_Network
  imports Packet
begin

text \<open>
  The control-plane network: \<^verbatim>\<open>hyper/gm/CPConnector.cc\<close> (the register window through which
  the global manager programs one managed resource) and \<^verbatim>\<open>hyper/gm/CPAdaptor.cc\<close> (the PCI
  device that gives the manager access to the connectors). The virtual methods \<^verbatim>\<open>get\<close> and
  \<^verbatim>\<open>set\<close> of \<^verbatim>\<open>ManagedResource\<close> (\<^verbatim>\<open>hyper/arch/glomgr.hh\<close>) are arguments of the
  definitions; the locale below states what a resource promises.
\<close>

section \<open>ManagedResource\<close>

type_synonym 'r res_get = "'r \<Rightarrow> ldom_id \<Rightarrow> u32 \<Rightarrow> ('r \<times> u64) result"
type_synonym 'r res_set = "'r \<Rightarrow> ldom_id \<Rightarrow> u32 \<Rightarrow> u64 \<Rightarrow> 'r result"

section \<open>CPConnector\<close>

text \<open>
  The register file is the 32 bytes of \<^verbatim>\<open>CPConnRegs\<close>: \<^verbatim>\<open>cpType\<close> at 0, \<^verbatim>\<open>cpIdent\<close> at 4,
  \<^verbatim>\<open>cpCmd\<close> at 16, \<^verbatim>\<open>cpState\<close> at 17, \<^verbatim>\<open>cpLDomID\<close> at 18, \<^verbatim>\<open>cpDestAddr\<close> at 20 and
  \<^verbatim>\<open>cpData\<close> at 24, all little-endian.
\<close>

record 'r cp_connector =
  cc_devID :: int
  cc_regs :: "u8 list"
  cc_resource :: "'r option"

definition cpCmd :: "'r cp_connector \<Rightarrow> u8" where
  "cpCmd c = cc_regs c ! 16"

definition cpLDomID :: "'r cp_connector \<Rightarrow> u16" where
  "cpLDomID c = le_word (take 2 (drop 18 (cc_regs c)))"

definition cpDestAddr :: "'r cp_connector \<Rightarrow> u32" where
  "cpDestAddr c = le_word (take 4 (drop 20 (cc_regs c)))"

definition cpData :: "'r cp_connector \<Rightarrow> u64" where
  "cpData c = le_word (take 8 (drop 24 (cc_regs c)))"

definition set_cpData :: "u64 \<Rightarrow> 'r cp_connector \<Rightarrow> 'r cp_connector" where
  "set_cpData v c = c\<lparr>cc_regs := take 24 (cc_regs c) @ le_bytes 8 v\<rparr>"

definition strncpy12 :: "u8 list \<Rightarrow> u8 list" where
  "strncpy12 str = take 12 (str @ replicate 12 0)"

definition CPConnector :: "int \<Rightarrow> u32 \<Rightarrow> u8 list \<Rightarrow> 'r cp_connector" where
  "CPConnector cp_dev ty ident =
     \<lparr>cc_devID = cp_dev,
      cc_regs = le_bytes 4 ty @ strncpy12 ident @ replicate 16 0xFF,
      cc_resource = None\<rparr>"

definition cpc_registerManagedResource :: "'r \<Rightarrow> 'r cp_connector \<Rightarrow> 'r cp_connector result" where
  "cpc_registerManagedResource res c =
     (if cc_resource c \<noteq> None then Inl Panic else Inr (c\<lparr>cc_resource := Some res\<rparr>))"

text \<open>gem5's \<^verbatim>\<open>RangeEx(base, base+31)\<close> as a pair of its first and last address.\<close>

definition cpc_getAddrRanges :: "'r cp_connector \<Rightarrow> addr \<times> addr" where
  "cpc_getAddrRanges c = (let base = of_int (cc_devID c * 32) in (base, base + 31 - 1))"

definition cpc_offset_ok :: "addr \<Rightarrow> bool" where
  "cpc_offset_ok off = (off \<in> {0, 4, 8, 16, 17, 18, 20, 24})"

text \<open>The part of \<^verbatim>\<open>recvAtomic\<close> under \<^verbatim>\<open>special for cpCmd register\<close>.\<close>

definition cpc_command :: "'r res_get \<Rightarrow> 'r res_set \<Rightarrow> 'r cp_connector \<Rightarrow> 'r cp_connector result" where
  "cpc_command rget rset c =
     (if cpCmd c = 0x47 then
        (case cc_resource c of None \<Rightarrow> Inl BadAccess
         | Some r \<Rightarrow> rbind (rget r (cpLDomID c) (cpDestAddr c)) (\<lambda>(r', v).
             Inr (set_cpData v (c\<lparr>cc_resource := Some r'\<rparr>))))
      else if cpCmd c = 0x53 then
        (case cc_resource c of None \<Rightarrow> Inl BadAccess
         | Some r \<Rightarrow> rbind (rset r (cpLDomID c) (cpDestAddr c) (cpData c)) (\<lambda>r'.
             Inr (c\<lparr>cc_resource := Some r'\<rparr>)))
      else Inr (c\<lparr>cc_regs := (cc_regs c)[16 := 0xFF]\<rparr>))"

definition cpc_recvAtomic ::
  "'r res_get \<Rightarrow> 'r res_set \<Rightarrow> 'r cp_connector \<Rightarrow> packet \<Rightarrow> ('r cp_connector \<times> packet \<times> tick) result" where
  "cpc_recvAtomic rget rset c p =
     (let off = pk_addr p - of_int (cc_devID c * 32) in
      rbind (sim_assert (cpc_offset_ok off)) (\<lambda>_.
      rbind (sim_assert (pk_size p \<in> {1, 2, 4, 8})) (\<lambda>_.
      rbind (if isRead (pk_cmd p) then
               rbind (setData (cc_regs c) (uint off) p) (\<lambda>p'. Inr (c, p'))
             else if isWrite (pk_cmd p) then
               rbind (writeData p (cc_regs c) (uint off)) (\<lambda>regs'. Inr (c\<lparr>cc_regs := regs'\<rparr>, p))
             else Inl Panic) (\<lambda>(c1, p1).
      if off = 16 then rbind (cpc_command rget rset c1) (\<lambda>c2. Inr (c2, p1, 3))
      else Inr (c1, p1, 1)))))"

definition cpc_wf :: "'r cp_connector \<Rightarrow> bool" where
  "cpc_wf c = (length (cc_regs c) = 32)"

section \<open>CPAdaptor\<close>

text \<open>
  The adaptor is a PCI device: its base address registers map the packet address to a bar and
  an offset (\<^verbatim>\<open>getBAR\<close> of \<^verbatim>\<open>hyper/dev/pcidev.hh\<close>). Bar 0 holds the command register, whose
  bits 9:0 select a control plane; bar 1 is the window onto the registers of the selected one.
  The port to the control-plane network is the argument \<open>send\<close>.
\<close>

record cp_adaptor =
  ca_command :: u32
  ca_BARAddrs :: "addr list"
  ca_BARSize :: "u32 list"

definition selectCP :: "u32 \<Rightarrow> u32" where
  "selectCP cmd = bits cmd 9 0"

definition isBAR :: "addr list \<Rightarrow> u32 list \<Rightarrow> addr \<Rightarrow> nat \<Rightarrow> bool" where
  "isBAR addrs sizes a bar = (addrs ! bar \<le> a \<and> a < addrs ! bar + ucast (sizes ! bar))"

definition getBAR :: "addr list \<Rightarrow> u32 list \<Rightarrow> addr \<Rightarrow> (nat \<times> addr) option" where
  "getBAR addrs sizes a =
     (case find (isBAR addrs sizes a) [0..<6] of None \<Rightarrow> None | Some b \<Rightarrow> Some (b, a - addrs ! b))"

definition cpRegisterMap :: "(addr \<times> nat) list" where
  "cpRegisterMap = [(0x0, 4), (0x4, 4), (0x8, 8), (0x10, 1), (0x11, 1), (0x12, 2), (0x14, 4), (0x18, 8)]"

definition accessCommand ::
  "cp_adaptor \<Rightarrow> addr \<Rightarrow> nat \<Rightarrow> u8 list \<Rightarrow> bool \<Rightarrow> (cp_adaptor \<times> u8 list) result" where
  "accessCommand ca off sz data rd =
     (if off = 0 then
        rbind (sim_assert (sz = 4)) (\<lambda>_.
          if rd then rbind (mem_write data 0 (le_bytes 4 (ca_command ca))) (\<lambda>d. Inr (ca, d))
          else rbind (mem_read data 0 4) (\<lambda>bs. Inr (ca\<lparr>ca_command := le_word bs\<rparr>, data)))
      else Inl Panic)"

definition accessData ::
  "('n \<Rightarrow> packet \<Rightarrow> ('n \<times> packet \<times> tick) result) \<Rightarrow> 'n \<Rightarrow> cp_adaptor \<Rightarrow> addr \<Rightarrow> nat \<Rightarrow> u8 list \<Rightarrow> bool
   \<Rightarrow> ('n \<times> u8 list) result" where
  "accessData send net ca off sz data rd =
     (case find (\<lambda>(base, _). off = base) cpRegisterMap of
        None \<Rightarrow> Inl Panic
      | Some (_, n) \<Rightarrow>
        if sz \<noteq> n then Inl Panic
        else
          let paddr = ucast (selectCP (ca_command ca)) * 32 + off;
              req = \<lparr>rq_paddr = paddr, rq_size = sz, rq_secure = False, rq_qosTag = None,
                     rq_uncacheable = True, rq_llsc = False, rq_condSwap = False, rq_instFetch = False, rq_contextId = 0, rq_masterId = 1,
                     rq_taskId = TASK_UNKNOWN, rq_extraData = None\<rparr>
          in
          rbind (dataStatic data (mk_packet req (if rd then ReadReq else WriteReq))) (\<lambda>p.
          rbind (send net p) (\<lambda>(net', p', _).
            case pk_data p' of None \<Rightarrow> Inl BadAccess | Some d \<Rightarrow> Inr (net', d))))"

definition dispatchAccess ::
  "u8 list \<Rightarrow> ('n \<Rightarrow> packet \<Rightarrow> ('n \<times> packet \<times> tick) result) \<Rightarrow> 'n \<Rightarrow> cp_adaptor \<Rightarrow> packet \<Rightarrow> bool
   \<Rightarrow> ('n \<times> cp_adaptor \<times> packet) result" where
  "dispatchAccess junk send net ca p rd =
     (case getBAR (ca_BARAddrs ca) (ca_BARSize ca) (pk_addr p) of
        None \<Rightarrow> Inl Panic
      | Some (bar, a) \<Rightarrow>
        rbind (pkt_allocate junk p) (\<lambda>p1.
        if pk_size p1 \<notin> {1, 2, 4, 8} then Inl Panic
        else
          rbind (getPtr p1) (\<lambda>d0.
          rbind (if bar = 0 then rbind (accessCommand ca a (pk_size p1) d0 rd) (\<lambda>(ca', d). Inr (net, ca', d))
                 else if bar = 1 then
                   rbind (accessData send net ca a (pk_size p1) d0 rd) (\<lambda>(net', d). Inr (net', ca, d))
                 else Inl Panic) (\<lambda>(net', ca', d).
          rbind (makeResponse (p1\<lparr>pk_data := Some d\<rparr>)) (\<lambda>p2. Inr (net', ca', p2))))))"

section \<open>The register window\<close>

lemma CPConnector_wf: "cpc_wf (CPConnector dev ty ident)"
  by (simp add: cpc_wf_def CPConnector_def strncpy12_def min_def)

lemma set_cpData_wf: "cpc_wf c \<Longrightarrow> cpc_wf (set_cpData v c)"
  by (simp add: cpc_wf_def set_cpData_def min_def)

lemma cpData_set_cpData: "cpc_wf c \<Longrightarrow> cpData (set_cpData v c) = v"
  by (simp add: cpc_wf_def cpData_def set_cpData_def le_word_bytes)

lemma offset_bound:
  assumes "cpc_offset_ok off" "n \<in> {1, 2, 4, 8}"
  shows "unat off + n \<le> 32"
  using assms by (auto simp: cpc_offset_ok_def)

lemma writeData_ok:
  assumes "has_buffer p d" "nat off + length d \<le> length dst" "0 \<le> off"
  shows "writeData p dst off = mem_write dst off d"
  using assms by (simp add: writeData_def has_bufferD mem_read_def)

lemma setData_ok:
  assumes "has_buffer p d" "nat off + pk_size p \<le> length src" "0 \<le> off"
  shows "setData src off p = Inr (p\<lparr>pk_data := Some (take (pk_size p) (drop (nat off) src))\<rparr>)"
  using assms by (simp add: setData_def has_bufferD mem_read_def mem_write_def)

text \<open>An accepted access never leaves the register file.\<close>

lemma cpc_write_regs:
  assumes "cpc_wf c" "has_buffer p d" "cpc_offset_ok off" "pk_size p \<in> {1, 2, 4, 8}"
    and "isWrite (pk_cmd p)" "\<not> isRead (pk_cmd p)" "pk_addr p = of_int (cc_devID c * 32) + off"
  shows "\<exists>regs. mem_write (cc_regs c) (uint off) d = Inr regs \<and> length regs = 32 \<and>
    cpc_recvAtomic rget rset c p =
      (if off = 16 then rbind (cpc_command rget rset (c\<lparr>cc_regs := regs\<rparr>)) (\<lambda>c2. Inr (c2, p, 3))
       else Inr (c\<lparr>cc_regs := regs\<rparr>, p, 1))"
proof -
  have "nat (uint off) + length d \<le> length (cc_regs c)"
    using assms offset_bound [OF assms(3,4)] has_bufferD(3) [OF assms(2)] by (simp add: cpc_wf_def)
  then obtain regs where regs: "mem_write (cc_regs c) (uint off) d = Inr regs"
    and w: "writeData p (cc_regs c) (uint off) = Inr regs"
    using writeData_ok [OF assms(2)] by (auto simp: mem_write_def)
  moreover have "length regs = 32"
    using mem_write_length [OF regs] assms(1) by (simp add: cpc_wf_def)
  ultimately show ?thesis
    using assms(3-7) by (simp add: cpc_recvAtomic_def Let_def rbind_assert)
qed

lemma cpc_read_regs:
  assumes "cpc_wf c" "has_buffer p d" "cpc_offset_ok off" "pk_size p \<in> {1, 2, 4, 8}"
    and "isRead (pk_cmd p)" "pk_addr p = of_int (cc_devID c * 32) + off"
  shows "cpc_recvAtomic rget rset c p =
    (let p1 = p\<lparr>pk_data := Some (take (pk_size p) (drop (unat off) (cc_regs c)))\<rparr> in
     if off = 16 then rbind (cpc_command rget rset c) (\<lambda>c2. Inr (c2, p1, 3)) else Inr (c, p1, 1))"
proof -
  have "nat (uint off) + pk_size p \<le> length (cc_regs c)"
    using assms offset_bound [OF assms(3,4)] by (simp add: cpc_wf_def)
  then have "setData (cc_regs c) (uint off) p =
      Inr (p\<lparr>pk_data := Some (take (pk_size p) (drop (unat off) (cc_regs c)))\<rparr>)"
    using setData_ok [OF assms(2), of "uint off"] by simp
  then show ?thesis
    using assms(3-6) by (simp add: cpc_recvAtomic_def Let_def rbind_assert)
qed

section \<open>The contract of a managed resource\<close>

text \<open>
  What the manager relies on: on the programmable locations \<open>param d a\<close>, a \<^verbatim>\<open>set\<close> succeeds,
  a \<^verbatim>\<open>get\<close> returns what was last set, and a \<^verbatim>\<open>set\<close> for one domain does not change what
  another domain reads.
\<close>

locale managed_resource =
  fixes rget :: "'r res_get" and rset :: "'r res_set"
    and rinv :: "'r \<Rightarrow> bool" and param :: "'r \<Rightarrow> ldom_id \<Rightarrow> u32 \<Rightarrow> bool"
    and peek :: "'r \<Rightarrow> ldom_id \<Rightarrow> u32 \<Rightarrow> u64"
  assumes get_peek: "rinv r \<Longrightarrow> param r d a \<Longrightarrow> \<exists>r'. rget r d a = Inr (r', peek r d a) \<and> rinv r'"
    and set_ok: "rinv r \<Longrightarrow> param r d a \<Longrightarrow> \<exists>r'. rset r d a v = Inr r' \<and> rinv r' \<and>
          (\<forall>d' a'. param r' d' a' = param r d' a') \<and> peek r' d a = v \<and>
          (\<forall>d' a'. param r d' a' \<longrightarrow> d' \<noteq> d \<longrightarrow> peek r' d' a' = peek r d' a')"
begin

lemma command_set:
  assumes "cpc_wf c" "cpCmd c = 0x53" "cc_resource c = Some r" "rinv r"
    and "param r (cpLDomID c) (cpDestAddr c)"
  shows "\<exists>r'. cpc_command rget rset c = Inr (c\<lparr>cc_resource := Some r'\<rparr>) \<and> rinv r' \<and>
    param r' (cpLDomID c) (cpDestAddr c) \<and> peek r' (cpLDomID c) (cpDestAddr c) = cpData c \<and>
    (\<forall>d' a'. param r d' a' \<longrightarrow> d' \<noteq> cpLDomID c \<longrightarrow> peek r' d' a' = peek r d' a')"
  using set_ok [OF assms(4,5), of "cpData c"] assms(2,3,5) by (auto simp: cpc_command_def)

lemma command_get:
  assumes "cpc_wf c" "cpCmd c = 0x47" "cc_resource c = Some r" "rinv r"
    and "param r (cpLDomID c) (cpDestAddr c)"
  shows "\<exists>c'. cpc_command rget rset c = Inr c' \<and> cpc_wf c' \<and>
    cpData c' = peek r (cpLDomID c) (cpDestAddr c)"
proof -
  obtain r' where "rget r (cpLDomID c) (cpDestAddr c) = Inr (r', peek r (cpLDomID c) (cpDestAddr c))"
    using get_peek [OF assms(4,5)] by blast
  then show ?thesis
    using assms(1-3) by (auto simp: cpc_command_def cpc_wf_def intro!: set_cpData_wf [unfolded cpc_wf_def]
        cpData_set_cpData [unfolded cpc_wf_def])
qed

text \<open>Programming and reading back: an \<^verbatim>\<open>S\<close> command followed by a \<^verbatim>\<open>G\<close> command.\<close>

lemma set_then_get:
  assumes "cpc_wf c" "cpCmd c = 0x53" "cc_resource c = Some r" "rinv r"
    and "param r (cpLDomID c) (cpDestAddr c)" "cpc_command rget rset c = Inr c1"
    and "c2 = c1\<lparr>cc_regs := (cc_regs c1)[16 := 0x47]\<rparr>"
  shows "\<exists>c3. cpc_command rget rset c2 = Inr c3 \<and> cpData c3 = cpData c"
proof -
  obtain r' where r': "c1 = c\<lparr>cc_resource := Some r'\<rparr>" "rinv r'" "param r' (cpLDomID c) (cpDestAddr c)"
    "peek r' (cpLDomID c) (cpDestAddr c) = cpData c"
    using command_set [OF assms(1-5)] assms(6) by auto
  have len: "length (cc_regs c) = 32" using assms(1) by (simp add: cpc_wf_def)
  have same: "cpc_wf c2" "cpCmd c2 = 0x47" "cc_resource c2 = Some r'" "cpLDomID c2 = cpLDomID c"
    "cpDestAddr c2 = cpDestAddr c"
    using len by (simp_all add: assms(7) r'(1) cpc_wf_def cpCmd_def cpLDomID_def cpDestAddr_def)
  then show ?thesis using command_get [of c2 r'] r'(2-4) by auto
qed

end

end
