(* ===== verification/Lru_Tags.thy ===== *)
theory Lru_Tags
  imports Cache_Set Cp_Network
begin

text \<open>
  The way-partitioned LRU tag store, \<^verbatim>\<open>hyper/mem/cache/tags/lru.cc\<close> and \<^verbatim>\<open>lru.hh\<close> with the
  fields of \<^verbatim>\<open>BaseTags\<close>. The array \<^verbatim>\<open>blks\<close> of all blocks is a list; the pointers in the
  sets are indices into it. The tag store is a managed resource: the manager programs the way
  mask of every guest through it.
\<close>

section \<open>State\<close>

record lru_geometry =
  lg_blkSize :: nat
  lg_assoc :: nat
  lg_numSets :: nat
  lg_hitLatency :: nat
  lg_sequentialAccess :: bool
  lg_setShift :: nat
  lg_tagShift :: nat
  lg_setMask :: u32
  lg_blkMask :: u32
  lg_maxMasters :: nat
  lg_warmupBound :: int

record tag_stats =
  ts_warmedUp :: bool
  ts_warmupCycle :: tick
  ts_tagsInUse :: int
  ts_replacements :: nat
  ts_totalRefs :: nat
  ts_sampledRefs :: nat
  ts_occupancies :: "int list"
  ts_tagAccesses :: nat
  ts_dataAccesses :: nat
  ts_occupanciesTaskId :: "nat list"
  ts_ageTaskId :: "nat list list"
  ts_guestCapacity :: "u64 list"

record lru =
  lr_geom :: lru_geometry
  lr_waymasks :: "u64 list"
  lr_sets :: "nat list list"
  lr_blks :: "cache_blk list"
  lr_stats :: tag_stats

section \<open>Construction\<close>

definition NumTaskId :: nat where "NumTaskId = 1025"

definition init_blk :: "nat \<Rightarrow> nat \<Rightarrow> nat \<Rightarrow> cache_blk" where
  "init_blk blkSize assoc k =
     (blk_invalidate (CacheBlk (replicate blkSize 0) 0))
     \<lparr>cb_tag := of_nat (k mod assoc), cb_whenReady := 0, cb_isTouched := False, cb_size := blkSize,
      cb_set := int (k div assoc), cb_way := k mod assoc\<rparr>"

definition LRU :: "u64 \<Rightarrow> u64 \<Rightarrow> u64 \<Rightarrow> nat \<Rightarrow> bool \<Rightarrow> u64 list \<Rightarrow> nat \<Rightarrow> nat \<Rightarrow> lru result" where
  "LRU sz blkSize assoc hitLatency sequentialAccess waymasks maxMasters numGuests =
     (let numSets = sz div (blkSize * assoc) in
      if blkSize * assoc = 0 then Inl BadAccess
      else if blkSize < 4 \<or> \<not> isPowerOf2 blkSize then Inl Fatal
      else if numSets = 0 \<or> \<not> isPowerOf2 numSets then Inl Fatal
      else if assoc = 0 then Inl Fatal
      else if hitLatency = 0 then Inl Fatal
      else
        rbind (floorLog2 blkSize) (\<lambda>setShift.
        rbind (floorLog2 numSets) (\<lambda>setBits.
          Inr \<lparr>lr_geom = \<lparr>lg_blkSize = unat blkSize, lg_assoc = unat assoc, lg_numSets = unat numSets,
                 lg_hitLatency = hitLatency, lg_sequentialAccess = sequentialAccess,
                 lg_setShift = setShift, lg_tagShift = setShift + setBits,
                 lg_setMask = ucast (numSets - 1), lg_blkMask = ucast (blkSize - 1),
                 lg_maxMasters = maxMasters, lg_warmupBound = int (unat numSets * unat assoc)\<rparr>,
               lr_waymasks = waymasks,
               lr_sets = map (\<lambda>i. [i * unat assoc ..< i * unat assoc + unat assoc]) [0 ..< unat numSets],
               lr_blks = map (init_blk (unat blkSize) (unat assoc)) [0 ..< unat numSets * unat assoc],
               lr_stats = \<lparr>ts_warmedUp = False, ts_warmupCycle = 0, ts_tagsInUse = 0,
                 ts_replacements = 0, ts_totalRefs = 0, ts_sampledRefs = 0,
                 ts_occupancies = replicate maxMasters 0, ts_tagAccesses = 0, ts_dataAccesses = 0,
                 ts_occupanciesTaskId = replicate NumTaskId 0,
                 ts_ageTaskId = replicate NumTaskId (replicate 5 0),
                 ts_guestCapacity = replicate numGuests 0\<rparr>\<rparr>)))"

section \<open>Address decomposition\<close>

definition extractTag :: "lru_geometry \<Rightarrow> addr \<Rightarrow> addr" where
  "extractTag g a = drop_bit (lg_tagShift g) a"

definition extractSet :: "lru_geometry \<Rightarrow> addr \<Rightarrow> nat" where
  "extractSet g a = unat (drop_bit (lg_setShift g) a AND ucast (lg_setMask g))"

definition extractBlkOffset :: "lru_geometry \<Rightarrow> addr \<Rightarrow> nat" where
  "extractBlkOffset g a = unat (a AND ucast (lg_blkMask g))"

definition blkAlign :: "lru_geometry \<Rightarrow> addr \<Rightarrow> addr" where
  "blkAlign g a = a AND NOT (ucast (lg_blkMask g))"

definition regenerateBlkAddr :: "lru_geometry \<Rightarrow> addr \<Rightarrow> nat \<Rightarrow> addr" where
  "regenerateBlkAddr g tag set_ix =
     push_bit (lg_tagShift g) tag OR push_bit (lg_setShift g) (of_nat set_ix)"

section \<open>Operations\<close>

definition get_set :: "lru \<Rightarrow> nat \<Rightarrow> nat list result" where
  "get_set l i = vec_get (lr_sets l) i"

definition upd_blk :: "nat \<Rightarrow> (cache_blk \<Rightarrow> cache_blk) \<Rightarrow> lru \<Rightarrow> lru" where
  "upd_blk i f l = l\<lparr>lr_blks := (lr_blks l)[i := f (lr_blks l ! i)]\<rparr>"

definition upd_set :: "nat \<Rightarrow> (nat list \<Rightarrow> nat list result) \<Rightarrow> lru \<Rightarrow> lru result" where
  "upd_set i f l =
     rbind (get_set l i) (\<lambda>ps. rbind (f ps) (\<lambda>ps'. Inr (l\<lparr>lr_sets := (lr_sets l)[i := ps']\<rparr>)))"

definition upd_stats :: "(tag_stats \<Rightarrow> tag_stats) \<Rightarrow> lru \<Rightarrow> lru" where
  "upd_stats f l = l\<lparr>lr_stats := f (lr_stats l)\<rparr>"

definition findBlock :: "lru \<Rightarrow> guest_id \<Rightarrow> addr \<Rightarrow> bool \<Rightarrow> nat option result" where
  "findBlock l guest a sec =
     rbind (get_set l (extractSet (lr_geom l) a)) (\<lambda>ps.
       Inr (snd (findBlk (\<lambda>i. lr_blks l ! i) guest (extractTag (lr_geom l) a) sec ps)))"

text \<open>The tag and data access counters of \<^verbatim>\<open>accessBlock\<close>.\<close>

definition access_stats :: "bool \<Rightarrow> lru \<Rightarrow> lru" where
  "access_stats hit l =
     (let g = lr_geom l in
      upd_stats (\<lambda>s. s\<lparr>ts_tagAccesses := ts_tagAccesses s + lg_assoc g,
         ts_dataAccesses := ts_dataAccesses s +
           (if lg_sequentialAccess g then (if hit then 1 else 0) else lg_assoc g)\<rparr>) l)"

definition accessBlock ::
  "(tick \<Rightarrow> nat) \<Rightarrow> tick \<Rightarrow> lru \<Rightarrow> guest_id \<Rightarrow> addr \<Rightarrow> bool \<Rightarrow> (lru \<times> nat option \<times> nat) result" where
  "accessBlock ticksToCycles now l guest a sec =
     (let g = lr_geom l; set_ix = extractSet g a; tag = extractTag g a in
      rbind (get_set l set_ix) (\<lambda>ps.
        case snd (findBlk (\<lambda>i. lr_blks l ! i) guest tag sec ps) of
          None \<Rightarrow> Inr (access_stats False l, None, lg_hitLatency g)
        | Some b \<Rightarrow>
            rbind (upd_set set_ix (moveToHead b) (access_stats True l)) (\<lambda>l2.
              let ready = cb_whenReady (lr_blks l ! b);
                  lat = (if ready > now \<and> ticksToCycles (ready - now) > lg_hitLatency g
                         then ticksToCycles (ready - now) else lg_hitLatency g)
              in Inr (upd_blk b (\<lambda>x. x\<lparr>cb_refCount := cb_refCount x + 1\<rparr>) l2, Some b, lat))))"

text \<open>
  \<^verbatim>\<open>(1<<blk->way) & waymask\<close>: the shift is done at 32 bits and sign-extended.
\<close>

definition way_bit :: "nat \<Rightarrow> u64" where
  "way_bit way = scast (push_bit way 1 :: 32 word)"

text \<open>The scan from the LRU end; without a way of the mask it ends with the MRU block.\<close>

fun victim_scan :: "(nat \<Rightarrow> cache_blk) \<Rightarrow> u64 \<Rightarrow> nat option \<Rightarrow> nat list \<Rightarrow> nat option" where
  "victim_scan deref waymask blk [] = blk"
| "victim_scan deref waymask blk (p # ps) =
     (if way_bit (cb_way (deref p)) AND waymask \<noteq> 0 then Some p
      else victim_scan deref waymask (Some p) ps)"

definition findVictim :: "lru \<Rightarrow> guest_id \<Rightarrow> addr \<Rightarrow> nat result" where
  "findVictim l guest a =
     rbind (vec_get (lr_waymasks l) (unat guest)) (\<lambda>waymask.
     rbind (sim_assert (waymask \<noteq> 0)) (\<lambda>_.
     rbind (get_set l (extractSet (lr_geom l) a)) (\<lambda>ps.
       case victim_scan (\<lambda>i. lr_blks l ! i) waymask None (rev ps) of
         None \<Rightarrow> Inl BadAccess | Some b \<Rightarrow> Inr b)))"

definition occ_add :: "nat \<Rightarrow> int \<Rightarrow> tag_stats \<Rightarrow> tag_stats" where
  "occ_add m d s = s\<lparr>ts_occupancies := (ts_occupancies s)[m := ts_occupancies s ! m + d]\<rparr>"

definition insert_touch :: "tick \<Rightarrow> nat \<Rightarrow> lru \<Rightarrow> lru" where
  "insert_touch now blk l =
     (if \<not> cb_isTouched (lr_blks l ! blk) then
        upd_stats (\<lambda>s.
            let s1 = s\<lparr>ts_tagsInUse := ts_tagsInUse s + 1\<rparr> in
            if \<not> ts_warmedUp s1 \<and> ts_tagsInUse s1 \<ge> lg_warmupBound (lr_geom l)
            then s1\<lparr>ts_warmedUp := True, ts_warmupCycle := now\<rparr> else s1)
          (upd_blk blk (\<lambda>b. b\<lparr>cb_isTouched := True\<rparr>) l)
      else l)"

definition insert_evict :: "nat \<Rightarrow> lru \<Rightarrow> lru result" where
  "insert_evict blk l =
     (let b = lr_blks l ! blk in
      if blk_isValid b then
        rbind (sim_assert (cb_srcMasterId b < lg_maxMasters (lr_geom l))) (\<lambda>_.
          Inr (upd_blk blk (\<lambda>b. blk_invalidate (b\<lparr>cb_refCount := 0\<rparr>))
            (upd_stats (\<lambda>s. occ_add (cb_srcMasterId b) (- 1)
                (s\<lparr>ts_replacements := ts_replacements s + 1,
                   ts_totalRefs := ts_totalRefs s + cb_refCount b,
                   ts_sampledRefs := ts_sampledRefs s + 1\<rparr>)) l)))
      else Inr l)"

text \<open>Guest, tag and secure bit of the incoming block; the caller sets the other status bits.\<close>

definition fill_blk :: "lru_geometry \<Rightarrow> guest_id \<Rightarrow> packet \<Rightarrow> cache_blk \<Rightarrow> cache_blk" where
  "fill_blk g guest pkt b =
     (let b1 = (blk_setGuestID guest (b\<lparr>cb_isTouched := True\<rparr>))\<lparr>cb_tag := extractTag g (pk_addr pkt)\<rparr>
      in if pk_isSecure pkt then b1\<lparr>cb_status := cb_status b1 OR BlkSecure\<rparr> else b1)"

definition insertBlock :: "tick \<Rightarrow> lru \<Rightarrow> guest_id \<Rightarrow> packet \<Rightarrow> nat \<Rightarrow> lru result" where
  "insertBlock now l guest pkt blk =
     (let g = lr_geom l; a = pk_addr pkt; master_id = rq_masterId (pk_req pkt) in
      if blk \<ge> length (lr_blks l) then Inl BadAccess
      else
        rbind (insert_evict blk (insert_touch now blk l)) (\<lambda>l2.
        let l3 = upd_blk blk (fill_blk g guest pkt) l2 in
        rbind (sim_assert (master_id < lg_maxMasters g)) (\<lambda>_.
        let l4 = upd_blk blk (\<lambda>b. b\<lparr>cb_srcMasterId := master_id, cb_task_id := rq_taskId (pk_req pkt),
                                    cb_tickInserted := now\<rparr>)
                   (upd_stats (occ_add master_id 1) l3)
        in
        rbind (upd_set (extractSet g a) (moveToHead blk) l4) (\<lambda>l5.
          Inr (upd_stats (\<lambda>s. s\<lparr>ts_tagAccesses := ts_tagAccesses s + 1,
                                ts_dataAccesses := ts_dataAccesses s + 1\<rparr>) l5)))))"

definition lru_invalidate :: "tick \<Rightarrow> lru \<Rightarrow> nat \<Rightarrow> lru result" where
  "lru_invalidate now l blk =
     rbind (vec_get (lr_blks l) blk) (\<lambda>b.
     rbind (sim_assert (blk_isValid b)) (\<lambda>_.
     rbind (sim_assert (cb_srcMasterId b < lg_maxMasters (lr_geom l))) (\<lambda>_.
       let l1 = upd_stats (\<lambda>s. occ_add (cb_srcMasterId b) (- 1) (s\<lparr>ts_tagsInUse := ts_tagsInUse s - 1\<rparr>)) l;
           l2 = upd_blk blk (\<lambda>b. blk_setGuestID ALL_GUEST
                  (b\<lparr>cb_srcMasterId := INVLD_MASTER_ID, cb_task_id := TASK_UNKNOWN,
                     cb_tickInserted := now\<rparr>)) l1
       in if cb_set b < 0 then Inl BadAccess else upd_set (nat (cb_set b)) (moveToTail blk) l2)))"

definition clearLocks :: "lru \<Rightarrow> lru" where
  "clearLocks l = l\<lparr>lr_blks := map (clearLoadLocks None) (lr_blks l)\<rparr>"

definition cleanupRefs :: "lru \<Rightarrow> lru" where
  "cleanupRefs l =
     upd_stats (\<lambda>s. foldl (\<lambda>s b. if blk_isValid b
         then s\<lparr>ts_totalRefs := ts_totalRefs s + cb_refCount b, ts_sampledRefs := ts_sampledRefs s + 1\<rparr>
         else s) s (lr_blks l)) l"

definition age_index :: "tick \<Rightarrow> nat" where
  "age_index age =
     (if age div 1000000 < 10 then 0 else if age div 1000000 < 100 then 1
      else if age div 1000000000 < 1 then 2 else if age div 1000000000 < 10 then 3 else 4)"

fun computeStats_loop :: "tick \<Rightarrow> cache_blk list \<Rightarrow> tag_stats \<Rightarrow> tag_stats result" where
  "computeStats_loop now [] s = Inr s"
| "computeStats_loop now (b # bs) s =
     (if blk_isValid b then
        let t = unat (cb_task_id b); gid = unat (blk_getGuestID b); ai = age_index (now - cb_tickInserted b) in
        rbind (sim_assert (t < NumTaskId)) (\<lambda>_.
        rbind (sim_assert (gid < length (ts_guestCapacity s))) (\<lambda>_.
          computeStats_loop now bs
            (s\<lparr>ts_occupanciesTaskId := (ts_occupanciesTaskId s)[t := ts_occupanciesTaskId s ! t + 1],
               ts_ageTaskId := (ts_ageTaskId s)[t := (ts_ageTaskId s ! t)[ai := ts_ageTaskId s ! t ! ai + 1]],
               ts_guestCapacity := (ts_guestCapacity s)[gid := ts_guestCapacity s ! gid + 1]\<rparr>)))
      else computeStats_loop now bs s)"

definition computeStats :: "tick \<Rightarrow> lru \<Rightarrow> lru result" where
  "computeStats now l =
     rbind (computeStats_loop now (lr_blks l)
              ((lr_stats l)\<lparr>ts_occupanciesTaskId := replicate NumTaskId 0,
                            ts_ageTaskId := replicate NumTaskId (replicate 5 0)\<rparr>))
       (\<lambda>s. Inr (l\<lparr>lr_stats := s\<rparr>))"

section \<open>Managed resource interface\<close>

text \<open>The textual interface: the mask is the result of \<^verbatim>\<open>atol\<close> on the value.\<close>

definition lru_set_tag :: "lru \<Rightarrow> u64 \<Rightarrow> int \<Rightarrow> u64 \<Rightarrow> lru result" where
  "lru_set_tag l tag idx m =
     (if idx = 0
      then rbind (vec_set (lr_waymasks l) (unat (QOSTAG_TO_GUESTID tag)) m) (\<lambda>w. Inr (l\<lparr>lr_waymasks := w\<rparr>))
      else Inr l)"

definition lru_query :: "lru \<Rightarrow> u64 \<Rightarrow> int \<Rightarrow> u64 option result" where
  "lru_query l tag idx =
     (if idx \<noteq> 0 then Inr None
      else rbind (vec_get (lr_waymasks l) (unat (QOSTAG_TO_GUESTID tag))) (\<lambda>m. Inr (Some m)))"

definition lru_set :: "lru res_set" where
  "lru_set l ldomID destAddr data =
     (if destAddr = 0
      then rbind (vec_set (lr_waymasks l) (unat ldomID) data) (\<lambda>w. Inr (l\<lparr>lr_waymasks := w\<rparr>))
      else Inr l)"

definition lru_get :: "tick \<Rightarrow> lru res_get" where
  "lru_get now l ldomID destAddr =
     (if destAddr = 0 then
        Inr (l, if unat ldomID \<ge> length (lr_waymasks l) then - 1 else lr_waymasks l ! unat ldomID)
      else if destAddr = 8 then
        rbind (computeStats now l) (\<lambda>l'.
          Inr (l', if unat ldomID \<ge> length (ts_guestCapacity (lr_stats l')) then - 1
                   else ts_guestCapacity (lr_stats l') ! unat ldomID))
      else if destAddr = 16 then Inr (l, 44)
      else if destAddr = 24 then Inr (l, 88)
      else Inr (l, 0))"

section \<open>Well-formed geometries\<close>

definition lg_wf :: "lru_geometry \<Rightarrow> bool" where
  "lg_wf g = (lg_setShift g < 32 \<and> lg_setShift g \<le> lg_tagShift g \<and> lg_tagShift g < lg_setShift g + 32 \<and>
     lg_tagShift g < 64 \<and>
     lg_blkSize g = 2 ^ lg_setShift g \<and> lg_numSets g = 2 ^ (lg_tagShift g - lg_setShift g) \<and>
     lg_setMask g = mask (lg_tagShift g - lg_setShift g) \<and> lg_blkMask g = mask (lg_setShift g) \<and>
     0 < lg_assoc g)"

lemma ucast_mask32: "n \<le> 32 \<Longrightarrow> (ucast (mask n :: u32) :: u64) = mask n"
  by (rule bit_word_eqI) (auto simp: bit_simps)

lemma lg_wfD:
  assumes "lg_wf g"
  shows "(ucast (lg_setMask g) :: u64) = mask (lg_tagShift g - lg_setShift g)"
    "(ucast (lg_blkMask g) :: u64) = mask (lg_setShift g)"
    "lg_setShift g < 32" "lg_setShift g \<le> lg_tagShift g" "lg_tagShift g < 64"
    "lg_tagShift g < lg_setShift g + 32" "0 < lg_assoc g"
    "lg_numSets g = 2 ^ (lg_tagShift g - lg_setShift g)" "lg_blkSize g = 2 ^ lg_setShift g"
proof -
  show "(ucast (lg_setMask g) :: u64) = mask (lg_tagShift g - lg_setShift g)"
    using assms by (subst ucast_mask32 [symmetric]) (auto simp: lg_wf_def)
  show "(ucast (lg_blkMask g) :: u64) = mask (lg_setShift g)"
    using assms ucast_mask32 [of "lg_setShift g"] by (simp add: lg_wf_def)
qed (use assms in \<open>simp_all add: lg_wf_def\<close>)

lemma extractSet_eq:
  "lg_wf g \<Longrightarrow> extractSet g a = unat (take_bit (lg_tagShift g - lg_setShift g) (drop_bit (lg_setShift g) a))"
  by (simp add: extractSet_def lg_wfD take_bit_eq_mask)

lemma extractSet_less: "lg_wf g \<Longrightarrow> extractSet g a < lg_numSets g"
  by (simp add: extractSet_eq unat_take_bit lg_wfD)

lemma of_nat_extractBlkOffset: "lg_wf g \<Longrightarrow> of_nat (extractBlkOffset g a) = take_bit (lg_setShift g) a"
  by (simp add: extractBlkOffset_def lg_wfD take_bit_eq_mask)

lemma extractBlkOffset_less: "lg_wf g \<Longrightarrow> extractBlkOffset g a < lg_blkSize g"
  by (simp add: extractBlkOffset_def lg_wfD unat_take_bit flip: take_bit_eq_mask)

lemma regenerate_extract:
  assumes "lg_wf g"
  shows "regenerateBlkAddr g (extractTag g a) (extractSet g a) = blkAlign g a"
proof (rule bit_word_eqI)
  fix n assume n: "n < LENGTH(64)"
  let ?s = "lg_setShift g" and ?t = "lg_tagShift g"
  note g = lg_wfD [OF assms]
  have "(of_nat (extractSet g a) :: u64) = take_bit (?t - ?s) (drop_bit ?s a)"
    using assms by (simp add: extractSet_eq)
  then show "bit (regenerateBlkAddr g (extractTag g a) (extractSet g a)) n = bit (blkAlign g a) n"
    using n g(3-5) by (cases "?t \<le> n")
      (auto simp: regenerateBlkAddr_def extractTag_def blkAlign_def g(2) bit_simps)
qed

lemma blkAlign_offset:
  assumes "lg_wf g"
  shows "blkAlign g a + of_nat (extractBlkOffset g a) = a"
proof -
  have "blkAlign g a = roundDown a (2 ^ lg_setShift g)"
    using assms by (simp add: blkAlign_def roundDown_def lg_wfD flip: mask_eq_exp_minus_1)
  then show ?thesis using assms by (simp add: roundDown_eq of_nat_extractBlkOffset)
qed

lemma extract_regenerate:
  assumes "lg_wf g" "unat tag < 2 ^ (64 - lg_tagShift g)" "i < lg_numSets g"
  shows "extractTag g (regenerateBlkAddr g tag i) = tag" "extractSet g (regenerateBlkAddr g tag i) = i"
proof -
  let ?s = "lg_setShift g" and ?t = "lg_tagShift g"
  have g: "?s < 32" "?s \<le> ?t" "?t < 64" "?t < ?s + 32" "i < 2 ^ (?t - ?s)" using assms by (auto simp: lg_wf_def)
  have tag: "take_bit (64 - ?t) tag = tag" using assms(2) by (rule take_bit_self)
  then have tb: "bit tag n \<Longrightarrow> n < 64 - ?t" for n by (metis bit_take_bit_iff)
  have "(2 :: nat) ^ (?t - ?s) \<le> 2 ^ 64" using g(3) by (intro power_increasing) simp_all
  then have ilt: "i < 2 ^ LENGTH(64)" using g(5) by simp
  have ib: "bit i n \<Longrightarrow> n < ?t - ?s" for n
    using g(5) by (metis bit_take_bit_iff take_bit_nat_eq_self)
  show "extractTag g (regenerateBlkAddr g tag i) = tag"
    by (rule bit_word_eqI) (use g in \<open>auto simp: extractTag_def regenerateBlkAddr_def bit_simps dest: tb ib\<close>)
  have "take_bit (?t - ?s) (drop_bit ?s (regenerateBlkAddr g tag i)) = of_nat i"
    by (rule bit_word_eqI) (use g in \<open>auto simp: regenerateBlkAddr_def bit_simps dest: tb ib\<close>)
  then show "extractSet g (regenerateBlkAddr g tag i) = i"
    using assms(1) unat_of_nat_lt [OF ilt] by (simp add: extractSet_eq)
qed
section \<open>Invariant\<close>

text \<open>
  The blocks of set \<open>i\<close> are the \<open>assoc\<close> consecutive entries of the block array, each
  exactly once in the recency list of the set, and every block knows its set and way.
\<close>

definition blk_ok :: "lru_geometry \<Rightarrow> nat \<Rightarrow> cache_blk \<Rightarrow> bool" where
  "blk_ok g k b = (cb_way b = k mod lg_assoc g \<and> cb_set b = int (k div lg_assoc g))"

definition set_blocks :: "lru_geometry \<Rightarrow> nat \<Rightarrow> nat set" where
  "set_blocks g i = {i * lg_assoc g ..< i * lg_assoc g + lg_assoc g}"

definition lru_inv :: "lru \<Rightarrow> bool" where
  "lru_inv l = (lg_wf (lr_geom l) \<and>
     length (lr_sets l) = lg_numSets (lr_geom l) \<and>
     (\<forall>i < lg_numSets (lr_geom l). distinct (lr_sets l ! i) \<and> set (lr_sets l ! i) = set_blocks (lr_geom l) i) \<and>
     length (lr_blks l) = lg_numSets (lr_geom l) * lg_assoc (lr_geom l) \<and>
     (\<forall>k < length (lr_blks l). blk_ok (lr_geom l) k (lr_blks l ! k)))"

lemma lru_inv_set:
  fixes a :: addr
  assumes "lru_inv l"
  defines "i \<equiv> extractSet (lr_geom l) a"
  shows "get_set l i = Inr (lr_sets l ! i)" "i < length (lr_sets l)" "distinct (lr_sets l ! i)"
    "set (lr_sets l ! i) = set_blocks (lr_geom l) i" "lr_sets l ! i \<noteq> []"
proof -
  have i: "i < lg_numSets (lr_geom l)" and assoc: "0 < lg_assoc (lr_geom l)"
    using assms(1) extractSet_less [of "lr_geom l" a] lg_wfD(7) by (auto simp: i_def lru_inv_def)
  show "i < length (lr_sets l)" "distinct (lr_sets l ! i)"
    "set (lr_sets l ! i) = set_blocks (lr_geom l) i"
    using assms(1) i by (auto simp: lru_inv_def)
  then show "get_set l i = Inr (lr_sets l ! i)" "lr_sets l ! i \<noteq> []"
    using assoc by (auto simp: get_set_def set_blocks_def)
qed

lemma set_blocks_member:
  assumes "lru_inv l" "i < lg_numSets (lr_geom l)" "k \<in> set_blocks (lr_geom l) i"
  shows "k < length (lr_blks l)" "k div lg_assoc (lr_geom l) = i"
proof -
  let ?n = "lg_assoc (lr_geom l)"
  have k: "i * ?n \<le> k" "k < i * ?n + ?n" using assms(3) by (auto simp: set_blocks_def)
  have "k < Suc i * ?n" using k by simp
  also have "\<dots> \<le> lg_numSets (lr_geom l) * ?n" using assms(2) by (intro mult_le_mono1) simp
  finally show "k < length (lr_blks l)" using assms(1) by (simp add: lru_inv_def)
  show "k div ?n = i" using k by (intro div_nat_eqI) (simp_all add: mult.commute)
qed

lemma lru_inv_blk: "lru_inv l \<Longrightarrow> k < length (lr_blks l) \<Longrightarrow> blk_ok (lr_geom l) k (lr_blks l ! k)"
  by (simp add: lru_inv_def)

subsection \<open>Preservation\<close>

lemma upd_stats_inv [simp]: "lru_inv (upd_stats f l) = lru_inv l"
  "lr_sets (upd_stats f l) = lr_sets l" "lr_blks (upd_stats f l) = lr_blks l"
  "lr_geom (upd_stats f l) = lr_geom l" "lr_waymasks (upd_stats f l) = lr_waymasks l"
  by (simp_all add: upd_stats_def lru_inv_def)

lemma access_stats_inv [simp]: "lru_inv (access_stats hit l) = lru_inv l"
  "lr_sets (access_stats hit l) = lr_sets l" "lr_blks (access_stats hit l) = lr_blks l"
  "lr_geom (access_stats hit l) = lr_geom l" "lr_waymasks (access_stats hit l) = lr_waymasks l"
  by (simp_all add: access_stats_def Let_def)

lemma upd_blk_simps [simp]: "lr_sets (upd_blk k f l) = lr_sets l" "lr_geom (upd_blk k f l) = lr_geom l"
  "lr_waymasks (upd_blk k f l) = lr_waymasks l" "lr_stats (upd_blk k f l) = lr_stats l"
  "length (lr_blks (upd_blk k f l)) = length (lr_blks l)"
  "j \<noteq> k \<Longrightarrow> lr_blks (upd_blk k f l) ! j = lr_blks l ! j"
  "k < length (lr_blks l) \<Longrightarrow> lr_blks (upd_blk k f l) ! k = f (lr_blks l ! k)"
  by (simp_all add: upd_blk_def)

lemma upd_blk_inv:
  assumes "lru_inv l" "k < length (lr_blks l) \<Longrightarrow> blk_ok (lr_geom l) k (f (lr_blks l ! k))"
  shows "lru_inv (upd_blk k f l)"
  using assms unfolding lru_inv_def
  by (cases "k < length (lr_blks l)") (auto simp: upd_blk_def nth_list_update list_update_beyond)

lemma upd_set_move_head:
  assumes "lru_inv l" "i < lg_numSets (lr_geom l)" "b \<in> set_blocks (lr_geom l) i"
  shows "\<exists>l'. upd_set i (moveToHead b) l = Inr l' \<and> lru_inv l' \<and>
    l' = l\<lparr>lr_sets := (lr_sets l)[i := b # remove1 b (lr_sets l ! i)]\<rparr>"
proof -
  have i: "i < length (lr_sets l)" "distinct (lr_sets l ! i)" "set (lr_sets l ! i) = set_blocks (lr_geom l) i"
    using assms by (auto simp: lru_inv_def)
  have "upd_set i (moveToHead b) l = Inr (l\<lparr>lr_sets := (lr_sets l)[i := b # remove1 b (lr_sets l ! i)]\<rparr>)"
    using i assms(3) by (simp add: upd_set_def get_set_def moveToHead_member)
  moreover have "lru_inv (l\<lparr>lr_sets := (lr_sets l)[i := b # remove1 b (lr_sets l ! i)]\<rparr>)"
    using assms i by (auto simp: lru_inv_def nth_list_update set_remove1_eq)
  ultimately show ?thesis by blast
qed

lemma upd_set_move_tail:
  assumes "lru_inv l" "i < lg_numSets (lr_geom l)" "b \<in> set_blocks (lr_geom l) i"
  shows "\<exists>l'. upd_set i (moveToTail b) l = Inr l' \<and> lru_inv l' \<and>
    l' = l\<lparr>lr_sets := (lr_sets l)[i := remove1 b (lr_sets l ! i) @ [b]]\<rparr>"
proof -
  have i: "i < length (lr_sets l)" "distinct (lr_sets l ! i)" "set (lr_sets l ! i) = set_blocks (lr_geom l) i"
    using assms by (auto simp: lru_inv_def)
  have "upd_set i (moveToTail b) l = Inr (l\<lparr>lr_sets := (lr_sets l)[i := remove1 b (lr_sets l ! i) @ [b]]\<rparr>)"
    using i assms(3) by (simp add: upd_set_def get_set_def moveToTail_member)
  moreover have "lru_inv (l\<lparr>lr_sets := (lr_sets l)[i := remove1 b (lr_sets l ! i) @ [b]]\<rparr>)"
    using assms i by (auto simp: lru_inv_def nth_list_update set_remove1_eq)
  ultimately show ?thesis by blast
qed

lemma blk_ok_frame:
  "blk_ok g k b \<Longrightarrow> cb_way b' = cb_way b \<Longrightarrow> cb_set b' = cb_set b \<Longrightarrow> blk_ok g k b'"
  by (simp add: blk_ok_def)

lemma findBlock_SomeD:
  assumes "lru_inv l" "findBlock l guest a sec = Inr (Some k)"
  shows "k \<in> set_blocks (lr_geom l) (extractSet (lr_geom l) a)"
    "blk_matches guest (extractTag (lr_geom l) a) sec (lr_blks l ! k)"
  using assms lru_inv_set [OF assms(1), of a]
  by (auto simp: findBlock_def findBlk_find dest!: find_SomeD)

lemma accessBlock_ok:
  assumes "lru_inv l"
  shows "\<exists>l' r lat. accessBlock t2c now l guest a sec = Inr (l', r, lat) \<and> lru_inv l' \<and>
    findBlock l guest a sec = Inr r \<and> (r = None \<longrightarrow> lr_sets l' = lr_sets l) \<and>
    (\<forall>b. r = Some b \<longrightarrow> hd (lr_sets l' ! extractSet (lr_geom l) a) = b)"
proof -
  let ?g = "lr_geom l" and ?i = "extractSet (lr_geom l) a"
  note S = lru_inv_set [OF assms, of a]
  define r where "r = snd (findBlk (\<lambda>i. lr_blks l ! i) guest (extractTag ?g a) sec (lr_sets l ! ?i))"
  have f: "findBlock l guest a sec = Inr r" by (simp add: findBlock_def S r_def)
  show ?thesis
  proof (cases r)
    case None
    then show ?thesis using assms f by (simp add: accessBlock_def Let_def S r_def)
  next
    case (Some b)
    have b: "b \<in> set_blocks ?g ?i" using findBlock_SomeD(1) [OF assms] f Some by simp
    have i: "?i < lg_numSets ?g" using assms S(2) by (simp add: lru_inv_def)
    obtain l2 where l2: "upd_set ?i (moveToHead b) (access_stats True l) = Inr l2" "lru_inv l2"
      "lr_sets l2 = (lr_sets l)[?i := b # remove1 b (lr_sets l ! ?i)]"
      using upd_set_move_head [of "access_stats True l" ?i b] assms i b by auto
    have "lru_inv (upd_blk b (\<lambda>x. x\<lparr>cb_refCount := cb_refCount x + 1\<rparr>) l2)"
      using l2(2) lru_inv_blk [OF l2(2), of b] by (intro upd_blk_inv) (auto intro: blk_ok_frame)
    then show ?thesis
      using f Some l2 S(2) by (simp add: accessBlock_def Let_def S r_def)
  qed
qed

subsection \<open>Insertion\<close>

text \<open>What insertion and invalidation leave alone.\<close>

definition same_frame :: "nat \<Rightarrow> lru \<Rightarrow> lru \<Rightarrow> bool" where
  "same_frame blk l l' =
     (lr_geom l' = lr_geom l \<and> lr_waymasks l' = lr_waymasks l \<and>
      length (lr_blks l') = length (lr_blks l) \<and> (\<forall>k. k \<noteq> blk \<longrightarrow> lr_blks l' ! k = lr_blks l ! k))"

lemma same_frame_refl [simp]: "same_frame blk l l"
  by (simp add: same_frame_def)

lemma same_frame_trans: "same_frame blk l l1 \<Longrightarrow> same_frame blk l1 l2 \<Longrightarrow> same_frame blk l l2"
  by (simp add: same_frame_def)

lemma same_frame_upd [simp]: "same_frame blk l (upd_blk blk f l)" "same_frame blk l (upd_stats h l)"
  "same_frame blk l (l\<lparr>lr_sets := ss\<rparr>)"
  by (simp_all add: same_frame_def)

lemma insert_touch_ok:
  assumes "lru_inv l"
  shows "lru_inv (insert_touch now blk l)" "same_frame blk l (insert_touch now blk l)"
    "lr_sets (insert_touch now blk l) = lr_sets l"
    "cb_status (lr_blks (insert_touch now blk l) ! blk) = cb_status (lr_blks l ! blk)"
    "cb_srcMasterId (lr_blks (insert_touch now blk l) ! blk) = cb_srcMasterId (lr_blks l ! blk)"
proof -
  have "lru_inv (upd_blk blk (\<lambda>b. b\<lparr>cb_isTouched := True\<rparr>) l)"
    using assms by (rule upd_blk_inv) (rule blk_ok_frame [OF lru_inv_blk [OF assms]], simp_all)
  then show "lru_inv (insert_touch now blk l)" using assms by (simp add: insert_touch_def)
  show "same_frame blk l (insert_touch now blk l)"
    by (auto simp: insert_touch_def intro: same_frame_trans [OF same_frame_upd(1) same_frame_upd(2)])
  show "lr_sets (insert_touch now blk l) = lr_sets l" by (simp add: insert_touch_def)
  show "cb_status (lr_blks (insert_touch now blk l) ! blk) = cb_status (lr_blks l ! blk)"
    "cb_srcMasterId (lr_blks (insert_touch now blk l) ! blk) = cb_srcMasterId (lr_blks l ! blk)"
    by (cases "blk < length (lr_blks l)"; simp add: insert_touch_def upd_blk_def list_update_beyond)+
qed

text \<open>An invalid block carries no stale secure bit.\<close>

definition clean_blk :: "cache_blk \<Rightarrow> bool" where
  "clean_blk b = (blk_isValid b \<or> \<not> blk_isSecure b)"

lemma insert_evict_ok:
  assumes "lru_inv l" "blk < length (lr_blks l)" "clean_blk (lr_blks l ! blk)"
    and "blk_isValid (lr_blks l ! blk) \<Longrightarrow> cb_srcMasterId (lr_blks l ! blk) < lg_maxMasters (lr_geom l)"
  shows "\<exists>l'. insert_evict blk l = Inr l' \<and> lru_inv l' \<and> same_frame blk l l' \<and> lr_sets l' = lr_sets l \<and>
    \<not> blk_isValid (lr_blks l' ! blk) \<and> \<not> blk_isSecure (lr_blks l' ! blk)"
proof (cases "blk_isValid (lr_blks l ! blk)")
  case True
  let ?f = "\<lambda>b. blk_invalidate (b\<lparr>cb_refCount := 0\<rparr>)"
  let ?h = "\<lambda>s. occ_add (cb_srcMasterId (lr_blks l ! blk)) (- 1)
      (s\<lparr>ts_replacements := ts_replacements s + 1, ts_totalRefs := ts_totalRefs s + cb_refCount (lr_blks l ! blk),
         ts_sampledRefs := ts_sampledRefs s + 1\<rparr>)"
  let ?l = "upd_stats ?h l"
  have "lru_inv ?l" using assms(1) by simp
  then have "lru_inv (upd_blk blk ?f ?l)"
    by (rule upd_blk_inv)
       (rule blk_ok_frame [OF lru_inv_blk [OF \<open>lru_inv ?l\<close>]], simp_all add: blk_invalidate_def clearLoadLocks_def)
  moreover have "insert_evict blk l = Inr (upd_blk blk ?f ?l)"
    using True assms(4) by (simp add: insert_evict_def Let_def rbind_assert)
  moreover have "same_frame blk l (upd_blk blk ?f ?l)"
    by (rule same_frame_trans [OF same_frame_upd(2) same_frame_upd(1)])
  ultimately show ?thesis
    using assms(2) by (auto simp: blk_invalidate_not_valid)
next
  case False
  then show ?thesis using assms(1,3) by (simp add: insert_evict_def clean_blk_def)
qed

lemma fill_blk_fields:
  "cb_way (fill_blk g guest pkt b) = cb_way b" "cb_set (fill_blk g guest pkt b) = cb_set b"
  "cb_tag (fill_blk g guest pkt b) = extractTag g (pk_addr pkt)"
  "blk_getGuestID (fill_blk g guest pkt b) = take_bit 8 guest"
  "blk_isValid (fill_blk g guest pkt b) = blk_isValid b"
  "blk_isSecure (fill_blk g guest pkt b) = (blk_isSecure b \<or> pk_isSecure pkt)"
proof -
  have *: "blk_getGuestID (blk_setGuestID guest (b\<lparr>cb_isTouched := True\<rparr>)) = take_bit 8 guest"
    by (rule blk_guest_set_get)
  then show "blk_getGuestID (fill_blk g guest pkt b) = take_bit 8 guest"
    by (simp add: fill_blk_def Let_def blk_getGuestID_def)
  show "blk_isValid (fill_blk g guest pkt b) = blk_isValid b"
    "blk_isSecure (fill_blk g guest pkt b) = (blk_isSecure b \<or> pk_isSecure pkt)"
    by (simp_all add: fill_blk_def Let_def status_bits blk_setGuestID_frame bit_simps)
       (simp_all add: BlkSecure_def)
qed (simp_all add: fill_blk_def Let_def blk_setGuestID_frame)

text \<open>
  The caller's side: the block is one of the set of the packet's address, and the requestors
  recorded in the block and in the packet are known ones.
\<close>

definition insert_pre :: "lru \<Rightarrow> packet \<Rightarrow> nat \<Rightarrow> bool" where
  "insert_pre l pkt blk =
     (blk \<in> set_blocks (lr_geom l) (extractSet (lr_geom l) (pk_addr pkt)) \<and> clean_blk (lr_blks l ! blk) \<and>
      (blk_isValid (lr_blks l ! blk) \<longrightarrow> cb_srcMasterId (lr_blks l ! blk) < lg_maxMasters (lr_geom l)) \<and>
      rq_masterId (pk_req pkt) < lg_maxMasters (lr_geom l))"

lemma insertBlock_ok:
  fixes pkt :: packet
  defines "a \<equiv> pk_addr pkt"
  assumes "lru_inv l" and pre: "insert_pre l pkt blk"
  shows "\<exists>l'. insertBlock now l guest pkt blk = Inr l' \<and> lru_inv l' \<and> same_frame blk l l' \<and>
    lr_sets l' = (lr_sets l)[extractSet (lr_geom l) a :=
        blk # remove1 blk (lr_sets l ! extractSet (lr_geom l) a)] \<and>
    cb_tag (lr_blks l' ! blk) = extractTag (lr_geom l) a \<and>
    blk_getGuestID (lr_blks l' ! blk) = take_bit 8 guest \<and>
    blk_isSecure (lr_blks l' ! blk) = pk_isSecure pkt \<and> \<not> blk_isValid (lr_blks l' ! blk)"
proof -
  let ?g = "lr_geom l" and ?i = "extractSet (lr_geom l) a"
  have i: "?i < lg_numSets ?g" using assms(2) extractSet_less by (auto simp: lru_inv_def)
  have pre: "blk \<in> set_blocks ?g ?i" "clean_blk (lr_blks l ! blk)" "rq_masterId (pk_req pkt) < lg_maxMasters ?g"
    "blk_isValid (lr_blks l ! blk) \<Longrightarrow> cb_srcMasterId (lr_blks l ! blk) < lg_maxMasters ?g"
    using pre by (auto simp: insert_pre_def a_def)
  note k = set_blocks_member(1) [OF assms(2) i pre(1)]
  note T = insert_touch_ok [OF assms(2), where now = now and blk = blk]
  have "clean_blk (lr_blks (insert_touch now blk l) ! blk)"
    using pre(2) T(4) by (simp add: clean_blk_def blk_isValid_def blk_isSecure_def)
  moreover have tf: "lr_geom (insert_touch now blk l) = ?g" "blk < length (lr_blks (insert_touch now blk l))"
    using T(2) k by (auto simp: same_frame_def)
  ultimately obtain l2 where l2: "insert_evict blk (insert_touch now blk l) = Inr l2" "lru_inv l2"
    "same_frame blk (insert_touch now blk l) l2" "lr_sets l2 = lr_sets l"
    "\<not> blk_isValid (lr_blks l2 ! blk)" "\<not> blk_isSecure (lr_blks l2 ! blk)"
    using insert_evict_ok [OF T(1), of blk] T(3-5) pre(4) by (auto simp: blk_isValid_def)
  have f2: "same_frame blk l l2" using same_frame_trans [OF T(2) l2(3)] .
  define l3 where "l3 = upd_stats (occ_add (rq_masterId (pk_req pkt)) 1) (upd_blk blk (fill_blk ?g guest pkt) l2)"
  define l4 where "l4 = upd_blk blk (\<lambda>b. b\<lparr>cb_srcMasterId := rq_masterId (pk_req pkt),
      cb_task_id := rq_taskId (pk_req pkt), cb_tickInserted := now\<rparr>) l3"
  have k2: "blk < length (lr_blks l2)" "lr_geom l2 = ?g" using k f2 by (auto simp: same_frame_def)
  have "lru_inv (upd_blk blk (fill_blk ?g guest pkt) l2)"
    using l2(2) by (rule upd_blk_inv) (rule blk_ok_frame [OF lru_inv_blk [OF l2(2)]], simp_all add: fill_blk_fields)
  then have l3: "lru_inv l3" by (simp add: l3_def)
  then have l4: "lru_inv l4"
    unfolding l4_def by (rule upd_blk_inv) (rule blk_ok_frame [OF lru_inv_blk [OF l3]], simp_all)
  have f4: "same_frame blk l l4"
    unfolding l4_def l3_def using f2 by (simp add: same_frame_def)
  have b4: "lr_sets l4 = lr_sets l" "cb_tag (lr_blks l4 ! blk) = extractTag ?g a"
    "blk_getGuestID (lr_blks l4 ! blk) = take_bit 8 guest"
    "blk_isSecure (lr_blks l4 ! blk) = pk_isSecure pkt" "\<not> blk_isValid (lr_blks l4 ! blk)"
    using k2 l2(4-6) fill_blk_fields [of ?g guest pkt "lr_blks l2 ! blk"]
    by (simp_all add: l4_def l3_def a_def blk_getGuestID_def blk_isSecure_def blk_isValid_def)
  have g4: "lr_geom l4 = ?g" using f4 by (simp add: same_frame_def)
  obtain l5 where l5: "upd_set ?i (moveToHead blk) l4 = Inr l5" "lru_inv l5"
    "l5 = l4\<lparr>lr_sets := (lr_sets l4)[?i := blk # remove1 blk (lr_sets l4 ! ?i)]\<rparr>"
    using upd_set_move_head [OF l4, of ?i blk] i pre(1) g4 by auto
  let ?st = "\<lambda>s. s\<lparr>ts_tagAccesses := ts_tagAccesses s + 1, ts_dataAccesses := ts_dataAccesses s + 1\<rparr>"
  have "insertBlock now l guest pkt blk = Inr (upd_stats ?st l5)"
    using k pre(3) l2(1) l5(1) by (simp add: insertBlock_def Let_def rbind_assert a_def l4_def l3_def)
  moreover have "same_frame blk l (upd_stats ?st l5)"
    using f4 l5(3) by (simp add: same_frame_def)
  ultimately show ?thesis using l5(2,3) b4 by simp
qed

section \<open>Victims and way partitioning\<close>

lemma way_bit_and:
  assumes "w < 31"
  shows "way_bit w AND m \<noteq> 0 \<longleftrightarrow> bit m w"
proof -
  have "(2 :: nat) ^ w < 2 ^ 31" using assms by (rule power_strict_increasing) simp
  then have "(2 :: u64) ^ w < 2 ^ 31"
    using assms by (simp add: word_less_nat_alt unat_power_lower)
  then have "scast (ucast (2 ^ w :: u64) :: 32 word) = (2 ^ w :: u64)" by (rule scast_ucast_small)
  moreover have "(ucast (2 ^ w :: u64) :: 32 word) = push_bit w 1"
    by (rule bit_word_eqI) (auto simp: bit_simps)
  ultimately have "way_bit w = 2 ^ w" by (simp add: way_bit_def)
  then show ?thesis using and_exp_eq_0_iff_not_bit [of m w] by (simp add: and.commute)
qed

lemma victim_scan_find:
  "victim_scan deref m cur ps =
     (case find (\<lambda>p. way_bit (cb_way (deref p)) AND m \<noteq> 0) ps of
        Some p \<Rightarrow> Some p | None \<Rightarrow> if ps = [] then cur else Some (last ps))"
  by (induction ps arbitrary: cur) (auto split: option.splits)

lemma find_rev_split:
  assumes "find P (rev xs) = Some x"
  obtains as bs where "xs = as @ x # bs" "P x" "\<forall>y \<in> set bs. \<not> P y"
proof -
  from assms obtain rest where d: "dropWhile (Not \<circ> P) (rev xs) = x # rest"
    by (auto simp: find_dropWhile split: list.splits)
  have "rev xs = takeWhile (Not \<circ> P) (rev xs) @ x # rest"
    using takeWhile_dropWhile_id [of "Not \<circ> P" "rev xs"] d by simp
  then have "xs = rev rest @ x # rev (takeWhile (Not \<circ> P) (rev xs))"
    by (metis append.assoc append_Cons append_Nil rev.simps(2) rev_append rev_rev_ident)
  moreover have "\<forall>y \<in> set (rev (takeWhile (Not \<circ> P) (rev xs))). \<not> P y"
    by (auto dest: set_takeWhileD)
  ultimately show thesis using that find_SomeD [OF assms] by blast
qed

text \<open>The ways of a guest's mask that exist in the cache.\<close>

definition mask_ways :: "lru \<Rightarrow> guest_id \<Rightarrow> nat set" where
  "mask_ways l guest = {w. w < lg_assoc (lr_geom l) \<and> bit (lr_waymasks l ! unat guest) w}"

lemma findVictim_ok:
  assumes "lru_inv l" "unat guest < length (lr_waymasks l)" "lg_assoc (lr_geom l) \<le> 31"
    and "mask_ways l guest \<noteq> {}"
  shows "\<exists>v. findVictim l guest a = Inr v \<and> v \<in> set_blocks (lr_geom l) (extractSet (lr_geom l) a) \<and>
    cb_way (lr_blks l ! v) \<in> mask_ways l guest \<and>
    (\<exists>as bs. lr_sets l ! extractSet (lr_geom l) a = as @ v # bs \<and>
       (\<forall>p \<in> set bs. cb_way (lr_blks l ! p) \<notin> mask_ways l guest))"
proof -
  let ?g = "lr_geom l" and ?i = "extractSet (lr_geom l) a" and ?m = "lr_waymasks l ! unat guest"
  note S = lru_inv_set [OF assms(1), of a]
  have i: "?i < lg_numSets ?g" using assms(1) S(2) by (simp add: lru_inv_def)
  have way: "cb_way (lr_blks l ! p) = p mod lg_assoc ?g" "p mod lg_assoc ?g < lg_assoc ?g"
    if "p \<in> set (lr_sets l ! ?i)" for p
    using that S(4) set_blocks_member(1) [OF assms(1) i, of p] lru_inv_blk [OF assms(1), of p]
      lg_wfD(7) [of ?g] assms(1) by (auto simp: blk_ok_def lru_inv_def)
  have test: "way_bit (cb_way (lr_blks l ! p)) AND ?m \<noteq> 0 \<longleftrightarrow> cb_way (lr_blks l ! p) \<in> mask_ways l guest"
    if "p \<in> set (lr_sets l ! ?i)" for p
    using way [OF that] assms(3) way_bit_and [of "cb_way (lr_blks l ! p)" ?m] by (auto simp: mask_ways_def)
  obtain w where w: "w < lg_assoc ?g" "bit ?m w" using assms(4) by (auto simp: mask_ways_def)
  then have mnz: "?m \<noteq> 0" by auto
  have "?i * lg_assoc ?g + w \<in> set (lr_sets l ! ?i)"
    using S(4) w(1) by (simp add: set_blocks_def)
  moreover from this have "cb_way (lr_blks l ! (?i * lg_assoc ?g + w)) = w" using way(1) w(1) by simp
  ultimately obtain v where v: "find (\<lambda>p. way_bit (cb_way (lr_blks l ! p)) AND ?m \<noteq> 0) (rev (lr_sets l ! ?i)) = Some v"
    using test w by (metis (mono_tags, lifting) find_None_iff mask_ways_def mem_Collect_eq not_None_eq set_rev)
  then have "victim_scan (\<lambda>i. lr_blks l ! i) ?m None (rev (lr_sets l ! ?i)) = Some v"
    by (simp add: victim_scan_find)
  then have "findVictim l guest a = Inr v"
    using assms(2) S(1) mnz by (simp add: findVictim_def rbind_assert)
  moreover from find_rev_split [OF v] obtain as bs where
    split: "lr_sets l ! ?i = as @ v # bs" "way_bit (cb_way (lr_blks l ! v)) AND ?m \<noteq> 0"
      "\<forall>p \<in> set bs. \<not> way_bit (cb_way (lr_blks l ! p)) AND ?m \<noteq> 0" by metis
  moreover have "v \<in> set (lr_sets l ! ?i)" using split(1) by simp
  ultimately show ?thesis using test S(4) by auto
qed

text \<open>Without a way of the mask in the cache, the victim is the most recently used block.\<close>

lemma findVictim_fallback:
  assumes "lru_inv l" "unat guest < length (lr_waymasks l)" "lg_assoc (lr_geom l) \<le> 31"
    and "mask_ways l guest = {}" "lr_waymasks l ! unat guest \<noteq> 0"
  shows "findVictim l guest a = Inr (hd (lr_sets l ! extractSet (lr_geom l) a))"
proof -
  let ?g = "lr_geom l" and ?i = "extractSet (lr_geom l) a" and ?m = "lr_waymasks l ! unat guest"
  note S = lru_inv_set [OF assms(1), of a]
  have i: "?i < lg_numSets ?g" using assms(1) S(2) by (simp add: lru_inv_def)
  have "\<not> way_bit (cb_way (lr_blks l ! p)) AND ?m \<noteq> 0" if "p \<in> set (lr_sets l ! ?i)" for p
  proof -
    have "cb_way (lr_blks l ! p) < lg_assoc ?g"
      using that S(4) set_blocks_member(1) [OF assms(1) i, of p] lru_inv_blk [OF assms(1), of p]
        lg_wfD(7) [of ?g] assms(1) by (auto simp: blk_ok_def lru_inv_def)
    then show ?thesis using assms(3,4) way_bit_and [of "cb_way (lr_blks l ! p)" ?m] by (auto simp: mask_ways_def)
  qed
  then have "find (\<lambda>p. way_bit (cb_way (lr_blks l ! p)) AND ?m \<noteq> 0) (rev (lr_sets l ! ?i)) = None"
    by (simp add: find_None_iff)
  then show ?thesis
    using assms(2,5) S(1,5) by (simp add: findVictim_def rbind_assert victim_scan_find last_rev)
qed

text \<open>The block found by a guest survives a fill into another block.\<close>

lemma find_remove1_other:
  assumes "find P xs = Some k" "k \<noteq> v" "\<And>p. p \<noteq> v \<Longrightarrow> Q p = P p" "\<not> Q v"
  shows "find Q (v # remove1 v xs) = Some k"
proof -
  have *: "find P ys = Some k \<Longrightarrow> find Q ys = Some k" for ys
    using assms(2-4) by (induction ys) (metis find.simps(1), metis find.simps(2) option.inject)
  have "find P xs = Some k \<Longrightarrow> find Q (remove1 v xs) = Some k"
    using assms(2-4) * by (induction xs) (auto split: if_splits)
  then show ?thesis using assms(1,4) by simp
qed

lemma fill_preserves_other:
  assumes "lru_inv l" "findBlock l g' a' sec = Inr (Some k)" "k \<noteq> v"
    and "insert_pre l pkt v" "insertBlock now l g pkt v = Inr l'" "take_bit 8 g \<noteq> g'"
  shows "findBlock l' g' a' sec = Inr (Some k) \<and> lr_blks l' ! k = lr_blks l ! k"
proof -
  let ?gm = "lr_geom l" and ?i = "extractSet (lr_geom l) (pk_addr pkt)" and ?j = "extractSet (lr_geom l) a'"
  let ?P = "\<lambda>p. blk_matches g' (extractTag ?gm a') sec (lr_blks l ! p)"
  let ?Q = "\<lambda>p. blk_matches g' (extractTag ?gm a') sec (lr_blks l' ! p)"
  have l': "lru_inv l'" "same_frame v l l'" "lr_sets l' = (lr_sets l)[?i := v # remove1 v (lr_sets l ! ?i)]"
    "blk_getGuestID (lr_blks l' ! v) = take_bit 8 g"
    using insertBlock_ok [OF assms(1,4), where now = now and guest = g] assms(5) by auto
  have fr: "lr_geom l' = ?gm" "\<And>p. p \<noteq> v \<Longrightarrow> lr_blks l' ! p = lr_blks l ! p"
    using l'(2) by (auto simp: same_frame_def)
  have f: "find ?P (lr_sets l ! ?j) = Some k"
    using assms(2) lru_inv_set(1) [OF assms(1), of a'] by (simp add: findBlock_def findBlk_find)
  have Q: "\<And>p. p \<noteq> v \<Longrightarrow> ?Q p = ?P p" "\<not> ?Q v"
    using fr(2) l'(4) assms(6) by (auto simp: blk_matches_def)
  have "find ?Q (lr_sets l' ! ?j) = Some k"
  proof (cases "?j = ?i")
    case True
    then show ?thesis
      using find_remove1_other [OF f assms(3) Q] l'(3) lru_inv_set(2) [OF assms(1), of a'] by simp
  next
    case False
    have "v \<notin> set (lr_sets l ! ?j)"
      using lru_inv_set(4) [OF assms(1), of a'] assms(4) [unfolded insert_pre_def] False
        set_blocks_member(2) [OF assms(1), of ?j v] set_blocks_member(2) [OF assms(1), of ?i v]
        extractSet_less assms(1) by (auto simp: lru_inv_def)
    then have "find ?Q (lr_sets l ! ?j) = find ?P (lr_sets l ! ?j)"
      by (intro find_cong refl Q(1)) blast
    then show ?thesis using f False l'(3) by simp
  qed
  then show ?thesis
    using lru_inv_set(1) [OF l'(1), of a'] fr assms(3) by (simp add: findBlock_def findBlk_find)
qed

lemma waymask_isolation_aux:
  assumes "lru_inv l" "findBlock l g' a' sec = Inr (Some k)"
    and "cb_way (lr_blks l ! k) \<in> mask_ways l g'" "mask_ways l g \<inter> mask_ways l g' = {}" "mask_ways l g \<noteq> {}"
    and "unat g < length (lr_waymasks l)" "lg_assoc (lr_geom l) \<le> 31"
    and "findVictim l g (pk_addr pkt) = Inr v"
  shows "k \<noteq> v"
  using findVictim_ok [OF assms(1,6,7,5), of "pk_addr pkt"] assms(3,4,8) by auto

section \<open>Insertion and lookup\<close>

lemma insert_then_find:
  assumes "lru_inv l" "insert_pre l pkt v" "insertBlock now l g pkt v = Inr l'" "g < 256"
  shows "findBlock (upd_blk v (\<lambda>b. b\<lparr>cb_status := cb_status b OR BlkValid\<rparr>) l') g (pk_addr pkt) (pk_isSecure pkt) = Inr (Some v)"
proof -
  let ?i = "extractSet (lr_geom l) (pk_addr pkt)" and ?l = "upd_blk v (\<lambda>b. b\<lparr>cb_status := cb_status b OR BlkValid\<rparr>) l'"
  have l': "lru_inv l'" "same_frame v l l'" "lr_sets l' = (lr_sets l)[?i := v # remove1 v (lr_sets l ! ?i)]"
    "blk_getGuestID (lr_blks l' ! v) = take_bit 8 g" "cb_tag (lr_blks l' ! v) = extractTag (lr_geom l) (pk_addr pkt)"
    "blk_isSecure (lr_blks l' ! v) = pk_isSecure pkt"
    using insertBlock_ok [OF assms(1,2), where now = now and guest = g] assms(3) by auto
  have g: "take_bit 8 g = g" using assms(4) by (intro take_bit_self) (simp add: word_less_nat_alt)
  have i: "?i < length (lr_sets l)" using lru_inv_set(2) [OF assms(1)] .
  have v: "v < length (lr_blks l')"
    using set_blocks_member(1) [OF assms(1), of ?i v] i l'(2) assms(1,2)
    by (simp add: same_frame_def lru_inv_def insert_pre_def)
  have "blk_matches g (extractTag (lr_geom l) (pk_addr pkt)) (pk_isSecure pkt) (lr_blks ?l ! v)"
    using l'(4-6) g v
    by (simp add: blk_matches_def blk_getGuestID_def status_bits bit_simps) (simp add: BlkValid_def)
  moreover have "lr_geom l' = lr_geom l" using l'(2) by (simp add: same_frame_def)
  ultimately show ?thesis
    using i l'(3) by (simp add: findBlock_def get_set_def findBlk_find)
qed

section \<open>Invalidation and construction\<close>

lemma lru_invalidate_ok:
  assumes "lru_inv l" "blk < length (lr_blks l)" "blk_isValid (lr_blks l ! blk)"
    and "cb_srcMasterId (lr_blks l ! blk) < lg_maxMasters (lr_geom l)"
  defines "i \<equiv> blk div lg_assoc (lr_geom l)"
  shows "\<exists>l'. lru_invalidate now l blk = Inr l' \<and> lru_inv l' \<and> same_frame blk l l' \<and>
    last (lr_sets l' ! i) = blk \<and> blk_getGuestID (lr_blks l' ! blk) = ALL_GUEST"
proof -
  let ?g = "lr_geom l"
  let ?h = "\<lambda>s. occ_add (cb_srcMasterId (lr_blks l ! blk)) (- 1) (s\<lparr>ts_tagsInUse := ts_tagsInUse s - 1\<rparr>)"
  let ?f = "\<lambda>b. blk_setGuestID ALL_GUEST
      (b\<lparr>cb_srcMasterId := INVLD_MASTER_ID, cb_task_id := TASK_UNKNOWN, cb_tickInserted := now\<rparr>)"
  let ?l1 = "upd_stats ?h l" and ?l2 = "upd_blk blk ?f (upd_stats ?h l)"
  have assoc: "0 < lg_assoc ?g" using assms(1) lg_wfD(7) by (auto simp: lru_inv_def)
  have bset: "cb_set (lr_blks l ! blk) = int i" using lru_inv_blk [OF assms(1,2)] by (simp add: blk_ok_def i_def)
  have i: "i < lg_numSets ?g" using assms(1,2) assoc by (simp add: i_def lru_inv_def less_mult_imp_div_less)
  have mem: "blk \<in> set_blocks ?g i"
    using assoc dividend_less_div_times [of "lg_assoc ?g" blk] div_times_less_eq_dividend [of blk "lg_assoc ?g"]
    by (auto simp: set_blocks_def i_def add.commute)
  have l1: "lru_inv ?l1" using assms(1) by simp
  have l2: "lru_inv ?l2"
    using l1 by (rule upd_blk_inv) (rule blk_ok_frame [OF lru_inv_blk [OF l1]], simp_all add: blk_setGuestID_frame)
  obtain l3 where l3: "upd_set i (moveToTail blk) ?l2 = Inr l3" "lru_inv l3"
    "l3 = ?l2\<lparr>lr_sets := (lr_sets ?l2)[i := remove1 blk (lr_sets ?l2 ! i) @ [blk]]\<rparr>"
    using upd_set_move_tail [OF l2, of i blk] i mem by auto
  have "lru_invalidate now l blk = Inr l3"
    using assms(2-4) bset l3(1) by (simp add: lru_invalidate_def rbind_assert Let_def)
  moreover have "same_frame blk l l3" using l3(3) by (simp add: same_frame_def)
  moreover have "blk_getGuestID (lr_blks l3 ! blk) = ALL_GUEST"
    using l3(3) assms(2) blk_guest_set_get [of ALL_GUEST]
    by (simp add: ALL_GUEST_def take_bit_eq_mod)
  moreover have "last (lr_sets l3 ! i) = blk"
    using l3(3) i assms(1) by (simp add: lru_inv_def)
  ultimately show ?thesis using l3(2) by blast
qed

lemma clearLocks_inv: "lru_inv l \<Longrightarrow> lru_inv (clearLocks l)"
  by (auto simp: lru_inv_def clearLocks_def blk_ok_def clearLoadLocks_def)

lemma clearLocks_empty: "b \<in> set (lr_blks (clearLocks l)) \<Longrightarrow> cb_lockList b = []"
  by (auto simp: clearLocks_def clearLoadLocks_def)

lemma init_blk_ok: "cb_way (init_blk sz n k) = k mod n" "cb_set (init_blk sz n k) = int (k div n)"
  "\<not> blk_isValid (init_blk sz n k)"
  by (simp_all add: init_blk_def blk_invalidate_def clearLoadLocks_def CacheBlk_def blk_isValid_def)

lemma floorLog2_power: "isPowerOf2 n \<Longrightarrow> \<exists>k < 64. n = 2 ^ k \<and> floorLog2 n = Inr k"
  by (auto simp: isPowerOf2_iff floorLog2_exp)

lemma LRU_inv:
  assumes "LRU sz bs assoc lat sq wm mm ng = Inr l" "bs < 2 ^ 31" "sz < 2 ^ 31"
  shows "lru_inv l"
proof -
  let ?n = "sz div (bs * assoc)"
  have nz: "bs * assoc \<noteq> 0" "assoc \<noteq> 0" "isPowerOf2 bs" "isPowerOf2 ?n"
    using assms(1) by (auto simp: LRU_def Let_def split: if_splits)
  obtain s where s: "s < 64" "bs = 2 ^ s" "floorLog2 bs = Inr s" using floorLog2_power [OF nz(3)] by blast
  obtain k where k: "k < 64" "?n = 2 ^ k" "floorLog2 ?n = Inr k" using floorLog2_power [OF nz(4)] by blast
  have "(2 :: nat) ^ s < 2 ^ 31" using assms(2) s by (simp add: word_less_nat_alt unat_power_lower)
  then have s31: "s < 31" by (meson not_less one_le_numeral power_increasing linorder_not_less)
  have "unat ?n \<le> unat sz" by (simp add: unat_div div_le_dividend)
  then have "(2 :: nat) ^ k < 2 ^ 31" using assms(3) k by (simp add: word_less_nat_alt unat_power_lower)
  then have k31: "k < 31" by (meson not_less one_le_numeral power_increasing linorder_not_less)
  have m: "(ucast (2 ^ j - 1 :: u64) :: u32) = mask j" if "j < 32" for j
    by (rule bit_word_eqI) (use that in \<open>auto simp: bit_simps simp flip: mask_eq_exp_minus_1\<close>)
  have assoc: "0 < unat assoc" using nz(2) by (simp add: unat_gt_0)
  have un: "unat bs = 2 ^ s" "unat ?n = 2 ^ k" using s k by (simp_all add: unat_power_lower)
  have l: "lg_wf (lr_geom l)" "lg_numSets (lr_geom l) = 2 ^ k" "lg_assoc (lr_geom l) = unat assoc"
    "lr_sets l = map (\<lambda>i. [i * unat assoc ..< i * unat assoc + unat assoc]) [0 ..< 2 ^ k]"
    "lr_blks l = map (init_blk (2 ^ s) (unat assoc)) [0 ..< 2 ^ k * unat assoc]"
    using assms(1) nz s(3) k(3) un s31 k31 m [of s] m [of k] assoc s(2) k(2)
    by (auto simp: LRU_def Let_def lg_wf_def split: if_splits)
  show ?thesis
    unfolding lru_inv_def l(2,3)
    using l by (auto simp: set_blocks_def blk_ok_def init_blk_ok)
qed

section \<open>The tag store as a managed resource\<close>

definition lru_param :: "lru \<Rightarrow> ldom_id \<Rightarrow> u32 \<Rightarrow> bool" where
  "lru_param l d a = (a = 0 \<and> unat d < length (lr_waymasks l))"

definition lru_peek :: "lru \<Rightarrow> ldom_id \<Rightarrow> u32 \<Rightarrow> u64" where
  "lru_peek l d a = lr_waymasks l ! unat d"

interpretation lru_mr: managed_resource "lru_get now" lru_set lru_inv lru_param lru_peek for now
proof (unfold_locales, goal_cases)
  case (1 r d a)
  then show ?case by (simp add: lru_get_def lru_param_def lru_peek_def)
next
  case (2 r d a v)
  then have "lru_set r d a v = Inr (r\<lparr>lr_waymasks := (lr_waymasks r)[unat d := v]\<rparr>)"
    by (simp add: lru_set_def lru_param_def)
  moreover have "lru_inv (r\<lparr>lr_waymasks := (lr_waymasks r)[unat d := v]\<rparr>)"
    using 2(1) by (simp add: lru_inv_def)
  ultimately show ?case
    using 2(2) by (auto simp: lru_param_def lru_peek_def nth_list_update word_unat_eq_iff)
qed

text \<open>
  The capacity counters are not reset: reading the capacity register twice counts every valid
  block twice.
\<close>

definition guest_blocks :: "guest_id \<Rightarrow> cache_blk list \<Rightarrow> nat" where
  "guest_blocks g bs = length (filter (\<lambda>b. blk_isValid b \<and> blk_getGuestID b = g) bs)"

lemma computeStats_loop_capacity:
  assumes "computeStats_loop now bs s = Inr s'" "unat g < length (ts_guestCapacity s)"
  shows "length (ts_guestCapacity s') = length (ts_guestCapacity s)"
    "ts_guestCapacity s' ! unat g = ts_guestCapacity s ! unat g + of_nat (guest_blocks g bs)"
  using assms
  by (induction now bs s rule: computeStats_loop.induct)
     (auto simp: guest_blocks_def Let_def rbind_assert nth_list_update ac_simps simp flip: word_unat_eq_iff
      split: if_splits)

lemma computeStats_capacity:
  assumes "computeStats now l = Inr l'" "unat g < length (ts_guestCapacity (lr_stats l))"
  shows "ts_guestCapacity (lr_stats l') ! unat g =
    ts_guestCapacity (lr_stats l) ! unat g + of_nat (guest_blocks g (lr_blks l))"
    "lr_blks l' = lr_blks l" "length (ts_guestCapacity (lr_stats l')) = length (ts_guestCapacity (lr_stats l))"
proof -
  obtain s where s: "computeStats_loop now (lr_blks l) ((lr_stats l)\<lparr>ts_occupanciesTaskId := replicate NumTaskId 0,
      ts_ageTaskId := replicate NumTaskId (replicate 5 0)\<rparr>) = Inr s" "l' = l\<lparr>lr_stats := s\<rparr>"
    using assms(1) by (auto simp: computeStats_def elim!: rbind_InrE)
  from computeStats_loop_capacity [OF s(1), of g] assms(2) s(2)
  show "ts_guestCapacity (lr_stats l') ! unat g =
      ts_guestCapacity (lr_stats l) ! unat g + of_nat (guest_blocks g (lr_blks l))"
    "lr_blks l' = lr_blks l" "length (ts_guestCapacity (lr_stats l')) = length (ts_guestCapacity (lr_stats l))"
    by simp_all
qed

lemma capacity_accumulates:
  assumes "lru_get t1 l d 8 = Inr (l1, c1)" "lru_get t2 l1 d 8 = Inr (l2, c2)"
    and "unat d < length (ts_guestCapacity (lr_stats l))"
  shows "c2 = c1 + of_nat (guest_blocks d (lr_blks l))"
proof -
  have 1: "computeStats t1 l = Inr l1" "computeStats t2 l1 = Inr l2"
    using assms(1,2) by (auto simp: lru_get_def elim!: rbind_InrE)
  note C1 = computeStats_capacity [OF 1(1) assms(3)]
  have "unat d < length (ts_guestCapacity (lr_stats l1))" using C1(3) assms(3) by simp
  note C2 = computeStats_capacity [OF 1(2) this]
  show ?thesis
    using assms C1 C2 1 by (simp add: lru_get_def)
qed

end
