(* ===== verification/Mshr.thy ===== *)
theory Mshr
  imports Packet
begin

text \<open>
  Miss status and handling registers, \<^verbatim>\<open>hyper/mem/cache/mshr.cc\<close> and \<^verbatim>\<open>mshr.hh\<close>. A register
  holds the targets waiting for one block. Registers of different caches refer to each other
  through the sender states of their packets, so all registers live in one store, a list, and a pointer
  to a register is its index.
\<close>

section \<open>Targets\<close>

datatype target_source = FromCPU | FromSnoop | FromPrefetcher

record target =
  tg_recvTime :: tick
  tg_readyTime :: tick
  tg_order :: nat
  tg_pkt :: packet
  tg_source :: target_source
  tg_markedPending :: bool

definition Target :: "tick \<Rightarrow> packet \<Rightarrow> tick \<Rightarrow> nat \<Rightarrow> target_source \<Rightarrow> bool \<Rightarrow> target" where
  "Target now p readyTime order source markedPending =
     \<lparr>tg_recvTime = now, tg_readyTime = readyTime, tg_order = order, tg_pkt = p, tg_source = source,
      tg_markedPending = markedPending\<rparr>"

record target_list =
  tl_targets :: "target list"
  tl_needsExclusive :: bool
  tl_hasUpgrade :: bool

definition TargetList :: target_list where
  "TargetList = \<lparr>tl_targets = [], tl_needsExclusive = False, tl_hasUpgrade = False\<rparr>"

definition resetFlags :: "target_list \<Rightarrow> target_list" where
  "resetFlags tgl = tgl\<lparr>tl_needsExclusive := False, tl_hasUpgrade := False\<rparr>"

definition isReset :: "target_list \<Rightarrow> bool" where
  "isReset tgl = (\<not> tl_needsExclusive tgl \<and> \<not> tl_hasUpgrade tgl)"

section \<open>Registers\<close>

record mshr =
  ms_readyTime :: tick
  ms_isUncacheable :: bool
  ms_downstreamPending :: bool
  ms_pendingDirty :: bool
  ms_postInvalidate :: bool
  ms_postDowngrade :: bool
  ms_order :: nat
  ms_guest :: guest_id
  ms_addr :: addr
  ms_size :: nat
  ms_isSecure :: bool
  ms_inService :: bool
  ms_isForward :: bool
  ms_threadNum :: int
  ms_targets :: target_list
  ms_deferredTargets :: target_list

type_synonym mshr_store = "mshr list"

definition InvalidThreadID :: int where "InvalidThreadID = - 1"

text \<open>The constructor leaves \<^verbatim>\<open>guest\<close> uninitialised; its value is an argument.\<close>

definition MSHR :: "guest_id \<Rightarrow> mshr" where
  "MSHR junk =
     \<lparr>ms_readyTime = 0, ms_isUncacheable = False, ms_downstreamPending = False, ms_pendingDirty = False,
      ms_postInvalidate = False, ms_postDowngrade = False, ms_order = 0, ms_guest = junk, ms_addr = 0, ms_size = 0,
      ms_isSecure = False, ms_inService = False, ms_isForward = False, ms_threadNum = InvalidThreadID,
      ms_targets = TargetList, ms_deferredTargets = TargetList\<rparr>"

text \<open>Which of its two target lists a register uses.\<close>

datatype which = InTargets | InDeferred

fun get_tl :: "which \<Rightarrow> mshr \<Rightarrow> target_list" where
  "get_tl InTargets m = ms_targets m"
| "get_tl InDeferred m = ms_deferredTargets m"

fun upd_tl :: "which \<Rightarrow> (target_list \<Rightarrow> target_list) \<Rightarrow> mshr \<Rightarrow> mshr" where
  "upd_tl InTargets f m = m\<lparr>ms_targets := f (ms_targets m)\<rparr>"
| "upd_tl InDeferred f m = m\<lparr>ms_deferredTargets := f (ms_deferredTargets m)\<rparr>"

definition upd_mshr :: "nat \<Rightarrow> (mshr \<Rightarrow> mshr) \<Rightarrow> mshr_store \<Rightarrow> mshr_store" where
  "upd_mshr i f st = st[i := f (st ! i)]"

text \<open>\<^verbatim>\<open>findNextSenderState<MSHR>\<close>: the first register on the stack of sender states.\<close>

fun findNextMSHR :: "sender_state list \<Rightarrow> nat option" where
  "findNextMSHR [] = None"
| "findNextMSHR (MSHRState i # ss) = Some i"
| "findNextMSHR (_ # ss) = findNextMSHR ss"

section \<open>Operations of target lists\<close>

definition tl_note :: "target_source \<Rightarrow> packet \<Rightarrow> target_list \<Rightarrow> target_list" where
  "tl_note source p tgl =
     (if source \<noteq> FromSnoop then
        tgl\<lparr>tl_needsExclusive := tl_needsExclusive tgl \<or> needsExclusive (pk_cmd p),
           tl_hasUpgrade := tl_hasUpgrade tgl \<or> isUpgrade (pk_cmd p) \<or> pk_cmd p = StoreCondReq\<rparr>
      else tgl)"

definition mark_upstream :: "packet \<Rightarrow> mshr_store \<Rightarrow> mshr_store result" where
  "mark_upstream p st =
     (case findNextMSHR (pk_senderState p) of
        None \<Rightarrow> Inr st
      | Some j \<Rightarrow>
          rbind (vec_get st j) (\<lambda>m.
          rbind (sim_assert (\<not> ms_downstreamPending m)) (\<lambda>_.
            Inr (upd_mshr j (\<lambda>m. m\<lparr>ms_downstreamPending := True\<rparr>) st))))"

definition tl_add ::
  "tick \<Rightarrow> nat \<Rightarrow> which \<Rightarrow> packet \<Rightarrow> tick \<Rightarrow> nat \<Rightarrow> target_source \<Rightarrow> bool \<Rightarrow> mshr_store \<Rightarrow> mshr_store result" where
  "tl_add now i w p readyTime order source markPending st =
     (let st1 = upd_mshr i (upd_tl w (tl_note source p)) st in
      rbind (if markPending then mark_upstream p st1 else Inr st1) (\<lambda>st2.
        Inr (upd_mshr i (upd_tl w (\<lambda>tgl. tgl\<lparr>tl_targets := tl_targets tgl @
               [Target now p readyTime order source markPending]\<rparr>)) st2)))"

definition replaceUpgrade :: "packet \<Rightarrow> packet" where
  "replaceUpgrade p =
     (if pk_cmd p = UpgradeReq then p\<lparr>pk_cmd := ReadExReq\<rparr>
      else if pk_cmd p = SCUpgradeReq then p\<lparr>pk_cmd := SCUpgradeFailReq\<rparr>
      else if pk_cmd p = StoreCondReq then p\<lparr>pk_cmd := StoreCondFailReq\<rparr>
      else p)"

definition replaceUpgrades :: "target_list \<Rightarrow> target_list" where
  "replaceUpgrades tgl =
     (if \<not> tl_hasUpgrade tgl then tgl
      else tgl\<lparr>tl_targets := map (\<lambda>t. t\<lparr>tg_pkt := replaceUpgrade (tg_pkt t)\<rparr>) (tl_targets tgl),
              tl_hasUpgrade := False\<rparr>)"

text \<open>
  The two functions \<^verbatim>\<open>clearDownstreamPending\<close> call each other: a target that was marked clears the flag of its
  register, which first clears its own targets. The list argument is what is left to do; a register's targets
  come before the rest. Every call on a register clears a flag that was set, so the recursion ends even if
  the sender states are cyclic.
\<close>

function clear_targets :: "target list \<Rightarrow> mshr_store \<Rightarrow> mshr_store result" where
  "clear_targets [] st = Inr st"
| "clear_targets (t # ts) st =
     (if tg_markedPending t then
        case findNextMSHR (pk_senderState (tg_pkt t)) of
          None \<Rightarrow> clear_targets ts st
        | Some j \<Rightarrow>
            if j \<ge> length st then Inl BadAccess
            else if \<not> ms_downstreamPending (st ! j) then Inl AssertFail
            else clear_targets (tl_targets (ms_targets (st ! j)) @ ts)
                   (upd_mshr j (\<lambda>m. m\<lparr>ms_downstreamPending := False\<rparr>) st)
      else clear_targets ts st)"
  by pat_completeness auto
termination
proof (relation "measures [\<lambda>(ts, st). length (filter ms_downstreamPending st), \<lambda>(ts, st). length ts]", goal_cases)
  case (3 t ts st j)
  then show ?case
    using length_filter_update [of j st ms_downstreamPending "(st ! j)\<lparr>ms_downstreamPending := False\<rparr>"]
    by (simp add: upd_mshr_def)
qed auto

definition clearDownstreamPending :: "nat \<Rightarrow> mshr_store \<Rightarrow> mshr_store result" where
  "clearDownstreamPending i st =
     rbind (vec_get st i) (\<lambda>m.
     rbind (sim_assert (ms_downstreamPending m)) (\<lambda>_.
       clear_targets (tl_targets (ms_targets m)) (upd_mshr i (\<lambda>m. m\<lparr>ms_downstreamPending := False\<rparr>) st)))"

fun tl_checkFunctional :: "u8 list \<Rightarrow> packet \<Rightarrow> target list \<Rightarrow> (bool \<times> packet \<times> target list) result" where
  "tl_checkFunctional junk p [] = Inr (False, p, [])"
| "tl_checkFunctional junk p (t # ts) =
     rbind (checkFunctional_pkt junk p (tg_pkt t)) (\<lambda>(fin, p1, o1).
       let t1 = t\<lparr>tg_pkt := o1\<rparr> in
       if fin then Inr (True, p1, t1 # ts)
       else rbind (tl_checkFunctional junk p1 ts) (\<lambda>(f, p2, ts'). Inr (f, p2, t1 # ts')))"

section \<open>Operations of registers\<close>

definition getNumTargets :: "mshr \<Rightarrow> nat" where
  "getNumTargets m = length (tl_targets (ms_targets m)) + length (tl_targets (ms_deferredTargets m))"

definition hasTargets :: "mshr \<Rightarrow> bool" where
  "hasTargets m = (tl_targets (ms_targets m) \<noteq> [])"

definition getTarget :: "mshr \<Rightarrow> target result" where
  "getTarget m = rbind (sim_assert (hasTargets m)) (\<lambda>_. Inr (hd (tl_targets (ms_targets m))))"

definition popTarget :: "mshr \<Rightarrow> mshr result" where
  "popTarget m =
     (case tl_targets (ms_targets m) of
        [] \<Rightarrow> Inl BadAccess
      | _ # ts \<Rightarrow> Inr (m\<lparr>ms_targets := (ms_targets m)\<lparr>tl_targets := ts\<rparr>\<rparr>))"

definition isForwardNoResponse :: "mshr \<Rightarrow> bool result" where
  "isForwardNoResponse m =
     (if getNumTargets m \<noteq> 1 then Inr False
      else case tl_targets (ms_targets m) of
        [] \<Rightarrow> Inl BadAccess
      | t # _ \<Rightarrow> Inr (tg_source t = FromCPU \<and> \<not> needsResponse (pk_cmd (tg_pkt t))))"

definition isPendingDirty :: "mshr \<Rightarrow> bool result" where
  "isPendingDirty m = rbind (sim_assert (ms_inService m)) (\<lambda>_. Inr (ms_pendingDirty m))"

definition hasPostInvalidate :: "mshr \<Rightarrow> bool result" where
  "hasPostInvalidate m = rbind (sim_assert (ms_inService m)) (\<lambda>_. Inr (ms_postInvalidate m))"

definition hasPostDowngrade :: "mshr \<Rightarrow> bool result" where
  "hasPostDowngrade m = rbind (sim_assert (ms_inService m)) (\<lambda>_. Inr (ms_postDowngrade m))"

definition mshr_allocate ::
  "tick \<Rightarrow> nat \<Rightarrow> guest_id \<Rightarrow> addr \<Rightarrow> nat \<Rightarrow> packet \<Rightarrow> tick \<Rightarrow> nat \<Rightarrow> mshr_store \<Rightarrow> mshr_store result" where
  "mshr_allocate now i guest a sz p whenReady order st =
     rbind (vec_get st i) (\<lambda>m.
       let m1 = m\<lparr>ms_guest := guest, ms_addr := a, ms_size := sz, ms_isSecure := pk_isSecure p,
                  ms_readyTime := whenReady, ms_order := order, ms_isForward := False,
                  ms_isUncacheable := rq_uncacheable (pk_req p), ms_inService := False,
                  ms_downstreamPending := False, ms_threadNum := 0\<rparr>
       in
     rbind (sim_assert (isReset (ms_targets m1))) (\<lambda>_.
     rbind (tl_add now i InTargets p whenReady order (if pk_cmd p = HardPFReq then FromPrefetcher else FromCPU) True
              (st[i := m1])) (\<lambda>st2.
     rbind (sim_assert (isReset (ms_deferredTargets (st2 ! i)))) (\<lambda>_. Inr st2))))"

definition mshr_markInService :: "nat \<Rightarrow> packet \<Rightarrow> mshr_store \<Rightarrow> (bool \<times> mshr_store) result" where
  "mshr_markInService i p st =
     rbind (vec_get st i) (\<lambda>m.
     rbind (sim_assert (\<not> ms_inService m)) (\<lambda>_.
     rbind (isForwardNoResponse m) (\<lambda>fwd.
     if fwd then
       rbind (sim_assert (getNumTargets m = 1)) (\<lambda>_.
       rbind (popTarget m) (\<lambda>m1. Inr (True, st[i := m1])))
     else
       let m1 = m\<lparr>ms_inService := True,
                  ms_pendingDirty := (tl_needsExclusive (ms_targets m) \<or> \<not> sharedAsserted p \<and> memInhibitAsserted p),
                  ms_postInvalidate := False, ms_postDowngrade := False\<rparr>
       in rbind (if \<not> ms_downstreamPending m1 then clear_targets (tl_targets (ms_targets m1)) (st[i := m1])
                 else Inr (st[i := m1])) (\<lambda>st2. Inr (False, st2)))))"

definition mshr_deallocate :: "mshr \<Rightarrow> mshr result" where
  "mshr_deallocate m =
     rbind (sim_assert (tl_targets (ms_targets m) = [])) (\<lambda>_.
     rbind (sim_assert (isReset (ms_deferredTargets m))) (\<lambda>_.
       Inr (m\<lparr>ms_targets := resetFlags (ms_targets m), ms_inService := False\<rparr>)))"

text \<open>The test under which \<^verbatim>\<open>allocateTarget\<close> defers a target; the accessors it calls assert that the register is in service.\<close>

definition must_defer :: "packet \<Rightarrow> mshr \<Rightarrow> bool" where
  "must_defer p m =
     (ms_inService m \<and>
      (tl_targets (ms_deferredTargets m) \<noteq> [] \<or> ms_postInvalidate m \<or>
       needsExclusive (pk_cmd p) \<and> (\<not> ms_pendingDirty m \<or> ms_postDowngrade m \<or> ms_isForward m)))"

definition allocateTarget :: "tick \<Rightarrow> nat \<Rightarrow> packet \<Rightarrow> tick \<Rightarrow> nat \<Rightarrow> mshr_store \<Rightarrow> mshr_store result" where
  "allocateTarget now i p whenReady order st =
     rbind (sim_assert (pk_cmd p \<noteq> HardPFReq)) (\<lambda>_.
     rbind (vec_get st i) (\<lambda>m.
       if must_defer p m then
         rbind (hasPostInvalidate m) (\<lambda>inval.
           tl_add now i InDeferred (if inval then replaceUpgrade p else p) whenReady order FromCPU True st)
       else tl_add now i InTargets p whenReady order FromCPU (\<not> ms_inService m) st))"

definition handleSnoop :: "tick \<Rightarrow> nat \<Rightarrow> packet \<Rightarrow> nat \<Rightarrow> mshr_store \<Rightarrow> (bool \<times> packet \<times> mshr_store) result" where
  "handleSnoop now i p order st =
     rbind (vec_get st i) (\<lambda>m.
     if \<not> ms_inService m \<or> isExpressSnoop p \<and> ms_downstreamPending m then
       Inr (False, p,
            if needsExclusive (pk_cmd p)
            then upd_mshr i (upd_tl InDeferred replaceUpgrades \<circ> upd_tl InTargets replaceUpgrades) st else st)
     else
       let st1 = (if needsExclusive (pk_cmd p) then upd_mshr i (upd_tl InDeferred replaceUpgrades) st else st) in
       rbind (hasPostInvalidate m) (\<lambda>inval.
       if inval then Inr (True, p, st1)
       else
         rbind (isPendingDirty m) (\<lambda>dirty.
         rbind (if dirty \<or> isInvalidate (pk_cmd p) then
                  rbind (tl_add now i InTargets (copy_packet p True) now order FromSnoop
                           (ms_downstreamPending m \<and> tl_needsExclusive (ms_targets m)) st1) (\<lambda>st2.
                    Inr (if dirty then setSupplyExclusive (assertMemInhibit p) else p,
                         if needsExclusive (pk_cmd p)
                         then upd_mshr i (\<lambda>m. m\<lparr>ms_postInvalidate := True\<rparr>) st2 else st2))
                else Inr (p, st1)) (\<lambda>(p1, st3).
         if \<not> needsExclusive (pk_cmd p) then
           Inr (True, assertShared p1, upd_mshr i (\<lambda>m. m\<lparr>ms_postDowngrade := True\<rparr>) st3)
         else Inr (True, p1, st3)))))"

definition promoteDeferredTargets :: "tick \<Rightarrow> mshr \<Rightarrow> (bool \<times> mshr) result" where
  "promoteDeferredTargets now m =
     rbind (sim_assert (tl_targets (ms_targets m) = [])) (\<lambda>_.
       case tl_targets (ms_deferredTargets m) of
         [] \<Rightarrow> Inr (False, m)
       | t # _ \<Rightarrow>
           Inr (True, m\<lparr>ms_targets := ms_deferredTargets m, ms_deferredTargets := resetFlags (ms_targets m),
                        ms_order := tg_order t, ms_readyTime := max now (tg_readyTime t)\<rparr>))"

definition handleFill :: "nat \<Rightarrow> packet \<Rightarrow> mshr_store \<Rightarrow> mshr_store result" where
  "handleFill i p st =
     rbind (vec_get st i) (\<lambda>m.
     rbind (if sharedAsserted p then Inr False
            else rbind (hasPostInvalidate m) (\<lambda>a. if a then Inr False
            else rbind (hasPostDowngrade m) (\<lambda>b. Inr (\<not> b \<and> tl_needsExclusive (ms_deferredTargets m))))) (\<lambda>splice.
     if splice then
       rbind (sim_assert (\<not> tl_needsExclusive (ms_targets m))) (\<lambda>_.
       rbind (sim_assert (\<not> ms_downstreamPending m)) (\<lambda>_.
       rbind (clear_targets (tl_targets (ms_deferredTargets m))
                (upd_mshr i (upd_tl InTargets (\<lambda>tgl. tgl\<lparr>tl_needsExclusive := True\<rparr>)) st)) (\<lambda>st1.
         Inr (upd_mshr i (\<lambda>m. m\<lparr>ms_targets := (ms_targets m)\<lparr>tl_targets :=
                tl_targets (ms_targets m) @ tl_targets (ms_deferredTargets m)\<rparr>,
              ms_deferredTargets := resetFlags ((ms_deferredTargets m)\<lparr>tl_targets := []\<rparr>)\<rparr>) st1))))
     else Inr st))"

definition mshr_checkFunctional :: "u8 list \<Rightarrow> packet \<Rightarrow> mshr \<Rightarrow> (bool \<times> packet \<times> mshr) result" where
  "mshr_checkFunctional junk p m =
     (if isPrint (pk_cmd p) then
        rbind (checkFunctional junk p (ms_addr m) (ms_isSecure m) (int (ms_size m)) None) (\<lambda>(_, p1, _). Inr (False, p1, m))
      else
        rbind (tl_checkFunctional junk p (tl_targets (ms_targets m))) (\<lambda>(f, p1, ts).
          let m1 = m\<lparr>ms_targets := (ms_targets m)\<lparr>tl_targets := ts\<rparr>\<rparr> in
          if f then Inr (True, p1, m1)
          else rbind (tl_checkFunctional junk p1 (tl_targets (ms_deferredTargets m))) (\<lambda>(f2, p2, ds).
            Inr (f2, p2, m1\<lparr>ms_deferredTargets := (ms_deferredTargets m)\<lparr>tl_targets := ds\<rparr>\<rparr>))))"

section \<open>Pending flags\<close>

text \<open>Two stores that differ in \<^verbatim>\<open>downstreamPending\<close> only.\<close>

definition pending_only :: "mshr_store \<Rightarrow> mshr_store \<Rightarrow> bool" where
  "pending_only st st' =
     (length st' = length st \<and> (\<forall>i < length st. \<exists>b. st' ! i = (st ! i)\<lparr>ms_downstreamPending := b\<rparr>))"

lemma pending_self: "\<exists>b. m = m\<lparr>ms_downstreamPending := b\<rparr>"
  by (rule exI [of _ "ms_downstreamPending m"]) simp

lemma pending_only_refl [simp]: "pending_only st st"
  by (simp add: pending_only_def pending_self)

lemma pending_only_trans: "pending_only st st1 \<Longrightarrow> pending_only st1 st2 \<Longrightarrow> pending_only st st2"
  by (fastforce simp: pending_only_def)

lemma pending_only_upd: "pending_only st (upd_mshr j (\<lambda>m. m\<lparr>ms_downstreamPending := b\<rparr>) st)"
proof -
  have "\<exists>c. st[j := (st ! j)\<lparr>ms_downstreamPending := b\<rparr>] ! i = (st ! i)\<lparr>ms_downstreamPending := c\<rparr>"
    if "i < length st" for i
    using that by (cases "i = j") (auto intro: pending_self)
  then show ?thesis by (simp add: pending_only_def upd_mshr_def)
qed

lemma pending_onlyD:
  assumes "pending_only st st'" "i < length st"
  shows "ms_targets (st' ! i) = ms_targets (st ! i)" "ms_deferredTargets (st' ! i) = ms_deferredTargets (st ! i)"
    "ms_inService (st' ! i) = ms_inService (st ! i)" "ms_readyTime (st' ! i) = ms_readyTime (st ! i)"
    "ms_guest (st' ! i) = ms_guest (st ! i)" "ms_addr (st' ! i) = ms_addr (st ! i)"
    "ms_isSecure (st' ! i) = ms_isSecure (st ! i)" "ms_threadNum (st' ! i) = ms_threadNum (st ! i)"
    "ms_postInvalidate (st' ! i) = ms_postInvalidate (st ! i)"
proof -
  obtain b where "st' ! i = (st ! i)\<lparr>ms_downstreamPending := b\<rparr>" using assms by (auto simp: pending_only_def)
  then show "ms_targets (st' ! i) = ms_targets (st ! i)" "ms_deferredTargets (st' ! i) = ms_deferredTargets (st ! i)"
    "ms_inService (st' ! i) = ms_inService (st ! i)" "ms_readyTime (st' ! i) = ms_readyTime (st ! i)"
    "ms_guest (st' ! i) = ms_guest (st ! i)" "ms_addr (st' ! i) = ms_addr (st ! i)"
    "ms_isSecure (st' ! i) = ms_isSecure (st ! i)" "ms_threadNum (st' ! i) = ms_threadNum (st ! i)"
    "ms_postInvalidate (st' ! i) = ms_postInvalidate (st ! i)" by simp_all
qed

lemma mark_upstream_frame: "mark_upstream p st = Inr st' \<Longrightarrow> pending_only st st'"
  by (auto simp: mark_upstream_def rbind_eq_Inr_iff pending_only_upd split: option.splits)

lemma clear_targets_frame: "clear_targets ts st = Inr st' \<Longrightarrow> pending_only st st'"
proof (induction ts st rule: clear_targets.induct)
  case (2 t ts st)
  then show ?case
    by (auto split: if_split_asm option.splits intro: pending_only_trans [OF pending_only_upd])
qed simp

lemma clear_targets_clears:
  "clear_targets ts st = Inr st' \<Longrightarrow> ms_downstreamPending (st' ! i) \<Longrightarrow> i < length st \<Longrightarrow> ms_downstreamPending (st ! i)"
proof (induction ts st rule: clear_targets.induct)
  case (2 t ts st)
  show ?case
  proof (cases "findNextMSHR (pk_senderState (tg_pkt t))")
    case (Some j)
    then show ?thesis using 2 by (cases "i = j") (auto simp: upd_mshr_def split: if_split_asm)
  qed (use 2 in \<open>auto split: if_split_asm\<close>)
qed simp

text \<open>After a successful run every register a marked target refers to is no longer pending.\<close>

definition upstream :: "target \<Rightarrow> nat option" where
  "upstream t = (if tg_markedPending t then findNextMSHR (pk_senderState (tg_pkt t)) else None)"

lemma clear_targets_done:
  "clear_targets ts st = Inr st' \<Longrightarrow> t \<in> set ts \<Longrightarrow> upstream t = Some j \<Longrightarrow> j < length st \<and> \<not> ms_downstreamPending (st' ! j)"
proof (induction ts st arbitrary: t rule: clear_targets.induct)
  case (2 u ts st)
  show ?case
  proof (cases "upstream u")
    case None
    then have "clear_targets ts st = Inr st'" using 2(4) by (auto simp: upstream_def split: if_split_asm)
    moreover have "t \<in> set ts" using 2(5,6) None by auto
    ultimately show ?thesis using 2(1) [of t] 2(3) [of t] 2(6) None
      by (cases "tg_markedPending u") (simp_all add: upstream_def)
  next
    case (Some k)
    then have u: "tg_markedPending u" "findNextMSHR (pk_senderState (tg_pkt u)) = Some k"
      by (auto simp: upstream_def split: if_split_asm)
    then have k: "k < length st" "ms_downstreamPending (st ! k)"
      and run: "clear_targets (tl_targets (ms_targets (st ! k)) @ ts) (upd_mshr k (\<lambda>m. m\<lparr>ms_downstreamPending := False\<rparr>) st) = Inr st'"
      using 2(4) by (auto split: if_split_asm)
    show ?thesis
    proof (cases "t = u")
      case True
      then have "j = k" using 2(6) Some by simp
      then show ?thesis using clear_targets_clears [OF run, of k] k by (auto simp: upd_mshr_def)
    next
      case False
      then have "t \<in> set (tl_targets (ms_targets (st ! k)) @ ts)" using 2(5) by simp
      then show ?thesis using 2(2) [OF u _ _ run, of t] k 2(6) by (auto simp: upd_mshr_def)
    qed
  qed
qed simp

section \<open>Well-formed registers\<close>

text \<open>
  The flags of a target list cover its targets: a request of a processor or an upper cache that needs
  an exclusive copy, or that is an upgrade, has set the flag.
\<close>

definition upgrade_like :: "mem_cmd \<Rightarrow> bool" where
  "upgrade_like c = (isUpgrade c \<or> c = StoreCondReq)"

definition tl_ok :: "target_list \<Rightarrow> bool" where
  "tl_ok tgl = (\<forall>t \<in> set (tl_targets tgl). tg_source t \<noteq> FromSnoop \<longrightarrow>
     isRequest (pk_cmd (tg_pkt t)) \<and> (needsExclusive (pk_cmd (tg_pkt t)) \<longrightarrow> tl_needsExclusive tgl) \<and>
     (upgrade_like (pk_cmd (tg_pkt t)) \<longrightarrow> tl_hasUpgrade tgl))"

definition mshr_ok :: "mshr \<Rightarrow> bool" where
  "mshr_ok m = (tl_ok (ms_targets m) \<and> tl_ok (ms_deferredTargets m) \<and>
     (tl_targets (ms_deferredTargets m) \<noteq> [] \<longrightarrow> ms_inService m) \<and>
     (tl_targets (ms_deferredTargets m) = [] \<longrightarrow> isReset (ms_deferredTargets m)))"

lemma replaceUpgrade_cmd:
  assumes "isRequest (pk_cmd p)"
  shows "isRequest (pk_cmd (replaceUpgrade p))" "\<not> upgrade_like (pk_cmd (replaceUpgrade p))"
    "needsExclusive (pk_cmd (replaceUpgrade p)) = needsExclusive (pk_cmd p)"
  using assms
  by (cases "pk_cmd p"; simp add: replaceUpgrade_def upgrade_like_def cmd_attrib_defs)+

lemma replaceUpgrade_other: "isRequest (pk_cmd p) \<Longrightarrow> \<not> upgrade_like (pk_cmd p) \<Longrightarrow> replaceUpgrade p = p"
  by (cases "pk_cmd p") (simp_all add: replaceUpgrade_def upgrade_like_def cmd_attrib_defs)

lemma replaceUpgrades_ok:
  assumes "tl_ok tgl"
  shows "tl_ok (replaceUpgrades tgl)" "tl_needsExclusive (replaceUpgrades tgl) = tl_needsExclusive tgl"
    "\<forall>t \<in> set (tl_targets (replaceUpgrades tgl)). tg_source t \<noteq> FromSnoop \<longrightarrow> \<not> upgrade_like (pk_cmd (tg_pkt t))"
    "length (tl_targets (replaceUpgrades tgl)) = length (tl_targets tgl)"
  using assms replaceUpgrade_cmd by (auto simp: tl_ok_def replaceUpgrades_def)

lemma replaceUpgrades_reset: "isReset tgl \<Longrightarrow> replaceUpgrades tgl = tgl"
  by (simp add: isReset_def replaceUpgrades_def)

lemma tl_ok_add:
  assumes "tl_ok tgl" "source \<noteq> FromSnoop \<Longrightarrow> isRequest (pk_cmd p)"
  shows "tl_ok ((tl_note source p tgl)\<lparr>tl_targets := tl_targets tgl @ [Target now p rt order source mark]\<rparr>)"
  using assms by (auto simp: tl_ok_def tl_note_def upgrade_like_def Target_def)

lemma tl_note_targets [simp]: "tl_targets (tl_note source p tgl) = tl_targets tgl"
  by (simp add: tl_note_def)

lemma tl_ok_empty: "tl_targets tgl = [] \<Longrightarrow> tl_ok tgl"
  by (simp add: tl_ok_def)

section \<open>What the operations do to a register\<close>

text \<open>The registers other than \<open>i\<close> keep everything but the pending flag.\<close>

definition others_pending :: "nat \<Rightarrow> mshr_store \<Rightarrow> mshr_store \<Rightarrow> bool" where
  "others_pending i st st' =
     (length st' = length st \<and> (\<forall>k < length st. k \<noteq> i \<longrightarrow> (\<exists>c. st' ! k = (st ! k)\<lparr>ms_downstreamPending := c\<rparr>)))"

lemma others_pending_refl [simp]: "others_pending i st st"
  by (simp add: others_pending_def pending_self)

lemma others_pending_upd: "others_pending i st st' \<Longrightarrow> others_pending i st (upd_mshr i f st')"
  by (simp add: others_pending_def upd_mshr_def)

lemma pending_only_others: "pending_only st st' \<Longrightarrow> others_pending i st st'"
  by (simp add: others_pending_def pending_only_def)

lemma others_pending_trans: "others_pending i st st1 \<Longrightarrow> others_pending i st1 st2 \<Longrightarrow> others_pending i st st2"
  by (fastforce simp: others_pending_def)

lemma upd_mshr_simps [simp]: "length (upd_mshr i f st) = length st" "i < length st \<Longrightarrow> upd_mshr i f st ! i = f (st ! i)"
  "k \<noteq> i \<Longrightarrow> upd_mshr i f st ! k = st ! k"
  by (simp_all add: upd_mshr_def)

definition tl_push :: "target_source \<Rightarrow> packet \<Rightarrow> target \<Rightarrow> target_list \<Rightarrow> target_list" where
  "tl_push source p t tgl = (tl_note source p tgl)\<lparr>tl_targets := tl_targets tgl @ [t]\<rparr>"

lemma tl_add_effect:
  assumes "tl_add now i w p rt order source mark st = Inr st'" "i < length st"
  obtains b where "others_pending i st st'"
    "st' ! i = (upd_tl w (tl_push source p (Target now p rt order source mark)) (st ! i))\<lparr>ms_downstreamPending := b\<rparr>"
proof -
  let ?st1 = "upd_mshr i (upd_tl w (tl_note source p)) st"
  let ?push = "upd_tl w (\<lambda>tgl. tgl\<lparr>tl_targets := tl_targets tgl @ [Target now p rt order source mark]\<rparr>)"
  obtain st2 where st2: "(if mark then mark_upstream p ?st1 else Inr ?st1) = Inr st2" "st' = upd_mshr i ?push st2"
    using assms(1) by (auto simp: tl_add_def Let_def rbind_eq_Inr_iff)
  then have po: "pending_only ?st1 st2" using mark_upstream_frame by (auto split: if_split_asm)
  then obtain b where "st2 ! i = (?st1 ! i)\<lparr>ms_downstreamPending := b\<rparr>"
    using assms(2) by (auto simp: pending_only_def)
  then have "st' ! i = (upd_tl w (tl_push source p (Target now p rt order source mark)) (st ! i))\<lparr>ms_downstreamPending := b\<rparr>"
    using st2(2) assms(2) po by (cases w) (simp_all add: pending_only_def tl_push_def)
  moreover have "others_pending i st st'"
    unfolding st2(2)
    by (intro others_pending_upd others_pending_trans [OF _ pending_only_others [OF po]]) (simp add: others_pending_upd)
  ultimately show thesis using that by blast
qed

text \<open>The upstream register of a packet, if it has one, can be marked.\<close>

definition upstream_free :: "packet \<Rightarrow> mshr_store \<Rightarrow> bool" where
  "upstream_free p st =
     (case findNextMSHR (pk_senderState p) of None \<Rightarrow> True
      | Some j \<Rightarrow> j < length st \<and> \<not> ms_downstreamPending (st ! j))"

lemma upd_tl_pending [simp]: "ms_downstreamPending (upd_tl w f m) = ms_downstreamPending m"
  by (cases w) simp_all

lemma tl_add_total:
  assumes "mark \<Longrightarrow> upstream_free p st" "i < length st"
  shows "\<exists>st'. tl_add now i w p rt order source mark st = Inr st'"
proof -
  have "\<exists>st2. mark_upstream p (upd_mshr i (upd_tl w (tl_note source p)) st) = Inr st2" if "upstream_free p st"
    using that assms(2) by (auto simp: upstream_free_def mark_upstream_def upd_mshr_def nth_list_update rbind_assert split: option.splits if_split_asm)
  then show ?thesis using assms(1) by (cases mark) (auto simp: tl_add_def Let_def rbind_eq_Inr_iff)
qed

lemma tl_ok_push:
  "tl_ok tgl \<Longrightarrow> (source \<noteq> FromSnoop \<Longrightarrow> isRequest (pk_cmd p)) \<Longrightarrow> tl_ok (tl_push source p (Target now p rt order source mark) tgl)"
  unfolding tl_push_def by (rule tl_ok_add)

lemma tl_push_targets [simp]: "tl_targets (tl_push source p t tgl) = tl_targets tgl @ [t]"
  by (simp add: tl_push_def)

text \<open>All targets of a register in the order in which they will be served.\<close>

definition service_order :: "mshr \<Rightarrow> nat list" where
  "service_order m = map tg_order (tl_targets (ms_targets m) @ tl_targets (ms_deferredTargets m))"

lemma mshr_ok_pending [simp]: "mshr_ok (m\<lparr>ms_downstreamPending := b\<rparr>) = mshr_ok m"
  "service_order (m\<lparr>ms_downstreamPending := b\<rparr>) = service_order m"
  by (simp_all add: mshr_ok_def service_order_def)

lemma allocateTarget_ok:
  assumes "mshr_ok (st ! i)" "i < length st" "isRequest (pk_cmd p)" "pk_cmd p \<noteq> HardPFReq"
    and "allocateTarget now i p whenReady order st = Inr st'"
  shows "mshr_ok (st' ! i)" "service_order (st' ! i) = service_order (st ! i) @ [order]" "others_pending i st st'"
    "ms_inService (st' ! i) = ms_inService (st ! i)"
proof -
  let ?m = "st ! i"
  have "mshr_ok (st' ! i) \<and> service_order (st' ! i) = service_order ?m @ [order] \<and> others_pending i st st' \<and>
    ms_inService (st' ! i) = ms_inService ?m"
  proof (cases "must_defer p ?m")
    case True
    let ?p = "if ms_postInvalidate ?m then replaceUpgrade p else p"
    have "tl_add now i InDeferred ?p whenReady order FromCPU True st = Inr st'"
      using assms(2,4,5) True by (auto simp: allocateTarget_def rbind_assert hasPostInvalidate_def must_defer_def split: if_split_asm)
    then obtain b where r: "others_pending i st st'"
      "st' ! i = (upd_tl InDeferred (tl_push FromCPU ?p (Target now ?p whenReady order FromCPU True)) ?m)\<lparr>ms_downstreamPending := b\<rparr>"
      by (rule tl_add_effect) (use assms(2) in simp)
    moreover have "isRequest (pk_cmd ?p)" using assms(3) replaceUpgrade_cmd by auto
    then have "tl_ok (tl_push FromCPU ?p (Target now ?p whenReady order FromCPU True) (ms_deferredTargets ?m))"
      using assms(1) by (intro tl_ok_push) (auto simp: mshr_ok_def)
    ultimately show ?thesis using assms(1) True by (simp add: mshr_ok_def service_order_def must_defer_def Target_def)
  next
    case False
    have "tl_add now i InTargets p whenReady order FromCPU (\<not> ms_inService ?m) st = Inr st'"
      using assms(2,4,5) False by (simp add: allocateTarget_def rbind_assert)
    then obtain b where r: "others_pending i st st'"
      "st' ! i = (upd_tl InTargets (tl_push FromCPU p (Target now p whenReady order FromCPU (\<not> ms_inService ?m))) ?m)\<lparr>ms_downstreamPending := b\<rparr>"
      by (rule tl_add_effect) (use assms(2) in simp)
    moreover have "tl_ok (tl_push FromCPU p (Target now p whenReady order FromCPU (\<not> ms_inService ?m)) (ms_targets ?m))"
      using assms(1,3) by (intro tl_ok_push) (auto simp: mshr_ok_def)
    moreover have "tl_targets (ms_deferredTargets ?m) = []"
      using assms(1) False by (auto simp: mshr_ok_def must_defer_def)
    ultimately show ?thesis using assms(1) by (simp add: mshr_ok_def service_order_def Target_def)
  qed
  then show "mshr_ok (st' ! i)" "service_order (st' ! i) = service_order (st ! i) @ [order]" "others_pending i st st'"
    "ms_inService (st' ! i) = ms_inService (st ! i)" by simp_all
qed

lemma allocateTarget_total:
  assumes "i < length st" "pk_cmd p \<noteq> HardPFReq" "upstream_free p st"
  shows "\<exists>st'. allocateTarget now i p whenReady order st = Inr st'"
proof -
  have "pk_senderState (replaceUpgrade p) = pk_senderState p" by (simp add: replaceUpgrade_def)
  then have "upstream_free (replaceUpgrade p) st" using assms(3) by (simp add: upstream_free_def)
  then show ?thesis
    using assms tl_add_total [of True "replaceUpgrade p" st i] tl_add_total [of _ p st i]
    by (auto simp: allocateTarget_def rbind_assert hasPostInvalidate_def must_defer_def)
qed

text \<open>Filling and promotion keep the order of service.\<close>

lemma promoteDeferredTargets_ok:
  assumes "mshr_ok m" "promoteDeferredTargets now m = Inr (r, m')"
  shows "service_order m' = service_order m" "tl_targets (ms_deferredTargets m') = []" "tl_ok (ms_targets m')"
    "isReset (ms_deferredTargets m')" "r \<longleftrightarrow> hasTargets m'"
  using assms
  by (auto simp: promoteDeferredTargets_def rbind_assert service_order_def mshr_ok_def isReset_def resetFlags_def hasTargets_def
      split: if_split_asm list.splits)

text \<open>
  A fill that moves the deferred targets up sets \<^verbatim>\<open>needsExclusive\<close> of the target list, but not
  \<^verbatim>\<open>hasUpgrade\<close>, so only the part of the invariant on exclusive copies survives.
\<close>

definition exclusive_noted :: "target_list \<Rightarrow> bool" where
  "exclusive_noted tgl = (\<forall>t \<in> set (tl_targets tgl). tg_source t \<noteq> FromSnoop \<longrightarrow>
     needsExclusive (pk_cmd (tg_pkt t)) \<longrightarrow> tl_needsExclusive tgl)"

lemma tl_ok_exclusive: "tl_ok tgl \<Longrightarrow> exclusive_noted tgl"
  by (simp add: tl_ok_def exclusive_noted_def)

lemma handleFill_cases:
  assumes "handleFill i p st = Inr st'" "i < length st" "st' \<noteq> st"
  obtains b where "others_pending i st st'" "tl_needsExclusive (ms_deferredTargets (st ! i))"
    "st' ! i = (st ! i)\<lparr>ms_targets := (ms_targets (st ! i))\<lparr>tl_needsExclusive := True, tl_targets :=
         tl_targets (ms_targets (st ! i)) @ tl_targets (ms_deferredTargets (st ! i))\<rparr>,
       ms_deferredTargets := TargetList, ms_downstreamPending := b\<rparr>"
proof -
  let ?m = "st ! i"
  let ?ex = "upd_mshr i (upd_tl InTargets (\<lambda>tgl. tgl\<lparr>tl_needsExclusive := True\<rparr>)) st"
  let ?mv = "\<lambda>m. m\<lparr>ms_targets := (ms_targets m)\<lparr>tl_targets := tl_targets (ms_targets m) @ tl_targets (ms_deferredTargets m)\<rparr>,
       ms_deferredTargets := resetFlags ((ms_deferredTargets m)\<lparr>tl_targets := []\<rparr>)\<rparr>"
  obtain st1 where c: "clear_targets (tl_targets (ms_deferredTargets ?m)) ?ex = Inr st1" "st' = upd_mshr i ?mv st1"
    "tl_needsExclusive (ms_deferredTargets ?m)"
    using assms by (auto simp: handleFill_def rbind_assert rbind_eq_Inr_iff hasPostInvalidate_def hasPostDowngrade_def split: if_split_asm)
  have po: "pending_only ?ex st1" by (rule clear_targets_frame [OF c(1)])
  then obtain b where "st1 ! i = (?ex ! i)\<lparr>ms_downstreamPending := b\<rparr>" using assms(2) by (auto simp: pending_only_def)
  moreover have "length st1 = length st" using po by (simp add: pending_only_def)
  moreover have "resetFlags ((ms_deferredTargets ?m)\<lparr>tl_targets := []\<rparr>) = TargetList"
    by (simp add: resetFlags_def TargetList_def)
  moreover have "others_pending i st st'"
    unfolding c(2) by (intro others_pending_upd others_pending_trans [OF _ pending_only_others [OF po]]) (simp add: others_pending_upd)
  ultimately show thesis using that [of b] assms(2) c by simp
qed

lemma handleFill_ok:
  assumes "mshr_ok (st ! i)" "i < length st" "handleFill i p st = Inr st'"
  shows "service_order (st' ! i) = service_order (st ! i)" "exclusive_noted (ms_targets (st' ! i))" "others_pending i st st'"
proof -
  have "service_order (st' ! i) = service_order (st ! i) \<and> exclusive_noted (ms_targets (st' ! i)) \<and> others_pending i st st'"
  proof (cases "st' = st")
    case False
    then show ?thesis
      by (rule handleFill_cases [OF assms(3,2)])
         (use assms(1) in \<open>auto simp: service_order_def mshr_ok_def exclusive_noted_def TargetList_def\<close>)
  qed (use assms(1) in \<open>simp add: mshr_ok_def tl_ok_exclusive\<close>)
  then show "service_order (st' ! i) = service_order (st ! i)" "exclusive_noted (ms_targets (st' ! i))" "others_pending i st st'"
    by simp_all
qed

lemma handleFill_keeps_hasUpgrade:
  assumes "handleFill i p st = Inr st'" "i < length st" "st' \<noteq> st"
  shows "tl_hasUpgrade (ms_targets (st' ! i)) = tl_hasUpgrade (ms_targets (st ! i)) \<and>
    set (tl_targets (ms_deferredTargets (st ! i))) \<subseteq> set (tl_targets (ms_targets (st' ! i)))"
  by (rule handleFill_cases [OF assms]) simp

text \<open>What a snooped request that takes the block away does to the upgrades that wait here.\<close>

definition no_upgrades :: "target_list \<Rightarrow> bool" where
  "no_upgrades tgl = (\<forall>t \<in> set (tl_targets tgl). tg_source t \<noteq> FromSnoop \<longrightarrow> \<not> upgrade_like (pk_cmd (tg_pkt t)))"

lemma replaceUpgrades_none: "tl_ok tgl \<Longrightarrow> no_upgrades (replaceUpgrades tgl)"
  using replaceUpgrades_ok(3) by (simp add: no_upgrades_def)

lemma mshr_ok_replace:
  assumes "mshr_ok m"
  shows "mshr_ok (upd_tl InDeferred replaceUpgrades m)" "mshr_ok (upd_tl InTargets replaceUpgrades m)"
proof -
  have d: "tl_targets (replaceUpgrades tgl) = [] \<longleftrightarrow> tl_targets tgl = []" for tgl by (simp add: replaceUpgrades_def)
  then show "mshr_ok (upd_tl InDeferred replaceUpgrades m)" "mshr_ok (upd_tl InTargets replaceUpgrades m)"
    using assms replaceUpgrades_ok(1) replaceUpgrades_reset [of "ms_deferredTargets m"] by (simp_all add: mshr_ok_def)
qed

lemma mshr_ok_flags [simp]:
  "mshr_ok (m\<lparr>ms_postInvalidate := b\<rparr>) = mshr_ok m" "mshr_ok (m\<lparr>ms_postDowngrade := b\<rparr>) = mshr_ok m"
  by (simp_all add: mshr_ok_def)

text \<open>A snoop that arrives before the request of the register is ordered.\<close>

lemma handleSnoop_before:
  assumes "handleSnoop now i p order st = Inr (False, p', st')" "mshr_ok (st ! i)" "i < length st"
  shows "mshr_ok (st' ! i)" "others_pending i st st'" "p' = p"
    "needsExclusive (pk_cmd p) \<Longrightarrow> no_upgrades (ms_targets (st' ! i)) \<and> no_upgrades (ms_deferredTargets (st' ! i))"
    "service_order (st' ! i) = service_order (st ! i)"
proof -
  let ?f = "upd_tl InDeferred replaceUpgrades \<circ> upd_tl InTargets replaceUpgrades"
  have r: "p' = p" "st' = (if needsExclusive (pk_cmd p) then upd_mshr i ?f st else st)"
    using assms(1,3)
    by (auto simp: handleSnoop_def Let_def rbind_eq_Inr_iff split: if_split_asm)
  show "p' = p" by (rule r(1))
  show "mshr_ok (st' ! i)" "others_pending i st st'"
    using r(2) assms(2,3) mshr_ok_replace(1) [OF mshr_ok_replace(2) [OF assms(2)]] by (auto simp: others_pending_upd)
  show "no_upgrades (ms_targets (st' ! i)) \<and> no_upgrades (ms_deferredTargets (st' ! i))" if "needsExclusive (pk_cmd p)"
    using that r(2) assms(2,3) by (simp add: mshr_ok_def replaceUpgrades_none)
  have "map tg_order (tl_targets (replaceUpgrades tgl)) = map tg_order (tl_targets tgl)" for tgl
    by (simp add: replaceUpgrades_def comp_def)
  then show "service_order (st' ! i) = service_order (st ! i)"
    using r(2) assms(3) by (simp add: service_order_def)
qed

text \<open>A snoop that arrives after it.\<close>

lemma handleSnoop_after:
  assumes run: "handleSnoop now i p order st = Inr (True, p', st')" and ok: "mshr_ok (st ! i)" and i: "i < length st"
  defines "m \<equiv> st ! i"
  defines "m1 \<equiv> (if needsExclusive (pk_cmd p) then upd_tl InDeferred replaceUpgrades m else m)"
  obtains b t where "others_pending i st st'" "ms_inService m"
    "st' ! i = (if ms_postInvalidate m then m1
       else (if ms_pendingDirty m \<or> isInvalidate (pk_cmd p)
             then (upd_tl InTargets (tl_push FromSnoop (copy_packet p True) t) m1)
                  \<lparr>ms_postInvalidate := needsExclusive (pk_cmd p), ms_downstreamPending := b\<rparr>
             else m1)\<lparr>ms_postDowngrade := ms_postDowngrade m \<or> \<not> needsExclusive (pk_cmd p)\<rparr>)"
    "tg_source t = FromSnoop" "tg_pkt t = copy_packet p True" "tg_order t = order"
    "p' = (if ms_postInvalidate m then p
       else let p1 = (if ms_pendingDirty m then setSupplyExclusive (assertMemInhibit p) else p)
            in if needsExclusive (pk_cmd p) then p1 else assertShared p1)"
proof -
  let ?st1 = "if needsExclusive (pk_cmd p) then upd_mshr i (upd_tl InDeferred replaceUpgrades) st else st"
  let ?mk = "ms_downstreamPending m \<and> tl_needsExclusive (ms_targets m)"
  let ?t = "Target now (copy_packet p True) now order FromSnoop ?mk"
  have st1: "?st1 ! i = m1" "length ?st1 = length st" "others_pending i st ?st1"
    using i by (auto simp: m1_def m_def others_pending_upd)
  have serv: "ms_inService m" using run i by (auto simp: handleSnoop_def m_def split: if_split_asm)
  have keep: "m1\<lparr>ms_postDowngrade := ms_postDowngrade m\<rparr> = m1" "ms_postDowngrade m1 = ms_postDowngrade m"
    by (cases m; simp add: m1_def)+
  consider "ms_postInvalidate m" | "\<not> ms_postInvalidate m" "\<not> (ms_pendingDirty m \<or> isInvalidate (pk_cmd p))"
    | "\<not> ms_postInvalidate m" "ms_pendingDirty m \<or> isInvalidate (pk_cmd p)" by blast
  then show thesis
  proof cases
    case 1
    then have r: "st' = ?st1" "p' = p"
      using run i serv by (auto simp: handleSnoop_def m_def hasPostInvalidate_def rbind_assert split: if_split_asm)
    show thesis
      by (rule that [where t = ?t and b = True]) (use 1 r st1(1,3) serv in \<open>simp_all add: Target_def\<close>)
  next
    case 2
    then have r: "st' = (if needsExclusive (pk_cmd p) then ?st1 else upd_mshr i (\<lambda>m. m\<lparr>ms_postDowngrade := True\<rparr>) ?st1)"
      "p' = (if needsExclusive (pk_cmd p) then p else assertShared p)"
      using run i serv by (auto simp: handleSnoop_def m_def hasPostInvalidate_def isPendingDirty_def rbind_assert split: if_split_asm)
    have "others_pending i st st'" using st1(3) unfolding r(1) by (simp add: others_pending_upd)
    moreover have "st' ! i = m1\<lparr>ms_postDowngrade := ms_postDowngrade m \<or> \<not> needsExclusive (pk_cmd p)\<rparr>"
      using st1(1,2) i keep unfolding r(1) by (cases "needsExclusive (pk_cmd p)") simp_all
    ultimately show thesis
      by (intro that [where t = ?t and b = True]) (use 2 r(2) serv in \<open>simp_all add: Target_def\<close>)
  next
    case 3
    then obtain st2 where st2: "tl_add now i InTargets (copy_packet p True) now order FromSnoop ?mk ?st1 = Inr st2"
      "st' = (if needsExclusive (pk_cmd p) then upd_mshr i (\<lambda>m. m\<lparr>ms_postInvalidate := True\<rparr>) st2
              else upd_mshr i (\<lambda>m. m\<lparr>ms_postDowngrade := True\<rparr>) st2)"
      "p' = (let p1 = (if ms_pendingDirty m then setSupplyExclusive (assertMemInhibit p) else p)
            in if needsExclusive (pk_cmd p) then p1 else assertShared p1)"
      using run i serv
      by (auto simp: handleSnoop_def m_def hasPostInvalidate_def isPendingDirty_def rbind_assert rbind_eq_Inr_iff Let_def
          split: if_split_asm)
    have i1: "i < length ?st1" using i st1(2) by simp
    obtain b where e: "others_pending i ?st1 st2"
      "st2 ! i = (upd_tl InTargets (tl_push FromSnoop (copy_packet p True) ?t) (?st1 ! i))\<lparr>ms_downstreamPending := b\<rparr>"
      by (rule tl_add_effect [OF st2(1) i1])
    have len: "length st2 = length st" using e(1) st1(2) by (simp add: others_pending_def)
    have fr: "ms_postInvalidate m1 = ms_postInvalidate m" "ms_postDowngrade m1 = ms_postDowngrade m" by (simp_all add: m1_def)
    have "others_pending i st st'"
      using others_pending_trans [OF st1(3) e(1)] by (simp add: st2(2) others_pending_upd)
    moreover have "st' ! i = (upd_tl InTargets (tl_push FromSnoop (copy_packet p True) ?t) m1)
       \<lparr>ms_postInvalidate := needsExclusive (pk_cmd p), ms_downstreamPending := b,
        ms_postDowngrade := ms_postDowngrade m \<or> \<not> needsExclusive (pk_cmd p)\<rparr>"
    proof -
      have e2: "st2 ! i = (upd_tl InTargets (tl_push FromSnoop (copy_packet p True) ?t) m1)\<lparr>ms_downstreamPending := b\<rparr>"
        using e(2) unfolding st1(1) .
      show ?thesis
        using i len 3(1) fr(1)
        by (cases "needsExclusive (pk_cmd p)"; cases m1) (simp_all add: st2(2) e2 fr(2) [symmetric])
    qed
    ultimately show thesis
      by (intro that [where t = ?t and b = b]) (use 3 st2(3) serv in \<open>simp_all add: Target_def\<close>)
  qed
qed

lemma tl_push_ok_snoop: "tl_ok tgl \<Longrightarrow> tg_source t = FromSnoop \<Longrightarrow> tl_ok (tl_push FromSnoop p t tgl)"
  by (auto simp: tl_ok_def tl_push_def tl_note_def)

lemma memInhibit_flags: "memInhibitAsserted (assertMemInhibit p)" "memInhibitAsserted (setSupplyExclusive p) = memInhibitAsserted p"
  "memInhibitAsserted (assertShared p) = memInhibitAsserted p"
  by (simp_all add: memInhibitAsserted_def assertMemInhibit_def setSupplyExclusive_def assertShared_def flag_set_def flag_isSet_def
      packet_flag_defs bit.conj_disj_distrib2 or_eq_0_iff)

lemma handleSnoop_ok:
  assumes "handleSnoop now i p order st = Inr (r, p', st')" "mshr_ok (st ! i)" "i < length st"
  shows "mshr_ok (st' ! i) \<and> others_pending i st st' \<and> ms_inService (st' ! i) = ms_inService (st ! i)"
proof (cases r)
  case False
  then have "ms_inService (st' ! i) = ms_inService (st ! i)"
    using assms(1,3) by (auto simp: handleSnoop_def Let_def rbind_eq_Inr_iff split: if_split_asm)
  then show ?thesis using handleSnoop_before [of now i p order st p' st'] assms False by simp
next
  case True
  with assms have run: "handleSnoop now i p order st = Inr (True, p', st')" by simp
  show ?thesis
  proof (rule handleSnoop_after [OF run assms(2,3)], goal_cases)
    case (1 b t)
    have "mshr_ok (upd_tl InTargets (tl_push FromSnoop q t) m)" if "mshr_ok m" for q m
      using that tl_push_ok_snoop 1(4) by (simp add: mshr_ok_def)
    then show ?thesis using 1(1-3) assms(2) mshr_ok_replace(1) [OF assms(2)] by (auto simp: Let_def)
  qed
qed

text \<open>
  A snooped request that takes the block away: no upgrade is left waiting for a copy that will be gone, the
  invalidation is remembered, and if this cache is to own the block it promises to respond and keeps a
  target for the response.
\<close>

lemma handleSnoop_exclusive:
  assumes run: "handleSnoop now i p order st = Inr (r, p', st')" and ok: "mshr_ok (st ! i)" and i: "i < length st"
    and ex: "needsExclusive (pk_cmd p)" "isInvalidate (pk_cmd p)"
  shows "no_upgrades (ms_deferredTargets (st' ! i)) \<and>
    (if r then ms_postInvalidate (st' ! i) else no_upgrades (ms_targets (st' ! i)))"
proof (cases r)
  case False
  then show ?thesis using handleSnoop_before(4) [of now i p order st p' st'] run ok i ex by simp
next
  case True
  with run have run': "handleSnoop now i p order st = Inr (True, p', st')" by simp
  show ?thesis
  proof (rule handleSnoop_after [OF run' ok i], goal_cases)
    case (1 b t)
    have "no_upgrades (replaceUpgrades (ms_deferredTargets (st ! i)))"
      using ok by (simp add: mshr_ok_def replaceUpgrades_none)
    then show ?thesis using 1(3) ex True by simp
  qed
qed

lemma handleSnoop_promise:
  assumes run: "handleSnoop now i p order st = Inr (True, p', st')" and ok: "mshr_ok (st ! i)" and i: "i < length st"
    and "ms_pendingDirty (st ! i)" "\<not> ms_postInvalidate (st ! i)"
  shows "memInhibitAsserted p' \<and>
    (\<exists>t. tl_targets (ms_targets (st' ! i)) = tl_targets (ms_targets (st ! i)) @ [t] \<and> tg_source t = FromSnoop \<and>
       tg_pkt t = copy_packet p True \<and> tg_order t = order)"
proof (rule handleSnoop_after [OF run ok i], goal_cases)
  case (1 b t)
  then show ?thesis using assms(4,5) by (auto simp: Let_def memInhibit_flags)
qed

end
