(* ===== verification/Mshr_Queue.thy ===== *)
theory Mshr_Queue
  imports Mshr
begin

text \<open>
  The queue of miss status registers, \<^verbatim>\<open>hyper/mem/cache/mshr_queue.cc\<close> and \<^verbatim>\<open>mshr_queue.hh\<close>. The
  registers of the queue are consecutive entries of the store, and its three lists hold their indices.
  Erasing through an iterator is removing the index from the list the iterator points into.
\<close>

record mshr_queue =
  mq_label :: string
  mq_numEntries :: int
  mq_numReserve :: int
  mq_registers :: "nat list"
  mq_allocatedList :: "nat list"
  mq_readyList :: "nat list"
  mq_freeList :: "nat list"
  mq_drainManager :: bool
  mq_drained :: bool
  mq_allocated :: int
  mq_inServiceEntries :: int
  mq_index :: int

text \<open>The registers of the queue are the store entries from \<open>base\<close> on.\<close>

definition MSHRQueue :: "nat \<Rightarrow> string \<Rightarrow> int \<Rightarrow> int \<Rightarrow> int \<Rightarrow> mshr_queue" where
  "MSHRQueue base label num_entries reserve index =
     (let n = num_entries + reserve - 1; regs = [base ..< base + nat n] in
      \<lparr>mq_label = label, mq_numEntries = n, mq_numReserve = reserve, mq_registers = regs,
       mq_allocatedList = [], mq_readyList = [], mq_freeList = regs,
       mq_drainManager = False, mq_drained = False, mq_allocated = 0, mq_inServiceEntries = 0, mq_index = index\<rparr>)"

definition mshr_matches :: "guest_id \<Rightarrow> addr \<Rightarrow> bool \<Rightarrow> mshr \<Rightarrow> bool" where
  "mshr_matches guest a is_secure m = (ms_guest m = guest \<and> ms_addr m = a \<and> ms_isSecure m = is_secure)"

definition findMatch :: "mshr_queue \<Rightarrow> mshr_store \<Rightarrow> guest_id \<Rightarrow> addr \<Rightarrow> bool \<Rightarrow> nat option" where
  "findMatch q st guest a is_secure = find (\<lambda>i. mshr_matches guest a is_secure (st ! i)) (mq_allocatedList q)"

definition findMatches ::
  "mshr_queue \<Rightarrow> mshr_store \<Rightarrow> guest_id \<Rightarrow> addr \<Rightarrow> bool \<Rightarrow> nat list \<Rightarrow> (bool \<times> nat list) result" where
  "findMatches q st guest a is_secure matches =
     rbind (sim_assert (matches = [])) (\<lambda>_.
       let found = filter (\<lambda>i. mshr_matches guest a is_secure (st ! i)) (mq_allocatedList q)
       in Inr (found \<noteq> [], matches @ found))"

fun mq_check_loop ::
  "u8 list \<Rightarrow> packet \<Rightarrow> addr \<Rightarrow> nat list \<Rightarrow> mshr_store \<Rightarrow> (bool \<times> packet \<times> mshr_store) result" where
  "mq_check_loop junk p blk_addr [] st = Inr (False, p, st)"
| "mq_check_loop junk p blk_addr (i # js) st =
     rbind (PARDG5V_PKT_TO_GUESTID p) (\<lambda>g.
     if ms_guest (st ! i) = g \<and> ms_addr (st ! i) = blk_addr then
       rbind (mshr_checkFunctional junk p (st ! i)) (\<lambda>(f, p1, m1).
         if f then Inr (True, p1, st[i := m1]) else mq_check_loop junk p1 blk_addr js (st[i := m1]))
     else mq_check_loop junk p blk_addr js st)"

definition mq_checkFunctional ::
  "u8 list \<Rightarrow> packet \<Rightarrow> addr \<Rightarrow> mshr_queue \<Rightarrow> mshr_store \<Rightarrow> (bool \<times> packet \<times> mshr_store) result" where
  "mq_checkFunctional junk p blk_addr q st =
     rbind (pushLabel (mq_label q) p) (\<lambda>p1.
     rbind (mq_check_loop junk p1 blk_addr (mq_allocatedList q) st) (\<lambda>(f, p2, st').
     rbind (popLabel p2) (\<lambda>p3. Inr (f, p3, st'))))"

definition pending_overlap :: "guest_id \<Rightarrow> addr \<Rightarrow> nat \<Rightarrow> bool \<Rightarrow> mshr \<Rightarrow> bool" where
  "pending_overlap guest a sz is_secure m =
     (ms_guest m = guest \<and> ms_isSecure m = is_secure \<and>
      (if ms_addr m < a then ms_addr m + of_nat (ms_size m) > a else a + of_nat sz > ms_addr m))"

definition findPending :: "mshr_queue \<Rightarrow> mshr_store \<Rightarrow> guest_id \<Rightarrow> addr \<Rightarrow> nat \<Rightarrow> bool \<Rightarrow> nat option" where
  "findPending q st guest a sz is_secure =
     find (\<lambda>i. pending_overlap guest a sz is_secure (st ! i)) (mq_readyList q)"

text \<open>The insertion loop of \<^verbatim>\<open>addToReadyList\<close>, which asserts that it does not reach the end.\<close>

fun ready_insert :: "(nat \<Rightarrow> tick) \<Rightarrow> nat \<Rightarrow> nat list \<Rightarrow> nat list result" where
  "ready_insert time i [] = Inl AssertFail"
| "ready_insert time i (j # js) =
     (if time j > time i then Inr (i # j # js) else rbind (ready_insert time i js) (\<lambda>ks. Inr (j # ks)))"

definition addToReadyList :: "mshr_store \<Rightarrow> nat \<Rightarrow> nat list \<Rightarrow> nat list result" where
  "addToReadyList st i ready =
     (if ready = [] \<or> ms_readyTime (st ! last ready) \<le> ms_readyTime (st ! i) then Inr (ready @ [i])
      else ready_insert (\<lambda>j. ms_readyTime (st ! j)) i ready)"

definition mq_allocate ::
  "tick \<Rightarrow> guest_id \<Rightarrow> addr \<Rightarrow> nat \<Rightarrow> packet \<Rightarrow> tick \<Rightarrow> nat \<Rightarrow> mshr_queue \<Rightarrow> mshr_store
   \<Rightarrow> (nat \<times> mshr_queue \<times> mshr_store) result" where
  "mq_allocate now guest a sz p when order q st =
     (case mq_freeList q of
        [] \<Rightarrow> Inl AssertFail
      | i # free \<Rightarrow>
          rbind (vec_get st i) (\<lambda>m.
          rbind (sim_assert (getNumTargets m = 0)) (\<lambda>_.
          rbind (mshr_allocate now i guest a sz p when order st) (\<lambda>st1.
          rbind (addToReadyList st1 i (mq_readyList q)) (\<lambda>ready.
            Inr (i, q\<lparr>mq_freeList := free, mq_allocatedList := mq_allocatedList q @ [i], mq_readyList := ready,
                      mq_allocated := mq_allocated q + 1\<rparr>, st1))))))"

definition list_erase :: "'a \<Rightarrow> 'a list \<Rightarrow> 'a list result" where
  "list_erase x xs = (if x \<in> set xs then Inr (remove1 x xs) else Inl BadAccess)"

definition mq_deallocate :: "nat \<Rightarrow> mshr_queue \<Rightarrow> mshr_store \<Rightarrow> (mshr_queue \<times> mshr_store) result" where
  "mq_deallocate i q st =
     rbind (vec_get st i) (\<lambda>m.
     rbind (list_erase i (mq_allocatedList q)) (\<lambda>alloc.
       let q1 = q\<lparr>mq_allocatedList := alloc, mq_freeList := i # mq_freeList q, mq_allocated := mq_allocated q - 1\<rparr> in
     rbind (if ms_inService m then Inr (q1\<lparr>mq_inServiceEntries := mq_inServiceEntries q1 - 1\<rparr>)
            else rbind (list_erase i (mq_readyList q1)) (\<lambda>ready. Inr (q1\<lparr>mq_readyList := ready\<rparr>))) (\<lambda>q2.
     rbind (mshr_deallocate m) (\<lambda>m1.
       Inr (if mq_drainManager q2 \<and> mq_allocated q2 = 0 then q2\<lparr>mq_drainManager := False, mq_drained := True\<rparr> else q2,
            st[i := m1])))))"

definition mq_moveToFront :: "nat \<Rightarrow> mshr_queue \<Rightarrow> mshr_store \<Rightarrow> mshr_queue result" where
  "mq_moveToFront i q st =
     rbind (vec_get st i) (\<lambda>m.
       if \<not> ms_inService m
       then rbind (list_erase i (mq_readyList q)) (\<lambda>ready. Inr (q\<lparr>mq_readyList := i # ready\<rparr>))
       else Inr q)"

definition mq_markInService :: "nat \<Rightarrow> packet \<Rightarrow> mshr_queue \<Rightarrow> mshr_store \<Rightarrow> (mshr_queue \<times> mshr_store) result" where
  "mq_markInService i p q st =
     rbind (mshr_markInService i p st) (\<lambda>(fwd, st1).
       if fwd then mq_deallocate i q st1
       else rbind (list_erase i (mq_readyList q)) (\<lambda>ready.
         Inr (q\<lparr>mq_readyList := ready, mq_inServiceEntries := mq_inServiceEntries q + 1\<rparr>, st1)))"

definition mq_markPending :: "nat \<Rightarrow> mshr_queue \<Rightarrow> mshr_store \<Rightarrow> (mshr_queue \<times> mshr_store) result" where
  "mq_markPending i q st =
     rbind (vec_get st i) (\<lambda>m.
     rbind (sim_assert (ms_inService m)) (\<lambda>_.
       let st1 = upd_mshr i (\<lambda>m. m\<lparr>ms_inService := False\<rparr>) st in
     rbind (addToReadyList st1 i (mq_readyList q)) (\<lambda>ready.
       Inr (q\<lparr>mq_inServiceEntries := mq_inServiceEntries q - 1, mq_readyList := ready\<rparr>, st1))))"

text \<open>
  \<^verbatim>\<open>squash\<close>: the loop over the allocated list, where \<open>js\<close> is the part not visited yet. Popping a target
  asserts that the thread number is 0.
\<close>

fun squash_loop :: "int \<Rightarrow> nat list \<Rightarrow> mshr_queue \<Rightarrow> mshr_store \<Rightarrow> (mshr_queue \<times> mshr_store) result" where
  "squash_loop thr [] q st = Inr (q, st)"
| "squash_loop thr (i # js) q st =
     rbind (vec_get st i) (\<lambda>m.
     if ms_threadNum m = thr then
       rbind (sim_assert (hasTargets m \<longrightarrow> thr = 0)) (\<lambda>_.
         let m1 = m\<lparr>ms_targets := (ms_targets m)\<lparr>tl_targets := []\<rparr>\<rparr>; st1 = st[i := m1] in
       rbind (sim_assert (getNumTargets m1 = 0)) (\<lambda>_.
         if \<not> ms_inService m1 then rbind (mq_deallocate i q st1) (\<lambda>(q2, st2). squash_loop thr js q2 st2)
         else squash_loop thr js q st1))
     else squash_loop thr js q st)"

definition mq_squash :: "int \<Rightarrow> mshr_queue \<Rightarrow> mshr_store \<Rightarrow> (mshr_queue \<times> mshr_store) result" where
  "mq_squash thr q st = squash_loop thr (mq_allocatedList q) q st"

definition mq_havePending :: "mshr_queue \<Rightarrow> bool" where
  "mq_havePending q = (mq_readyList q \<noteq> [])"

definition mq_isFull :: "mshr_queue \<Rightarrow> bool" where
  "mq_isFull q = (mq_allocated q > mq_numEntries q - mq_numReserve q)"

definition getNextMSHR :: "tick \<Rightarrow> mshr_queue \<Rightarrow> mshr_store \<Rightarrow> nat option" where
  "getNextMSHR now q st =
     (case mq_readyList q of [] \<Rightarrow> None | i # _ \<Rightarrow> if ms_readyTime (st ! i) > now then None else Some i)"

definition nextMSHRReadyTime :: "tick \<Rightarrow> mshr_queue \<Rightarrow> mshr_store \<Rightarrow> tick" where
  "nextMSHRReadyTime MaxTick q st = (case mq_readyList q of [] \<Rightarrow> MaxTick | i # _ \<Rightarrow> ms_readyTime (st ! i))"

definition mq_drain :: "mshr_queue \<Rightarrow> nat \<times> mshr_queue" where
  "mq_drain q =
     (if mq_allocated q = 0 then (0, q\<lparr>mq_drained := True\<rparr>)
      else (1, q\<lparr>mq_drainManager := True, mq_drained := False\<rparr>))"

section \<open>The invariant of the queue\<close>

definition free_mshr :: "mshr \<Rightarrow> bool" where
  "free_mshr m = (getNumTargets m = 0 \<and> isReset (ms_targets m) \<and> isReset (ms_deferredTargets m) \<and> \<not> ms_inService m)"

definition mq_inv :: "mshr_queue \<Rightarrow> mshr_store \<Rightarrow> bool" where
  "mq_inv q st =
     (distinct (mq_freeList q @ mq_allocatedList q) \<and>
      set (mq_freeList q @ mq_allocatedList q) = set (mq_registers q) \<and>
      distinct (mq_readyList q) \<and>
      set (mq_readyList q) = {i \<in> set (mq_allocatedList q). \<not> ms_inService (st ! i)} \<and>
      mq_allocated q = int (length (mq_allocatedList q)) \<and>
      mq_inServiceEntries q = int (length (filter (\<lambda>i. ms_inService (st ! i)) (mq_allocatedList q))) \<and>
      (\<forall>i \<in> set (mq_registers q). i < length st) \<and>
      distinct (mq_registers q) \<and> mq_numEntries q = int (length (mq_registers q)) \<and>
      (\<forall>i \<in> set (mq_freeList q). free_mshr (st ! i)) \<and>
      (\<forall>i \<in> set (mq_allocatedList q). mshr_ok (st ! i)))"

lemma mq_inv_lists:
  assumes "mq_inv q st" "i \<in> set (mq_allocatedList q)"
  shows "i < length st" "i \<notin> set (mq_freeList q)" "mshr_ok (st ! i)" "i \<in> set (mq_readyList q) \<longleftrightarrow> \<not> ms_inService (st ! i)"
  using assms by (auto simp: mq_inv_def)

lemma MSHRQueue_inv:
  assumes "0 \<le> num_entries + reserve - 1" "base + nat (num_entries + reserve - 1) \<le> length st"
    and "\<And>i. base \<le> i \<Longrightarrow> i < base + nat (num_entries + reserve - 1) \<Longrightarrow> \<exists>g. st ! i = MSHR g"
  shows "mq_inv (MSHRQueue base label num_entries reserve index) st"
proof -
  have "free_mshr (MSHR g)" for g
    by (simp add: free_mshr_def MSHR_def TargetList_def getNumTargets_def isReset_def)
  then have "\<forall>i \<in> {base ..< base + nat (num_entries + reserve - 1)}. free_mshr (st ! i)" using assms(3) by fastforce
  then show ?thesis using assms(1,2) by (auto simp: mq_inv_def MSHRQueue_def Let_def)
qed

text \<open>A change confined to the register \<open>i\<close> and to pending flags.\<close>

lemma mq_inv_change:
  assumes inv: "mq_inv q st" and op: "others_pending i st st'" and i: "i \<in> set (mq_allocatedList q)"
    and "mshr_ok (st' ! i)" "ms_inService (st' ! i) = ms_inService (st ! i)"
  shows "mq_inv q st'"
proof -
  have other: "ms_inService (st' ! k) = ms_inService (st ! k)" "free_mshr (st' ! k) = free_mshr (st ! k)"
    "mshr_ok (st' ! k) = mshr_ok (st ! k)" if k: "k \<noteq> i" "k < length st" for k
  proof -
    obtain c where "st' ! k = (st ! k)\<lparr>ms_downstreamPending := c\<rparr>" using op k by (auto simp: others_pending_def)
    then show "ms_inService (st' ! k) = ms_inService (st ! k)" "free_mshr (st' ! k) = free_mshr (st ! k)"
      "mshr_ok (st' ! k) = mshr_ok (st ! k)" by (simp_all add: free_mshr_def getNumTargets_def)
  qed
  have len: "length st' = length st" using op by (simp add: others_pending_def)
  have reg: "k < length st" if "k \<in> set (mq_freeList q @ mq_allocatedList q)" for k
    using inv that by (auto simp: mq_inv_def)
  have serv: "ms_inService (st' ! k) = ms_inService (st ! k)" if "k \<in> set (mq_allocatedList q)" for k
    using other(1) [of k] reg [of k] that assms(5) by (cases "k = i") auto
  then have "filter (\<lambda>k. ms_inService (st' ! k)) (mq_allocatedList q) = filter (\<lambda>k. ms_inService (st ! k)) (mq_allocatedList q)"
    by (intro filter_cong) auto
  moreover have "{k \<in> set (mq_allocatedList q). \<not> ms_inService (st' ! k)} = {k \<in> set (mq_allocatedList q). \<not> ms_inService (st ! k)}"
    using serv by auto
  moreover have "\<forall>k \<in> set (mq_freeList q). free_mshr (st' ! k)"
  proof
    fix k assume k: "k \<in> set (mq_freeList q)"
    then have "k \<noteq> i" "free_mshr (st ! k)" using inv i by (auto simp: mq_inv_def)
    then show "free_mshr (st' ! k)" using other(2) reg k by simp
  qed
  moreover have "\<forall>k \<in> set (mq_allocatedList q). mshr_ok (st' ! k)"
    using inv other(3) reg assms(4) by (metis (no_types, lifting) Un_iff mq_inv_def set_append)
  ultimately show ?thesis using inv len by (simp add: mq_inv_def)
qed

section \<open>The ready list\<close>

lemma ready_insert_ok:
  assumes "\<exists>j \<in> set js. time j > time i" "i \<notin> set js" "distinct js"
  shows "\<exists>ks. ready_insert time i js = Inr ks \<and> set ks = insert i (set js) \<and> distinct ks \<and>
    (sorted (map time js) \<longrightarrow> sorted (map time ks))"
  using assms
proof (induction js)
  case (Cons j js)
  show ?case
  proof (cases "time j > time i")
    case False
    then obtain ks where "ready_insert time i js = Inr ks" "set ks = insert i (set js)" "distinct ks"
      "sorted (map time js) \<longrightarrow> sorted (map time ks)" using Cons by auto
    then show ?thesis using False Cons.prems by auto
  qed (use Cons.prems in auto)
qed simp

lemma addToReadyList_ok:
  assumes "i \<notin> set ready" "distinct ready"
  shows "\<exists>ks. addToReadyList st i ready = Inr ks \<and> set ks = insert i (set ready) \<and> distinct ks \<and>
    (sorted (map (\<lambda>j. ms_readyTime (st ! j)) ready) \<longrightarrow> sorted (map (\<lambda>j. ms_readyTime (st ! j)) ks))"
proof (cases "ready = [] \<or> ms_readyTime (st ! last ready) \<le> ms_readyTime (st ! i)")
  case True
  have "ms_readyTime (st ! j) \<le> ms_readyTime (st ! i)" if j: "sorted (map (\<lambda>j. ms_readyTime (st ! j)) ready)" "j \<in> set ready" for j
  proof -
    obtain n where n: "n < length ready" "j = ready ! n" using j(2) by (auto simp: in_set_conv_nth)
    then have "ready \<noteq> []" by auto
    then have "ms_readyTime (st ! j) \<le> ms_readyTime (st ! last ready)"
      using sorted_nth_mono [OF j(1), of n "length ready - 1"] n by (simp add: last_conv_nth)
    then show ?thesis using True \<open>ready \<noteq> []\<close> by simp
  qed
  then show ?thesis using True assms by (auto simp: addToReadyList_def sorted_append)
next
  case False
  then have "\<exists>j \<in> set ready. ms_readyTime (st ! j) > ms_readyTime (st ! i)" by (auto intro!: bexI [of _ "last ready"])
  then show ?thesis using ready_insert_ok [OF _ assms, of "\<lambda>j. ms_readyTime (st ! j)"] False by (auto simp: addToReadyList_def)
qed

text \<open>A queue that is not full has a free register, so \<^verbatim>\<open>allocate\<close> finds one.\<close>

lemma not_full_free:
  assumes "mq_inv q st" "\<not> mq_isFull q" "1 \<le> mq_numReserve q"
  shows "mq_freeList q \<noteq> []"
proof
  assume "mq_freeList q = []"
  then have "set (mq_allocatedList q) = set (mq_registers q)" "distinct (mq_allocatedList q)" "distinct (mq_registers q)"
    using assms(1) by (auto simp: mq_inv_def)
  then have "length (mq_allocatedList q) = length (mq_registers q)" using distinct_card by metis
  then show False using assms by (simp add: mq_inv_def mq_isFull_def)
qed

lemma findMatch_guest:
  "findMatch q st guest a sec = Some i \<Longrightarrow> i \<in> set (mq_allocatedList q) \<and> ms_guest (st ! i) = guest \<and> ms_addr (st ! i) = a \<and>
     ms_isSecure (st ! i) = sec"
  by (auto simp: findMatch_def mshr_matches_def dest: find_SomeD)

section \<open>Every operation keeps the invariant\<close>

lemma others_pendingD:
  assumes "others_pending i st st'" "k \<noteq> i" "k < length st"
  shows "ms_inService (st' ! k) = ms_inService (st ! k)" "free_mshr (st' ! k) = free_mshr (st ! k)"
    "mshr_ok (st' ! k) = mshr_ok (st ! k)" "ms_readyTime (st' ! k) = ms_readyTime (st ! k)"
    "mshr_matches g a sec (st' ! k) = mshr_matches g a sec (st ! k)"
proof -
  obtain c where "st' ! k = (st ! k)\<lparr>ms_downstreamPending := c\<rparr>" using assms by (auto simp: others_pending_def)
  then show "ms_inService (st' ! k) = ms_inService (st ! k)" "free_mshr (st' ! k) = free_mshr (st ! k)"
    "mshr_ok (st' ! k) = mshr_ok (st ! k)" "ms_readyTime (st' ! k) = ms_readyTime (st ! k)"
    "mshr_matches g a sec (st' ! k) = mshr_matches g a sec (st ! k)"
    by (simp_all add: free_mshr_def getNumTargets_def mshr_matches_def)
qed

lemma filter_service_cong:
  assumes "others_pending i st st'" "i \<notin> set xs" "\<forall>k \<in> set xs. k < length st"
  shows "filter (\<lambda>k. ms_inService (st' ! k)) xs = filter (\<lambda>k. ms_inService (st ! k)) xs"
proof (rule filter_cong [OF refl])
  fix k assume "k \<in> set xs"
  then have "k \<noteq> i" "k < length st" using assms(2,3) by auto
  then show "ms_inService (st' ! k) = ms_inService (st ! k)" by (rule others_pendingD(1) [OF assms(1)])
qed

lemma mshr_allocate_ok:
  assumes "free_mshr (st ! i)" "i < length st" "isRequest (pk_cmd p)" "upstream_free p st"
  shows "\<exists>st'. mshr_allocate now i guest a sz p when order st = Inr st' \<and> others_pending i st st' \<and> mshr_ok (st' ! i) \<and>
    \<not> ms_inService (st' ! i) \<and> mshr_matches guest a (pk_isSecure p) (st' ! i) \<and> service_order (st' ! i) = [order] \<and>
    ms_readyTime (st' ! i) = when"
proof -
  let ?m = "(st ! i)\<lparr>ms_guest := guest, ms_addr := a, ms_size := sz, ms_isSecure := pk_isSecure p,
      ms_readyTime := when, ms_order := order, ms_isForward := False, ms_isUncacheable := rq_uncacheable (pk_req p),
      ms_inService := False, ms_downstreamPending := False, ms_threadNum := 0\<rparr>"
  let ?s = "if pk_cmd p = HardPFReq then FromPrefetcher else FromCPU"
  let ?st = "st[i := ?m]"
  have fr: "tl_targets (ms_targets (st ! i)) = []" "tl_targets (ms_deferredTargets (st ! i)) = []"
    "isReset (ms_targets (st ! i))" "isReset (ms_deferredTargets (st ! i))"
    using assms(1) by (simp_all add: free_mshr_def getNumTargets_def)
  have "upstream_free p ?st" using assms(2,4)
    by (auto simp: upstream_free_def nth_list_update split: option.splits)
  then have "\<exists>st'. tl_add now i InTargets p when order ?s True ?st = Inr st'"
    by (intro tl_add_total) (use assms(2) in simp_all)
  then obtain st' where st': "tl_add now i InTargets p when order ?s True ?st = Inr st'" by blast
  obtain b where e: "others_pending i ?st st'"
    "st' ! i = (upd_tl InTargets (tl_push ?s p (Target now p when order ?s True)) (?st ! i))\<lparr>ms_downstreamPending := b\<rparr>"
    by (rule tl_add_effect [OF st']) (use assms(2) in simp)
  have "others_pending i st st'" using e(1) by (simp add: others_pending_def)
  moreover have "tl_ok (tl_push ?s p (Target now p when order ?s True) (ms_targets (st ! i)))"
    using fr assms(3) by (intro tl_ok_push tl_ok_empty) auto
  moreover have "mshr_allocate now i guest a sz p when order st = Inr st'"
    using st' assms(2) fr e(2) by (simp add: mshr_allocate_def Let_def rbind_assert)
  ultimately show ?thesis
    using e(2) assms(2) fr
    by (auto simp: mshr_ok_def tl_ok_empty mshr_matches_def service_order_def Target_def)
qed

lemma mq_allocate_ok:
  assumes inv: "mq_inv q st" and "\<not> mq_isFull q" "1 \<le> mq_numReserve q" "isRequest (pk_cmd p)" "upstream_free p st"
  shows "\<exists>i q' st'. mq_allocate now guest a sz p when order q st = Inr (i, q', st') \<and> mq_inv q' st' \<and>
    mq_allocatedList q' = mq_allocatedList q @ [i] \<and> others_pending i st st' \<and> i \<notin> set (mq_allocatedList q) \<and>
    mshr_matches guest a (pk_isSecure p) (st' ! i) \<and> i < length st"
proof -
  obtain i fr where f: "mq_freeList q = i # fr" using not_full_free [OF assms(1-3)] by (cases "mq_freeList q") auto
  have i: "i < length st" "free_mshr (st ! i)" "i \<notin> set (mq_allocatedList q)" "i \<notin> set (mq_readyList q)" "i \<notin> set fr"
    and reg: "\<forall>k \<in> set (mq_registers q). k < length st"
    using inv f by (auto simp: mq_inv_def)
  obtain st' where st': "mshr_allocate now i guest a sz p when order st = Inr st'" "others_pending i st st'" "mshr_ok (st' ! i)"
    "\<not> ms_inService (st' ! i)" "mshr_matches guest a (pk_isSecure p) (st' ! i)"
    using mshr_allocate_ok [OF i(2,1) assms(4,5)] by blast
  have "distinct (mq_readyList q)" using inv by (simp add: mq_inv_def)
  then obtain ks where ks: "addToReadyList st' i (mq_readyList q) = Inr ks" "set ks = insert i (set (mq_readyList q))" "distinct ks"
    using addToReadyList_ok [OF i(4)] by blast
  let ?q = "q\<lparr>mq_freeList := fr, mq_allocatedList := mq_allocatedList q @ [i], mq_readyList := ks, mq_allocated := mq_allocated q + 1\<rparr>"
  have run: "mq_allocate now guest a sz p when order q st = Inr (i, ?q, st')"
    using f i(1,2) st'(1) ks(1) by (simp add: mq_allocate_def rbind_assert free_mshr_def)
  have al: "\<forall>k \<in> set (mq_allocatedList q). k < length st" "\<forall>k \<in> set fr. k < length st"
    using inv f by (auto simp: mq_inv_def)
  have len: "length st' = length st" using st'(2) by (simp add: others_pending_def)
  note o = others_pendingD [OF st'(2)]
  have "\<forall>k \<in> set fr. free_mshr (st' ! k)" "\<forall>k \<in> set (mq_allocatedList q). mshr_ok (st' ! k)"
    using inv f o(2,3) al i(3,5) by (auto simp: mq_inv_def) metis+
  moreover have "{k \<in> set (mq_allocatedList q @ [i]). \<not> ms_inService (st' ! k)} =
      insert i {k \<in> set (mq_allocatedList q). \<not> ms_inService (st ! k)}"
  proof -
    have "ms_inService (st' ! k) = ms_inService (st ! k)" if "k \<in> set (mq_allocatedList q)" for k
      using that i(3) al(1) by (intro o(1)) auto
    then show ?thesis using st'(4) by auto
  qed
  ultimately have "mq_inv ?q st'"
    using inv f ks(2,3) st'(3,4) i(3) filter_service_cong [OF st'(2) i(3) al(1)] len
    by (auto simp: mq_inv_def)
  then show ?thesis using run st'(2,5) i(1,3) by fastforce
qed

lemma find_last: "\<forall>x \<in> set xs. \<not> P x \<Longrightarrow> P y \<Longrightarrow> find P (xs @ [y]) = Some y"
  by (induction xs) auto

lemma findMatch_allocated:
  assumes "mq_inv q st" "findMatch q st guest a sec = None" "others_pending i st st'" "i \<notin> set (mq_allocatedList q)"
    and "mq_allocatedList q' = mq_allocatedList q @ [i]" "mshr_matches guest a sec (st' ! i)"
  shows "findMatch q' st' guest a sec = Some i"
proof -
  have "\<forall>k \<in> set (mq_allocatedList q). \<not> mshr_matches guest a sec (st' ! k)"
  proof
    fix k assume k: "k \<in> set (mq_allocatedList q)"
    then have "k \<noteq> i" "k < length st" using assms(1,4) mq_inv_lists(1) by auto
    then have "mshr_matches guest a sec (st' ! k) = mshr_matches guest a sec (st ! k)" by (rule others_pendingD(5) [OF assms(3)])
    then show "\<not> mshr_matches guest a sec (st' ! k)" using assms(2) k find_NoneD by (fastforce simp: findMatch_def)
  qed
  then have "find (\<lambda>k. mshr_matches guest a sec (st' ! k)) (mq_allocatedList q @ [i]) = Some i"
    using assms(6) by (intro find_last) auto
  then show ?thesis using assms(5) by (simp add: findMatch_def)
qed

lemma list_erase_ok [simp]: "x \<in> set xs \<Longrightarrow> list_erase x xs = Inr (remove1 x xs)"
  by (simp add: list_erase_def)

lemma length_filter_remove1:
  "distinct xs \<Longrightarrow> i \<in> set xs \<Longrightarrow> length (filter P (remove1 i xs)) + of_bool (P i) = length (filter P xs)"
  by (induction xs) auto

lemma nth_update_outside: "i \<notin> set xs \<Longrightarrow> k \<in> set xs \<Longrightarrow> st[i := m] ! k = st ! k"
  by (metis nth_list_update_neq)

lemma filter_nth_update:
  "i \<notin> set xs \<Longrightarrow> filter (\<lambda>k. P (st[i := m] ! k)) xs = filter (\<lambda>k. P (st ! k)) xs"
  by (rule filter_cong) (auto simp: nth_update_outside)

lemma length_filter_nth_update:
  assumes "distinct xs" "i \<in> set xs" "i < length st"
  shows "length (filter (\<lambda>k. P (st[i := m] ! k)) xs) + of_bool (P (st ! i)) = length (filter (\<lambda>k. P (st ! k)) xs) + of_bool (P m)"
  using assms
proof (induction xs)
  case (Cons x xs)
  show ?case
  proof (cases "x = i")
    case True
    then have "i \<notin> set xs" using Cons.prems by simp
    then show ?thesis using True Cons.prems by (simp add: filter_nth_update)
  qed (use Cons in auto)
qed simp

lemma length_filter_disj:
  "distinct xs \<Longrightarrow> i \<in> set xs \<Longrightarrow> \<not> P i \<Longrightarrow> length (filter (\<lambda>k. k = i \<or> P k) xs) = length (filter P xs) + 1"
proof (induction xs)
  case (Cons x xs)
  show ?case
  proof (cases "x = i")
    case True
    then have "filter (\<lambda>k. k = i \<or> P k) xs = filter P xs" using Cons.prems by (intro filter_cong) auto
    then show ?thesis using True Cons.prems by simp
  qed (use Cons in auto)
qed simp

lemma mq_inv_drain [simp]: "mq_inv (q\<lparr>mq_drainManager := a, mq_drained := b\<rparr>) st = mq_inv q st"
  by (simp add: mq_inv_def)

lemma mq_deallocate_ok:
  assumes inv: "mq_inv q st" and i: "i \<in> set (mq_allocatedList q)"
    and empty: "getNumTargets (st ! i) = 0"
  shows "\<exists>q' st'. mq_deallocate i q st = Inr (q', st') \<and> mq_inv q' st' \<and> mq_allocatedList q' = remove1 i (mq_allocatedList q) \<and>
    mq_freeList q' = i # mq_freeList q"
proof -
  note L = mq_inv_lists [OF inv i]
  have d: "tl_targets (ms_targets (st ! i)) = []" "tl_targets (ms_deferredTargets (st ! i)) = []" "isReset (ms_deferredTargets (st ! i))"
    using empty L(3) by (auto simp: getNumTargets_def mshr_ok_def)
  let ?m = "(st ! i)\<lparr>ms_targets := resetFlags (ms_targets (st ! i)), ms_inService := False\<rparr>"
  let ?al = "remove1 i (mq_allocatedList q)"
  define q1 where "q1 = (if ms_inService (st ! i)
      then q\<lparr>mq_allocatedList := ?al, mq_freeList := i # mq_freeList q, mq_allocated := mq_allocated q - 1,
             mq_inServiceEntries := mq_inServiceEntries q - 1\<rparr>
      else q\<lparr>mq_allocatedList := ?al, mq_freeList := i # mq_freeList q, mq_allocated := mq_allocated q - 1,
             mq_readyList := remove1 i (mq_readyList q)\<rparr>)"
  define q2 where "q2 = (if mq_drainManager q1 \<and> mq_allocated q1 = 0 then q1\<lparr>mq_drainManager := False, mq_drained := True\<rparr> else q1)"
  have "mq_deallocate i q st = Inr (q2, st[i := ?m])"
    using L d i by (auto simp: mq_deallocate_def mshr_deallocate_def rbind_assert Let_def q1_def q2_def)
  moreover have dist: "distinct (mq_allocatedList q)" "distinct (mq_readyList q)" "i \<notin> set (mq_freeList q)"
    using inv i by (auto simp: mq_inv_def)
  have ni: "i \<notin> set ?al" using dist(1) by simp
  have "mq_inv q1 (st[i := ?m])"
  proof -
    have free: "free_mshr ?m" using d by (simp add: free_mshr_def getNumTargets_def isReset_def resetFlags_def)
    have cnt: "length (filter (\<lambda>k. ms_inService (st[i := ?m] ! k)) ?al) + of_bool (ms_inService (st ! i)) =
        length (filter (\<lambda>k. ms_inService (st ! k)) (mq_allocatedList q))"
      using length_filter_remove1 [OF dist(1) i, of "\<lambda>k. ms_inService (st ! k)"] filter_nth_update [OF ni, of ms_inService st ?m] by simp
    have len: "length (mq_allocatedList q) = Suc (length ?al)" using i by (simp add: length_remove1) (metis Suc_pred length_pos_if_in_set)
    have "{k \<in> set ?al. \<not> ms_inService (st[i := ?m] ! k)} = {k \<in> set ?al. \<not> ms_inService (st ! k)}"
      using nth_update_outside [OF ni, of _ st ?m] by auto
    then have rd: "set (mq_readyList q1) = {k \<in> set ?al. \<not> ms_inService (st[i := ?m] ! k)}"
      using inv i dist L(4) by (auto simp: mq_inv_def q1_def)
    have "mq_inServiceEntries q1 = int (length (filter (\<lambda>k. ms_inService (st[i := ?m] ! k)) ?al))"
      using inv cnt by (auto simp: mq_inv_def q1_def)
    moreover have "\<forall>k \<in> set (mq_freeList q1). free_mshr (st[i := ?m] ! k)"
      using inv free nth_update_outside [OF dist(3), of _ st ?m] L(1) by (auto simp: mq_inv_def q1_def)
    moreover have "\<forall>k \<in> set ?al. mshr_ok (st[i := ?m] ! k)"
      using inv nth_update_outside [OF ni, of _ st ?m] dist(1) by (auto simp: mq_inv_def)
    ultimately show ?thesis
      using inv rd i dist ni len by (auto simp: mq_inv_def q1_def)
  qed
  then have "mq_inv q2 (st[i := ?m])" by (simp add: q2_def)
  ultimately show ?thesis by (auto simp: q2_def q1_def)
qed

lemma mq_moveToFront_ok:
  assumes inv: "mq_inv q st" and i: "i \<in> set (mq_allocatedList q)"
  shows "\<exists>q'. mq_moveToFront i q st = Inr q' \<and> mq_inv q' st \<and> (\<not> ms_inService (st ! i) \<longrightarrow> hd (mq_readyList q') = i)"
proof -
  note L = mq_inv_lists [OF inv i]
  have "set (i # remove1 i (mq_readyList q)) = set (mq_readyList q)" "distinct (i # remove1 i (mq_readyList q))"
    if "\<not> ms_inService (st ! i)"
    using inv L(4) that by (auto simp: mq_inv_def)
  then show ?thesis using inv L by (auto simp: mq_moveToFront_def mq_inv_def)
qed

lemma mq_markPending_ok:
  assumes inv: "mq_inv q st" and i: "i \<in> set (mq_allocatedList q)" and "ms_inService (st ! i)"
    and "tl_targets (ms_deferredTargets (st ! i)) = []"
  shows "\<exists>q' st'. mq_markPending i q st = Inr (q', st') \<and> mq_inv q' st' \<and> i \<in> set (mq_readyList q')"
proof -
  note L = mq_inv_lists [OF inv i]
  let ?st = "upd_mshr i (\<lambda>m. m\<lparr>ms_inService := False\<rparr>) st"
  have nr: "i \<notin> set (mq_readyList q)" "distinct (mq_readyList q)" "distinct (mq_allocatedList q)" "i \<notin> set (mq_freeList q)"
    using L assms(3) inv by (auto simp: mq_inv_def)
  obtain ks where ks: "addToReadyList ?st i (mq_readyList q) = Inr ks" "set ks = insert i (set (mq_readyList q))" "distinct ks"
    using addToReadyList_ok [OF nr(1,2)] by blast
  let ?q = "q\<lparr>mq_inServiceEntries := mq_inServiceEntries q - 1, mq_readyList := ks\<rparr>"
  have run: "mq_markPending i q st = Inr (?q, ?st)"
    using L(1) assms(3) ks(1) by (simp add: mq_markPending_def rbind_assert)
  have cnt: "int (length (filter (\<lambda>k. ms_inService (?st ! k)) (mq_allocatedList q))) = mq_inServiceEntries q - 1"
    using length_filter_nth_update [OF nr(3) i L(1), of ms_inService "(st ! i)\<lparr>ms_inService := False\<rparr>"] inv assms(3)
    by (simp add: upd_mshr_def mq_inv_def)
  have "{k \<in> set (mq_allocatedList q). \<not> ms_inService (?st ! k)} = insert i {k \<in> set (mq_allocatedList q). \<not> ms_inService (st ! k)}"
    using i L(1) by (auto simp: upd_mshr_def nth_list_update split: if_split_asm)
  moreover have "\<forall>k \<in> set (mq_freeList q). free_mshr (?st ! k)"
    using inv nth_update_outside [OF nr(4), of _ st] by (auto simp: mq_inv_def upd_mshr_def)
  moreover have "mshr_ok ((st ! i)\<lparr>ms_inService := False\<rparr>)" using L(3) assms(4) by (simp add: mshr_ok_def)
  then have "\<forall>k \<in> set (mq_allocatedList q). mshr_ok (?st ! k)"
    using inv L(1) by (auto simp: mq_inv_def upd_mshr_def nth_list_update)
  ultimately have "mq_inv ?q ?st" using inv ks(2,3) cnt by (simp add: mq_inv_def)
  then show ?thesis using run ks(2) by fastforce
qed

lemma mq_inv_serve:
  assumes inv: "mq_inv q st" and i: "i \<in> set (mq_readyList q)" and op: "others_pending i st st'"
    and m: "mshr_ok (st' ! i)" "ms_inService (st' ! i)"
  shows "mq_inv (q\<lparr>mq_readyList := remove1 i (mq_readyList q), mq_inServiceEntries := mq_inServiceEntries q + 1\<rparr>) st'"
proof -
  have ia: "i \<in> set (mq_allocatedList q)" "\<not> ms_inService (st ! i)" using inv i by (auto simp: mq_inv_def)
  note L = mq_inv_lists [OF inv ia(1)]
  have dist: "distinct (mq_allocatedList q)" "distinct (mq_readyList q)" "i \<notin> set (mq_freeList q)"
    and lt: "\<forall>k \<in> set (mq_freeList q @ mq_allocatedList q). k < length st"
    using inv ia by (auto simp: mq_inv_def)
  have len: "length st' = length st" using op by (simp add: others_pending_def)
  have al: "ms_inService (st' ! k) = (k = i \<or> ms_inService (st ! k))" "mshr_ok (st' ! k)" if k: "k \<in> set (mq_allocatedList q)" for k
  proof -
    have "k < length st" "mshr_ok (st ! k)" using k lt mq_inv_lists(3) [OF inv k] by auto
    then show "ms_inService (st' ! k) = (k = i \<or> ms_inService (st ! k))" "mshr_ok (st' ! k)"
      using others_pendingD(1,3) [OF op, of k] m by (cases "k = i"; simp)+
  qed
  have "free_mshr (st' ! k)" if "k \<in> set (mq_freeList q)" for k
  proof -
    have "k \<noteq> i" "k < length st" using that dist(3) lt by auto
    then show ?thesis using others_pendingD(2) [OF op] inv that by (auto simp: mq_inv_def)
  qed
  moreover have "filter (\<lambda>k. ms_inService (st' ! k)) (mq_allocatedList q) = filter (\<lambda>k. k = i \<or> ms_inService (st ! k)) (mq_allocatedList q)"
    using al(1) by (intro filter_cong) auto
  then have "length (filter (\<lambda>k. ms_inService (st' ! k)) (mq_allocatedList q)) =
      length (filter (\<lambda>k. ms_inService (st ! k)) (mq_allocatedList q)) + 1"
    using length_filter_disj [OF dist(1) ia(1), of "\<lambda>k. ms_inService (st ! k)"] ia(2) by simp
  moreover have "set (remove1 i (mq_readyList q)) = {k \<in> set (mq_allocatedList q). \<not> ms_inService (st' ! k)}"
    using inv dist(2) al(1) by (auto simp: mq_inv_def)
  ultimately show ?thesis using inv al(2) len dist(2) by (auto simp: mq_inv_def)
qed

lemma popTarget_one:
  assumes "getNumTargets m = 1" "hasTargets m" "mshr_ok m"
  obtains m' where "popTarget m = Inr m'" "getNumTargets m' = 0" "mshr_ok m'" "ms_inService m' = ms_inService m"
    "ms_downstreamPending m' = ms_downstreamPending m"
proof -
  obtain t where t: "tl_targets (ms_targets m) = [t]" "tl_targets (ms_deferredTargets m) = []"
    using assms(1,2) by (cases "tl_targets (ms_targets m)") (auto simp: getNumTargets_def hasTargets_def)
  then show thesis using assms(3)
    by (intro that [of "m\<lparr>ms_targets := (ms_targets m)\<lparr>tl_targets := []\<rparr>\<rparr>"])
       (auto simp: popTarget_def getNumTargets_def mshr_ok_def tl_ok_def)
qed

definition serving :: "packet \<Rightarrow> mshr \<Rightarrow> mshr" where
  "serving p m = m\<lparr>ms_inService := True,
     ms_pendingDirty := (tl_needsExclusive (ms_targets m) \<or> \<not> sharedAsserted p \<and> memInhibitAsserted p),
     ms_postInvalidate := False, ms_postDowngrade := False\<rparr>"

lemma mshr_markInService_cases:
  assumes run: "mshr_markInService i p st = Inr (fwd, st1)" and i: "i < length st" "\<not> ms_inService (st ! i)" "hasTargets (st ! i)"
  obtains (forwarded) m' where "fwd" "getNumTargets (st ! i) = 1" "popTarget (st ! i) = Inr m'" "st1 = st[i := m']"
    | (served) "\<not> fwd" "pending_only (st[i := serving p (st ! i)]) st1"
proof -
  obtain f where f: "isForwardNoResponse (st ! i) = Inr f" "f \<Longrightarrow> getNumTargets (st ! i) = 1"
    using i(3) by (cases "tl_targets (ms_targets (st ! i))"; cases "getNumTargets (st ! i) = 1")
      (auto simp: isForwardNoResponse_def hasTargets_def)
  show thesis
  proof (cases f)
    case True
    then have "rbind (popTarget (st ! i)) (\<lambda>m1. Inr (True, st[i := m1])) = Inr (fwd, st1)"
      using run i f by (simp add: mshr_markInService_def rbind_assert)
    then show thesis using forwarded f(2) True by (auto simp: rbind_eq_Inr_iff)
  next
    case False
    let ?st = "st[i := serving p (st ! i)]"
    have "rbind (if \<not> ms_downstreamPending (serving p (st ! i)) then clear_targets (tl_targets (ms_targets (serving p (st ! i)))) ?st
        else Inr ?st) (\<lambda>st2. Inr (False, st2)) = Inr (fwd, st1)"
      using run i f False unfolding serving_def by (simp add: mshr_markInService_def rbind_assert Let_def split del: if_split)
    then show thesis using served clear_targets_frame by (auto simp: rbind_eq_Inr_iff split: if_split_asm)
  qed
qed

lemma mq_markInService_ok:
  assumes inv: "mq_inv q st" and i: "i \<in> set (mq_readyList q)" and has: "hasTargets (st ! i)"
    and run: "mshr_markInService i p st = Inr (fwd, st1)"
  shows "\<exists>q' st'. mq_markInService i p q st = Inr (q', st') \<and> mq_inv q' st' \<and>
    (if fwd then i \<in> set (mq_freeList q') else i \<in> set (mq_allocatedList q') \<and> ms_inService (st' ! i))"
proof -
  have ia: "i \<in> set (mq_allocatedList q)" "\<not> ms_inService (st ! i)" using inv i by (auto simp: mq_inv_def)
  note L = mq_inv_lists [OF inv ia(1)]
  show ?thesis
    using run L(1) ia(2) has
  proof (cases rule: mshr_markInService_cases)
    case (forwarded m')
    obtain m'' where m': "popTarget (st ! i) = Inr m''" "getNumTargets m'' = 0" "mshr_ok m''" "ms_inService m'' = ms_inService (st ! i)"
      by (rule popTarget_one [OF forwarded(2) has L(3)])
    have st1: "st1 = st[i := m'']" using forwarded(3,4) m'(1) by simp
    have "others_pending i st st1" by (simp add: st1 others_pending_def pending_self)
    then have inv1: "mq_inv q st1" using mq_inv_change [OF inv _ ia(1)] m'(3,4) L(1) by (simp add: st1)
    have "getNumTargets (st1 ! i) = 0" using m'(2) L(1) by (simp add: st1)
    from mq_deallocate_ok [OF inv1 ia(1) this] obtain q' st' where
      "mq_deallocate i q st1 = Inr (q', st')" "mq_inv q' st'" "mq_freeList q' = i # mq_freeList q" by blast
    then show ?thesis using run forwarded(1) by (simp add: mq_markInService_def)
  next
    case served
    let ?q = "q\<lparr>mq_readyList := remove1 i (mq_readyList q), mq_inServiceEntries := mq_inServiceEntries q + 1\<rparr>"
    have "others_pending i (st[i := serving p (st ! i)]) st1" by (rule pending_only_others [OF served(2)])
    then have op: "others_pending i st st1" by (simp add: others_pending_def)
    obtain b where b: "st1 ! i = (serving p (st ! i))\<lparr>ms_downstreamPending := b\<rparr>"
      using served(2) L(1) by (auto simp: pending_only_def)
    have "mshr_ok (serving p (st ! i))" using L(3) by (simp add: mshr_ok_def serving_def)
    then have "mq_inv ?q st1" "ms_inService (st1 ! i)" using mq_inv_serve [OF inv i op] b by (simp_all add: serving_def)
    then show ?thesis using run served(1) i ia(1) by (simp add: mq_markInService_def)
  qed
qed

text \<open>Without upper caches waiting, sending the request of a register never fails.\<close>

lemma clear_targets_none: "\<forall>t \<in> set ts. upstream t = None \<Longrightarrow> clear_targets ts st = Inr st"
  by (induction ts) (auto simp: upstream_def split: if_split_asm)

lemma mshr_markInService_total:
  assumes "i < length st" "\<not> ms_inService (st ! i)" "hasTargets (st ! i)"
    and "\<forall>t \<in> set (tl_targets (ms_targets (st ! i))). upstream t = None"
  shows "\<exists>fwd st1. mshr_markInService i p st = Inr (fwd, st1)"
  using assms clear_targets_none
  by (auto simp: mshr_markInService_def isForwardNoResponse_def hasTargets_def rbind_assert popTarget_def Let_def split: list.splits)

lemma find_append_miss: "\<not> P y \<Longrightarrow> find P (xs @ [y]) = find P xs"
  by (induction xs) auto

lemma findMatch_others:
  assumes "mq_inv q st" "others_pending i st st'" "i \<notin> set (mq_allocatedList q)"
    and "mq_allocatedList q' = mq_allocatedList q @ [i]" "mshr_matches guest a sec (st' ! i)"
    and "(g, b, s) \<noteq> (guest, a, sec)"
  shows "findMatch q' st' g b s = findMatch q st g b s"
proof -
  have "\<not> mshr_matches g b s (st' ! i)" using assms(5,6) by (auto simp: mshr_matches_def)
  moreover have "mshr_matches g b s (st' ! k) = mshr_matches g b s (st ! k)" if "k \<in> set (mq_allocatedList q)" for k
    using that others_pendingD(5) [OF assms(2), of k] assms(3) mq_inv_lists(1) [OF assms(1) that] by metis
  ultimately show ?thesis using assms(4)
    by (auto simp: findMatch_def find_append_miss intro: find_cong)
qed

end
