(* ===== verification/Control_Plane.thy ===== *)
theory Control_Plane
  imports Guest_Addr
begin

text \<open>
  The statistics and trigger tables of a PARD control plane, \<^verbatim>\<open>hyper/base/ControlPlane.hh\<close>.
  A row of the statistics table is the list of the metrics of one logical domain; a pointer
  returned by \<^verbatim>\<open>getStatsPtr\<close> is the index of the row it points to.
\<close>

section \<open>StatsTable\<close>

record stats_table =
  st_max_metrics :: nat
  st_stats :: "u64 list list"

definition StatsTable :: "nat \<Rightarrow> nat \<Rightarrow> stats_table" where
  "StatsTable max_metrics max_entries =
     \<lparr>st_max_metrics = max_metrics,
      st_stats = replicate max_entries (replicate max_metrics 0)\<rparr>"

definition getStatsPtr :: "stats_table \<Rightarrow> ldom_id \<Rightarrow> nat result" where
  "getStatsPtr t ldomID =
     (let i = (if unat ldomID \<ge> length (st_stats t) then 0 else unat ldomID)
      in rbind (vec_get (st_stats t) i) (\<lambda>_. Inr i))"

definition updateStatsPtr :: "stats_table \<Rightarrow> ldom_id \<Rightarrow> u64 list \<Rightarrow> stats_table result" where
  "updateStatsPtr t ldomID data =
     rbind (sim_assert (unat ldomID < length (st_stats t))) (\<lambda>_.
       if length data < st_max_metrics t then Inl BadAccess
       else Inr (t\<lparr>st_stats := (st_stats t)[unat ldomID := take (st_max_metrics t) data]\<rparr>))"

definition getStats :: "stats_table \<Rightarrow> ldom_id \<Rightarrow> nat \<Rightarrow> u64 result" where
  "getStats t ldomID metric =
     rbind (sim_assert (unat ldomID < length (st_stats t))) (\<lambda>_.
     rbind (sim_assert (metric < st_max_metrics t)) (\<lambda>_.
       vec_get (st_stats t ! unat ldomID) metric))"

definition update_stats ::
  "(u64 list \<Rightarrow> u64 list) \<Rightarrow> stats_table \<Rightarrow> ldom_id \<Rightarrow> stats_table result" where
  "update_stats updator t ldomID =
     rbind (sim_assert (unat ldomID < length (st_stats t))) (\<lambda>_.
       Inr (t\<lparr>st_stats := (st_stats t)[unat ldomID := updator (st_stats t ! unat ldomID)]\<rparr>))"

definition resetStats :: "stats_table \<Rightarrow> stats_table" where
  "resetStats t = t\<lparr>st_stats := map (\<lambda>_. replicate (st_max_metrics t) 0) (st_stats t)\<rparr>"

definition stats_wf :: "stats_table \<Rightarrow> bool" where
  "stats_wf t = list_all (\<lambda>row. length row = st_max_metrics t) (st_stats t)"

section \<open>TriggerTable\<close>

text \<open>
  The comparator is a 16-bit union: \<^verbatim>\<open>type\<close> in bits 3:0, \<^verbatim>\<open>mode\<close> in bit 4, \<^verbatim>\<open>delay\<close> in
  bits 11:8.
\<close>

record trigger_entry =
  te_ldom :: ldom_id
  te_metric :: u16
  te_comparator :: u16
  te_value :: u64
  te_notify_id :: u16
  te_triggers :: u16
  te_reported :: bool

definition cmp_type :: "u16 \<Rightarrow> u16" where
  "cmp_type c = bits c 3 0"

definition cmp_mode :: "u16 \<Rightarrow> u16" where
  "cmp_mode c = bits c 4 4"

definition cmp_delay :: "u16 \<Rightarrow> u16" where
  "cmp_delay c = bits c 11 8"

definition COMPARATOR_EQ :: u16 where "COMPARATOR_EQ = 0"
definition COMPARATOR_LT :: u16 where "COMPARATOR_LT = 1"
definition COMPARATOR_GT :: u16 where "COMPARATOR_GT = 2"

definition TriggerEntry_cleared :: trigger_entry where
  "TriggerEntry_cleared =
     \<lparr>te_ldom = 0, te_metric = - 1, te_comparator = 0, te_value = 0, te_notify_id = 0,
      te_triggers = 0, te_reported = False\<rparr>"

definition TriggerTable :: "nat \<Rightarrow> trigger_entry list result" where
  "TriggerTable max_entries =
     vec_set (replicate max_entries TriggerEntry_cleared) 0
       (TriggerEntry_cleared\<lparr>te_ldom := 1, te_metric := 0, te_comparator := COMPARATOR_EQ,
                             te_value := 2000, te_notify_id := 0x88\<rparr>)"

definition is_trigger :: "trigger_entry \<Rightarrow> u64 \<Rightarrow> bool" where
  "is_trigger e stats_value =
     (let ty = cmp_type (te_comparator e) in
      if ty = COMPARATOR_LT then stats_value < te_value e
      else if ty = COMPARATOR_GT then stats_value > te_value e
      else if ty = COMPARATOR_EQ then stats_value = te_value e
      else False)"

text \<open>The body of the loop of \<^verbatim>\<open>checkTrigger\<close>: the entry it leaves and what it reports.\<close>

definition checkEntry ::
  "stats_table \<Rightarrow> ldom_id \<Rightarrow> trigger_entry \<Rightarrow> (trigger_entry \<times> (u16 \<times> u16) list) result" where
  "checkEntry stats ldomID e =
     (if te_metric e = - 1 then Inr (e, [])
      else if te_ldom e \<noteq> ldomID then Inr (e, [])
      else rbind (getStats stats ldomID (unat (te_metric e))) (\<lambda>stats_value.
        if is_trigger e stats_value then
          let e' = e\<lparr>te_triggers := te_triggers e + 1\<rparr> in
          if cmp_mode (te_comparator e') = 0 \<or>
             2 ^ unat (cmp_delay (te_comparator e')) = unat (te_triggers e')
          then Inr (e', [(te_notify_id e', 0)])
          else Inr (e', [])
        else Inr (e, [])))"

fun checkTrigger ::
  "stats_table \<Rightarrow> ldom_id \<Rightarrow> trigger_entry list \<Rightarrow> (trigger_entry list \<times> (u16 \<times> u16) list) result" where
  "checkTrigger stats ldomID [] = Inr ([], [])"
| "checkTrigger stats ldomID (e # es) =
     rbind (checkEntry stats ldomID e) (\<lambda>(e', l).
     rbind (checkTrigger stats ldomID es) (\<lambda>(es', ls). Inr (e' # es', l @ ls)))"

section \<open>Properties of the statistics table\<close>

lemma stats_wf_nth: "stats_wf t \<Longrightarrow> i < length (st_stats t) \<Longrightarrow> length (st_stats t ! i) = st_max_metrics t"
  by (simp add: stats_wf_def list_all_length)

lemma getStats_ok:
  assumes "stats_wf t" "unat d < length (st_stats t)" "m < st_max_metrics t"
  shows "getStats t d m = Inr (st_stats t ! unat d ! m)"
  using assms by (simp add: getStats_def rbind_assert stats_wf_nth)

lemma getStats_Inr_iff:
  assumes "stats_wf t"
  shows "getStats t d m = Inr v \<longleftrightarrow>
    unat d < length (st_stats t) \<and> m < st_max_metrics t \<and> v = st_stats t ! unat d ! m"
  using assms by (auto simp: getStats_def rbind_assert stats_wf_nth)

lemma StatsTable_wf: "stats_wf (StatsTable n k)"
  by (simp add: stats_wf_def StatsTable_def list_all_length)

lemma updateStatsPtr_wf: "stats_wf t \<Longrightarrow> updateStatsPtr t d data = Inr t' \<Longrightarrow> stats_wf t'"
  by (auto simp: updateStatsPtr_def rbind_assert stats_wf_def list_all_length nth_list_update
      split: if_splits)

lemma update_stats_wf:
  "stats_wf t \<Longrightarrow> (\<And>row. length (updator row) = length row)
   \<Longrightarrow> update_stats updator t d = Inr t' \<Longrightarrow> stats_wf t'"
  by (auto simp: update_stats_def rbind_assert stats_wf_def list_all_length nth_list_update
      split: if_splits)

lemma resetStats_wf: "stats_wf (resetStats t)"
  by (simp add: stats_wf_def resetStats_def list_all_length)

lemma resetStats_zero:
  "unat d < length (st_stats t) \<Longrightarrow> m < st_max_metrics t \<Longrightarrow> getStats (resetStats t) d m = Inr 0"
  by (simp add: getStats_def resetStats_def rbind_assert)

lemma updateStatsPtr_get:
  assumes "stats_wf t" "updateStatsPtr t d data = Inr t'" "m < st_max_metrics t"
  shows "getStats t' d' m = (if d' = d then Inr (data ! m) else getStats t d' m)"
proof -
  have "unat d < length (st_stats t)" "st_max_metrics t \<le> length data"
    and t': "t' = t\<lparr>st_stats := (st_stats t)[unat d := take (st_max_metrics t) data]\<rparr>"
    using assms(2) by (auto simp: updateStatsPtr_def rbind_assert split: if_splits)
  then show ?thesis
    using assms(1,3)
    by (auto simp: getStats_def rbind_assert stats_wf_nth nth_list_update word_unat_eq_iff)
qed

text \<open>An unknown domain is charged to row 0.\<close>

lemma getStatsPtr_range:
  assumes "st_stats t \<noteq> []"
  shows "getStatsPtr t d = Inr (if unat d < length (st_stats t) then unat d else 0)"
  using assms by (simp add: getStatsPtr_def Let_def)

section \<open>Properties of the trigger table\<close>

lemma checkEntry_frame:
  assumes "checkEntry s d e = Inr (e', l)"
  shows "\<exists>n. e' = e\<lparr>te_triggers := n\<rparr>" "te_ldom e \<noteq> d \<Longrightarrow> e' = e \<and> l = []"
    "te_metric e = - 1 \<Longrightarrow> e' = e \<and> l = []"
proof -
  have "e' = e\<lparr>te_triggers := te_triggers e'\<rparr>"
    using assms by (auto simp: checkEntry_def rbind_eq_Inr_iff Let_def split: if_splits)
  then show "\<exists>n. e' = e\<lparr>te_triggers := n\<rparr>" ..
qed (use assms in \<open>auto simp: checkEntry_def split: if_splits\<close>)

lemma checkTrigger_Inr:
  "checkTrigger s d es = Inr (es', ls) \<Longrightarrow>
   \<exists>rs. list_all2 (\<lambda>e r. checkEntry s d e = Inr r) es rs \<and> es' = map fst rs \<and> ls = concat (map snd rs)"
proof (induction es arbitrary: es' ls)
  case (Cons e es)
  then obtain r es1 ls1 where r: "checkEntry s d e = Inr r" "checkTrigger s d es = Inr (es1, ls1)"
    "es' = fst r # es1" "ls = snd r @ ls1"
    by (auto simp: rbind_eq_Inr_iff)
  from Cons.IH [OF r(2)] obtain rs where "list_all2 (\<lambda>e r. checkEntry s d e = Inr r) es rs"
    "es1 = map fst rs" "ls1 = concat (map snd rs)" by blast
  with r show ?case by (intro exI [of _ "r # rs"]) auto
qed simp

lemma checkTrigger_length: "checkTrigger s d es = Inr (es', ls) \<Longrightarrow> length es' = length es"
  by (auto dest!: checkTrigger_Inr dest: list_all2_lengthD)

lemma checkTrigger_other_ldom:
  assumes "checkTrigger s d es = Inr (es', ls)" "i < length es" "te_ldom (es ! i) \<noteq> d"
  shows "es' ! i = es ! i"
proof -
  obtain rs where rs: "list_all2 (\<lambda>e r. checkEntry s d e = Inr r) es rs" "es' = map fst rs"
    using checkTrigger_Inr [OF assms(1)] by blast
  have "checkEntry s d (es ! i) = Inr (rs ! i)" "i < length rs"
    using list_all2_nthD [OF rs(1) assms(2)] list_all2_lengthD [OF rs(1)] assms(2) by simp_all
  then show ?thesis
    using rs(2) checkEntry_frame(2) [OF _ assms(3)] by (metis nth_map prod.collapse)
qed

text \<open>A well-formed table never stops the check, whatever the domain.\<close>

definition triggers_ok :: "stats_table \<Rightarrow> trigger_entry list \<Rightarrow> bool" where
  "triggers_ok s es = list_all (\<lambda>e. te_metric e = - 1 \<or>
     (unat (te_ldom e) < length (st_stats s) \<and> unat (te_metric e) < st_max_metrics s)) es"

lemma checkTrigger_total:
  assumes "stats_wf s" "triggers_ok s es"
  shows "\<exists>es' ls. checkTrigger s d es = Inr (es', ls)"
  using assms(2)
proof (induction es)
  case (Cons e es)
  then obtain es' ls where "checkTrigger s d es = Inr (es', ls)" by (auto simp: triggers_ok_def)
  moreover have "\<exists>e' l. checkEntry s d e = Inr (e', l)"
    using Cons.prems assms(1) by (auto simp: triggers_ok_def checkEntry_def getStats_ok Let_def)
  ultimately show ?case by auto
qed simp

text \<open>Delayed notification: \<open>n\<close> checks in a row against the same statistics.\<close>

fun checkEntry_n ::
  "nat \<Rightarrow> stats_table \<Rightarrow> ldom_id \<Rightarrow> trigger_entry \<Rightarrow> (trigger_entry \<times> (u16 \<times> u16) list) result" where
  "checkEntry_n 0 s d e = Inr (e, [])"
| "checkEntry_n (Suc n) s d e =
     rbind (checkEntry_n n s d e) (\<lambda>(e', l).
     rbind (checkEntry s d e') (\<lambda>(e'', l'). Inr (e'', l @ l')))"

definition entry_matches :: "stats_table \<Rightarrow> trigger_entry \<Rightarrow> bool" where
  "entry_matches s e =
     (case getStats s (te_ldom e) (unat (te_metric e)) of Inl _ \<Rightarrow> False | Inr v \<Rightarrow> is_trigger e v)"

lemma checkEntry_match:
  assumes "entry_matches s e" "te_metric e \<noteq> - 1"
  shows "checkEntry s (te_ldom e) e =
    Inr (e\<lparr>te_triggers := te_triggers e + 1\<rparr>,
         if cmp_mode (te_comparator e) = 0 \<or>
            2 ^ unat (cmp_delay (te_comparator e)) = unat (te_triggers e + 1)
         then [(te_notify_id e, 0)] else [])"
  using assms by (auto simp: checkEntry_def entry_matches_def Let_def split: sum.splits)

lemma is_trigger_frame [simp]: "is_trigger (e\<lparr>te_triggers := n\<rparr>) v = is_trigger e v"
  by (simp add: is_trigger_def)

lemma entry_matches_frame [simp]: "entry_matches s (e\<lparr>te_triggers := n\<rparr>) = entry_matches s e"
  by (simp add: entry_matches_def split: sum.split)

lemma checkEntry_n_delayed:
  assumes "entry_matches s e" "te_metric e \<noteq> - 1" "cmp_mode (te_comparator e) \<noteq> 0"
    and "te_triggers e = 0" "n < 2 ^ 16"
  shows "checkEntry_n n s (te_ldom e) e =
    Inr (e\<lparr>te_triggers := of_nat n\<rparr>,
         if 2 ^ unat (cmp_delay (te_comparator e)) \<le> n then [(te_notify_id e, 0)] else [])"
  using assms(5)
proof (induction n)
  case 0
  then show ?case using assms(4) by simp
next
  case (Suc n)
  let ?e = "e\<lparr>te_triggers := of_nat n\<rparr>"
  have "unat (of_nat n + 1 :: u16) = Suc n"
    using unat_of_nat_lt [where ?'a = 16, of "Suc n"] Suc.prems unfolding of_nat_Suc
    by (subst add.commute) simp
  moreover have "checkEntry s (te_ldom ?e) ?e = Inr (?e\<lparr>te_triggers := of_nat n + 1\<rparr>,
      if cmp_mode (te_comparator e) = 0 \<or> 2 ^ unat (cmp_delay (te_comparator e)) = unat (of_nat n + 1 :: u16)
      then [(te_notify_id e, 0)] else [])"
    using checkEntry_match [of s ?e] assms(1,2) by simp
  ultimately have "checkEntry s (te_ldom e) ?e = Inr (e\<lparr>te_triggers := of_nat (Suc n)\<rparr>,
      if 2 ^ unat (cmp_delay (te_comparator e)) = Suc n then [(te_notify_id e, 0)] else [])"
    using assms(3) by (simp add: add.commute)
  with Suc.IH Suc.prems show ?case
    by (simp only: checkEntry_n.simps rbind_Inr case_prod_conv Suc_lessD le_Suc_eq) simp
qed

end
