(* ===== verification/Dram_Ctrl.thy ===== *)
theory Dram_Ctrl
  imports Cp_Network Control_Plane
begin

text \<open>
  The PARD memory controller: \<^verbatim>\<open>hyper/mem/dram_ctrl.cc\<close> (the control plane of the memory
  controller) and the domain-aware parts of \<^verbatim>\<open>gem5-pard/src/mem/dram_ctrl.cc\<close>: address
  decoding with the choice of a row buffer, the priority-aware reordering of the request
  queues, and activation and precharge of banks with several row buffers.
\<close>

section \<open>Control plane of the memory controller\<close>

text \<open>
  \<^verbatim>\<open>params\<close> is a vector of 32 entries of three 64-bit fields (priority, effective priority,
  row-buffer mask). \<^verbatim>\<open>get\<close> and \<^verbatim>\<open>set\<close> index it as an array of 64-bit words starting at the
  row of the domain, so the model keeps the 96 words of the vector in a row.
\<close>

record dram_cp =
  dc_params :: "u64 list"
  dc_stats :: stats_table

definition NUM_PARAM_ROWS :: nat where "NUM_PARAM_ROWS = 32"

definition PARDg5VDRAMCtrl :: "nat \<Rightarrow> nat \<Rightarrow> nat \<Rightarrow> dram_cp result" where
  "PARDg5VDRAMCtrl n_metrics n_original n_remapped =
     (if n_original \<noteq> n_remapped then Inl Fatal
      else Inr \<lparr>dc_params = concat (replicate 4 [0, 0, 1]) @ replicate (3 * (NUM_PARAM_ROWS - 4)) 0,
                dc_stats = StatsTable n_metrics 32\<rparr>)"

definition CPA_DESTADDR_TYPE :: "u32 \<Rightarrow> nat" where
  "CPA_DESTADDR_TYPE a = unat (bits a 15 14)"

definition CPA_DESTADDR_OFFSET :: "u32 \<Rightarrow> nat" where
  "CPA_DESTADDR_OFFSET a =
     (if CPA_DESTADDR_TYPE a = 3 then unat (bits a 13 12) else unat (bits a 7 0))"

definition dram_get :: "dram_cp res_get" where
  "dram_get r ldomID destAddr =
     (if ldomID \<ge> 4 then Inr (r, - 1)
      else if CPA_DESTADDR_TYPE destAddr = 0 then
        rbind (vec_get (dc_params r) (3 * unat ldomID + CPA_DESTADDR_OFFSET destAddr)) (\<lambda>v. Inr (r, v))
      else if CPA_DESTADDR_TYPE destAddr = 1 then
        rbind (getStatsPtr (dc_stats r) ldomID) (\<lambda>i.
        rbind (vec_get (st_stats (dc_stats r) ! i) (CPA_DESTADDR_OFFSET destAddr)) (\<lambda>v. Inr (r, v)))
      else if CPA_DESTADDR_TYPE destAddr = 2 then Inr (r, 0xFFFFCCCCCCCCCCCC)
      else Inr (r, 0xFFFFDDDDDDDDDDDD))"

definition dram_set :: "dram_cp res_set" where
  "dram_set r ldomID destAddr data =
     (if ldomID \<ge> 4 then Inr r
      else if CPA_DESTADDR_TYPE destAddr = 0 then
        rbind (vec_set (dc_params r) (3 * unat ldomID + CPA_DESTADDR_OFFSET destAddr) data)
          (\<lambda>ps. Inr (r\<lparr>dc_params := ps\<rparr>))
      else Inr r)"

definition effective_priority :: "dram_cp \<Rightarrow> ldom_id \<Rightarrow> u64 result" where
  "effective_priority r d = vec_get (dc_params r) (3 * unat d + 1)"

definition rowbuf_mask :: "dram_cp \<Rightarrow> ldom_id \<Rightarrow> u64 result" where
  "rowbuf_mask r d = vec_get (dc_params r) (3 * unat d + 2)"

section \<open>Banks, DRAM packets and address decoding\<close>

definition NO_ROW :: u32 where "NO_ROW = - 1"
definition ROW_BUFFER_COUNT :: nat where "ROW_BUFFER_COUNT = 2"

record bank =
  bk_openRow :: "u32 list"
  bk_numRowsActive :: nat
  bk_colAllowedAt :: tick
  bk_preAllowedAt :: tick
  bk_actAllowedAt :: tick
  bk_rowAccesses :: nat
  bk_bytesAccessed :: nat

definition Bank :: bank where
  "Bank = \<lparr>bk_openRow = replicate ROW_BUFFER_COUNT NO_ROW, bk_numRowsActive = 0, bk_colAllowedAt = 0,
           bk_preAllowedAt = 0, bk_actAllowedAt = 0, bk_rowAccesses = 0, bk_bytesAccessed = 0\<rparr>"

datatype addr_mapping = RoRaBaChCo | RoRaBaCoCh | RoCoRaBaCh

record dram_geometry =
  dg_burstSize :: nat
  dg_columnsPerRowBuffer :: nat
  dg_channels :: nat
  dg_banksPerRank :: nat
  dg_ranksPerChannel :: nat
  dg_rowsPerBank :: nat
  dg_addrMapping :: addr_mapping

text \<open>
  A burst helper counts the bursts of a split packet that have been served. Helpers are allocated in a
  store; a pointer to one is its index.
\<close>

record burst_helper =
  bh_burstCount :: nat
  bh_burstsServiced :: nat

record dram_packet =
  dp_entryTime :: tick
  dp_readyTime :: tick
  dp_pkt :: packet
  dp_isRead :: bool
  dp_rank :: u8
  dp_bank :: u8
  dp_row :: u16
  dp_bankId :: u16
  dp_addr :: addr
  dp_size :: nat
  dp_burstHelper :: "nat option"
  dp_qosTag :: u64
  dp_rowbuf :: nat

definition decode_fields :: "dram_geometry \<Rightarrow> addr \<Rightarrow> u8 \<times> u8 \<times> u16" where
  "decode_fields g a0 =
     (let a = unat a0 div dg_burstSize g in
      case dg_addrMapping g of
        RoRaBaChCo \<Rightarrow>
          let a = a div dg_columnsPerRowBuffer g; a = a div dg_channels g;
              b = a mod dg_banksPerRank g; a = a div dg_banksPerRank g;
              ra = a mod dg_ranksPerChannel g; a = a div dg_ranksPerChannel g;
              ro = a mod dg_rowsPerBank g
          in (of_nat ra, of_nat b, of_nat ro)
      | RoRaBaCoCh \<Rightarrow>
          let a = a div dg_channels g; a = a div dg_columnsPerRowBuffer g;
              b = a mod dg_banksPerRank g; a = a div dg_banksPerRank g;
              ra = a mod dg_ranksPerChannel g; a = a div dg_ranksPerChannel g;
              ro = a mod dg_rowsPerBank g
          in (of_nat ra, of_nat b, of_nat ro)
      | RoCoRaBaCh \<Rightarrow>
          let a = a div dg_channels g;
              b = a mod dg_banksPerRank g; a = a div dg_banksPerRank g;
              ra = a mod dg_ranksPerChannel g; a = a div dg_ranksPerChannel g;
              a = a div dg_columnsPerRowBuffer g;
              ro = a mod dg_rowsPerBank g
          in (of_nat ra, of_nat b, of_nat ro))"

definition select_rowbuf :: "u64 \<Rightarrow> nat result" where
  "select_rowbuf m =
     (case find (\<lambda>rb. push_bit rb 1 AND m \<noteq> 0) [0..<ROW_BUFFER_COUNT] of
        None \<Rightarrow> Inl AssertFail | Some rb \<Rightarrow> Inr rb)"

definition decodeAddr :: "tick \<Rightarrow> dram_geometry \<Rightarrow> dram_cp \<Rightarrow> packet \<Rightarrow> addr \<Rightarrow> nat \<Rightarrow> bool \<Rightarrow> dram_packet result" where
  "decodeAddr now g r pkt dramPktAddr sz rd =
     (let (rank, bank, row) = decode_fields g dramPktAddr in
      rbind (sim_assert (unat rank < dg_ranksPerChannel g)) (\<lambda>_.
      rbind (sim_assert (unat bank < dg_banksPerRank g)) (\<lambda>_.
      rbind (sim_assert (unat row < dg_rowsPerBank g)) (\<lambda>_.
      rbind (getQosTag pkt) (\<lambda>tag.
      rbind (sim_assert (unat (QOSTAG_TO_LDOMID tag) < NUM_PARAM_ROWS)) (\<lambda>_.
      rbind (rowbuf_mask r (QOSTAG_TO_LDOMID tag)) (\<lambda>m.
      rbind (select_rowbuf m) (\<lambda>rb.
        Inr \<lparr>dp_entryTime = now, dp_readyTime = now, dp_pkt = pkt, dp_isRead = rd, dp_rank = rank, dp_bank = bank, dp_row = row,
             dp_bankId = of_nat (dg_banksPerRank g * unat rank + unat bank),
             dp_addr = dramPktAddr, dp_size = sz, dp_burstHelper = None, dp_qosTag = tag, dp_rowbuf = rb\<rparr>))))))))"

section \<open>Queues and scheduling\<close>

definition readQueueFull :: "nat \<Rightarrow> dram_packet list \<Rightarrow> dram_packet list \<Rightarrow> nat \<Rightarrow> bool" where
  "readQueueFull readBufferSize readQueue respQueue neededEntries =
     (length readQueue + length respQueue + neededEntries > readBufferSize)"

definition writeQueueFull :: "nat \<Rightarrow> dram_packet list \<Rightarrow> nat \<Rightarrow> bool" where
  "writeQueueFull writeBufferSize writeQueue neededEntries =
     (length writeQueue + neededEntries > writeBufferSize)"

text \<open>When the bank can next activate for a request whose row is not open.\<close>

definition act_at :: "tick \<Rightarrow> tick \<Rightarrow> bank \<Rightarrow> bool \<Rightarrow> tick" where
  "act_at tRP now b closed =
     (if closed then bk_actAllowedAt b else max (bk_preAllowedAt b) now + tRP)"

definition waiting_mask :: "dram_packet list \<Rightarrow> nat \<Rightarrow> u64" where
  "waiting_mask queue bank_id =
     foldl (\<lambda>m p. if unat (dp_bankId p) = bank_id then m OR push_bit (dp_rowbuf p) 1 else m) 0 queue"

definition have_close_page :: "u64 \<Rightarrow> bank \<Rightarrow> bool" where
  "have_close_page m b =
     list_ex (\<lambda>rb. push_bit rb 1 AND m \<noteq> 0 \<and> bk_openRow b ! rb = NO_ROW) [0..<ROW_BUFFER_COUNT]"

fun minBank_loop ::
  "tick \<Rightarrow> tick \<Rightarrow> dram_packet list \<Rightarrow> (nat \<times> bank) list \<Rightarrow> u64 \<Rightarrow> tick option \<Rightarrow> u64" where
  "minBank_loop tRP now queue [] bank_mask min_at = bank_mask"
| "minBank_loop tRP now queue ((bank_id, b) # bs) bank_mask min_at =
     (let wm = waiting_mask queue bank_id in
      if wm \<noteq> 0 then
        let t = act_at tRP now b (have_close_page wm b) in
        if (case min_at of None \<Rightarrow> True | Some m \<Rightarrow> t \<le> m) then
          let bm = (if (case min_at of None \<Rightarrow> True | Some m \<Rightarrow> t < m) then 0 else bank_mask)
          in minBank_loop tRP now queue bs (insertBits bm bank_id bank_id 1) (Some t)
        else minBank_loop tRP now queue bs bank_mask min_at
      else minBank_loop tRP now queue bs bank_mask min_at)"

definition minBankActAt :: "tick \<Rightarrow> tick \<Rightarrow> dram_packet list \<Rightarrow> bank list list \<Rightarrow> u64" where
  "minBankActAt tRP now queue banks = minBank_loop tRP now queue (enumerate 0 (concat banks)) 0 None"

text \<open>
  The scan of \<^verbatim>\<open>reorderQueue\<close>: \<open>i\<close> is the position of the head of the remaining queue,
  \<open>sel\<close> the selected position, \<open>found\<close> the flag \<^verbatim>\<open>found_earliest_pkt\<close> and \<open>prio\<close> the
  32-bit \<^verbatim>\<open>int priority\<close>.
\<close>

fun reorder_scan ::
  "dram_cp \<Rightarrow> tick \<Rightarrow> tick \<Rightarrow> bank list list \<Rightarrow> u64 \<Rightarrow> nat \<Rightarrow> nat \<Rightarrow> bool \<Rightarrow> 32 word
   \<Rightarrow> dram_packet list \<Rightarrow> nat result" where
  "reorder_scan r tRP now banks earliest i sel found prio [] = Inr sel"
| "reorder_scan r tRP now banks earliest i sel found prio (p # ps) =
     rbind (effective_priority r (QOSTAG_TO_LDOMID (dp_qosTag p))) (\<lambda>eff.
     if eff > scast prio then reorder_scan r tRP now banks earliest (i + 1) sel found prio ps
     else
       let prio' = ucast eff in
       rbind (vec_get banks (unat (dp_rank p))) (\<lambda>rk.
       rbind (vec_get rk (unat (dp_bank p))) (\<lambda>b.
       rbind (vec_get (bk_openRow b) (dp_rowbuf p)) (\<lambda>open.
       if open = ucast (dp_row p) then Inr i
       else if \<not> found \<and>
               (act_at tRP now b (open = NO_ROW) \<le> now \<or>
                bits earliest (unat (dp_bankId p)) (unat (dp_bankId p)) \<noteq> 0)
         then reorder_scan r tRP now banks earliest (i + 1) i True prio' ps
       else reorder_scan r tRP now banks earliest (i + 1) sel found prio' ps))))"

definition MAX_PRIORITY :: "32 word" where "MAX_PRIORITY = 64"

definition move_front :: "nat \<Rightarrow> 'a list \<Rightarrow> 'a list" where
  "move_front i xs = xs ! i # (take i xs @ drop (Suc i) xs)"

definition reorderQueue ::
  "dram_cp \<Rightarrow> tick \<Rightarrow> tick \<Rightarrow> bank list list \<Rightarrow> dram_packet list \<Rightarrow> dram_packet list result" where
  "reorderQueue r tRP now banks queue =
     rbind (reorder_scan r tRP now banks (minBankActAt tRP now queue banks) 0 0 False MAX_PRIORITY queue)
       (\<lambda>i. if i < length queue then Inr (move_front i queue) else Inl BadAccess)"

datatype sched_policy = fcfs | frfcfs

definition chooseNext ::
  "sched_policy \<Rightarrow> dram_cp \<Rightarrow> tick \<Rightarrow> tick \<Rightarrow> bank list list \<Rightarrow> dram_packet list \<Rightarrow> dram_packet list result" where
  "chooseNext policy r tRP now banks queue =
     rbind (sim_assert (queue \<noteq> [])) (\<lambda>_.
       if length queue = 1 then Inr queue
       else case policy of fcfs \<Rightarrow> Inr queue | frfcfs \<Rightarrow> reorderQueue r tRP now banks queue)"

section \<open>Activation and precharge\<close>

record dram_timing =
  dt_tRP :: tick
  dt_tRAS :: tick
  dt_tRCD :: tick
  dt_tRRD :: tick
  dt_tXAW :: tick
  dt_activationLimit :: nat

record dram_state =
  ds_banks :: "bank list list"
  ds_actTicks :: "tick list list"
  ds_numBanksActive :: nat
  ds_activateEvent :: "tick option"
  ds_prechargeEvent :: "tick option"

definition get_bank :: "dram_state \<Rightarrow> nat \<Rightarrow> nat \<Rightarrow> bank result" where
  "get_bank s rank bank = rbind (vec_get (ds_banks s) rank) (\<lambda>rk. vec_get rk bank)"

definition put_bank :: "nat \<Rightarrow> nat \<Rightarrow> bank \<Rightarrow> dram_state \<Rightarrow> dram_state" where
  "put_bank rank bank b s = s\<lparr>ds_banks := (ds_banks s)[rank := (ds_banks s ! rank)[bank := b]]\<rparr>"

text \<open>Raise the earliest activation time of every bank of a rank.\<close>

definition delay_rank :: "nat \<Rightarrow> tick \<Rightarrow> dram_state \<Rightarrow> dram_state" where
  "delay_rank rank t s =
     s\<lparr>ds_banks := (ds_banks s)[rank :=
        map (\<lambda>b. b\<lparr>bk_actAllowedAt := max t (bk_actAllowedAt b)\<rparr>) (ds_banks s ! rank)]\<rparr>"

text \<open>\<^verbatim>\<open>x && (t - x) < w\<close> on unsigned ticks: a non-zero tick less than \<open>w\<close> before \<open>t\<close>.\<close>

definition in_window :: "tick \<Rightarrow> tick \<Rightarrow> tick \<Rightarrow> bool" where
  "in_window t x w = (x \<noteq> 0 \<and> x \<le> t \<and> t - x < w)"

definition activateBank ::
  "dram_geometry \<Rightarrow> dram_timing \<Rightarrow> tick \<Rightarrow> nat \<Rightarrow> nat \<Rightarrow> u16 \<Rightarrow> nat \<Rightarrow> dram_state \<Rightarrow> dram_state result" where
  "activateBank g tm act_tick rank bank row rowbuf s =
     rbind (sim_assert (rank < dg_ranksPerChannel g)) (\<lambda>_.
     rbind (vec_get (ds_actTicks s) rank) (\<lambda>ticks.
     rbind (sim_assert (length ticks = dt_activationLimit tm)) (\<lambda>_.
     rbind (get_bank s rank bank) (\<lambda>b.
     rbind (vec_get (bk_openRow b) rowbuf) (\<lambda>open.
     rbind (sim_assert (open = NO_ROW)) (\<lambda>_.
       let b1 = b\<lparr>bk_openRow := (bk_openRow b)[rowbuf := ucast row], bk_bytesAccessed := 0,
                   bk_rowAccesses := 0, bk_numRowsActive := bk_numRowsActive b + 1\<rparr>
       in
     rbind (sim_assert (bk_numRowsActive b1 \<le> ROW_BUFFER_COUNT)) (\<lambda>_.
       let nba = (if bk_numRowsActive b1 = 1 then ds_numBanksActive s + 1 else ds_numBanksActive s)
       in
     rbind (sim_assert (nba \<le> dg_banksPerRank g * dg_ranksPerChannel g)) (\<lambda>_.
       let b2 = b1\<lparr>bk_preAllowedAt := act_tick + dt_tRAS tm, bk_colAllowedAt := act_tick + dt_tRCD tm\<rparr>;
           s1 = delay_rank rank (act_tick + dt_tRRD tm)
                  (put_bank rank bank b2 (s\<lparr>ds_numBanksActive := nba\<rparr>))
       in
       if ticks = [] then Inr s1
       else if in_window act_tick (last ticks) (dt_tXAW tm) then Inl Panic
       else
         let ticks' = act_tick # butlast ticks;
             s2 = s1\<lparr>ds_actTicks := (ds_actTicks s1)[rank := ticks']\<rparr>;
             s3 = (if in_window act_tick (last ticks') (dt_tXAW tm)
                   then delay_rank rank (last ticks' + dt_tXAW tm) s2 else s2)
         in Inr (s3\<lparr>ds_activateEvent :=
                 (case ds_activateEvent s3 of None \<Rightarrow> Some act_tick
                  | Some w \<Rightarrow> Some (if w > act_tick then act_tick else w))\<rparr>)))))))))"

definition prechargeBank ::
  "dram_timing \<Rightarrow> nat \<Rightarrow> nat \<Rightarrow> nat \<Rightarrow> tick \<Rightarrow> dram_state \<Rightarrow> dram_state result" where
  "prechargeBank tm rank bank rowbuf pre_at s =
     rbind (get_bank s rank bank) (\<lambda>b.
     rbind (vec_get (bk_openRow b) rowbuf) (\<lambda>open.
     rbind (sim_assert (open \<noteq> NO_ROW)) (\<lambda>_.
       let pre_done_at = pre_at + dt_tRP tm;
           b1 = b\<lparr>bk_openRow := (bk_openRow b)[rowbuf := NO_ROW], bk_preAllowedAt := pre_at,
                   bk_actAllowedAt := max (bk_actAllowedAt b) pre_done_at\<rparr>
       in
     rbind (sim_assert (bk_numRowsActive b1 \<noteq> 0)) (\<lambda>_.
       let b2 = b1\<lparr>bk_numRowsActive := bk_numRowsActive b1 - 1\<rparr> in
     rbind (if bk_numRowsActive b2 = 0
            then rbind (sim_assert (ds_numBanksActive s \<noteq> 0)) (\<lambda>_. Inr (ds_numBanksActive s - 1))
            else Inr (ds_numBanksActive s)) (\<lambda>nba.
       Inr ((put_bank rank bank b2 s)
            \<lparr>ds_numBanksActive := nba,
             ds_prechargeEvent := (case ds_prechargeEvent s of None \<Rightarrow> Some pre_done_at
                | Some w \<Rightarrow> Some (if w < pre_done_at then pre_done_at else w))\<rparr>))))))"

definition open_rows :: "bank \<Rightarrow> nat" where
  "open_rows b = length (filter (\<lambda>r. r \<noteq> NO_ROW) (bk_openRow b))"

definition bank_wf :: "bank \<Rightarrow> bool" where
  "bank_wf b = (length (bk_openRow b) = ROW_BUFFER_COUNT \<and> bk_numRowsActive b = open_rows b)"

definition active_in_rank :: "bank list \<Rightarrow> nat" where
  "active_in_rank rk = length (filter (\<lambda>b. bk_numRowsActive b > 0) rk)"

definition dram_wf :: "dram_geometry \<Rightarrow> dram_timing \<Rightarrow> dram_state \<Rightarrow> bool" where
  "dram_wf g tm s =
     (length (ds_banks s) = dg_ranksPerChannel g \<and>
      list_all (\<lambda>rk. length rk = dg_banksPerRank g \<and> list_all bank_wf rk) (ds_banks s) \<and>
      length (ds_actTicks s) = dg_ranksPerChannel g \<and>
      list_all (\<lambda>t. length t = dt_activationLimit tm) (ds_actTicks s) \<and>
      ds_numBanksActive s = sum_list (map active_in_rank (ds_banks s)))"

section \<open>The memory controller as a managed resource\<close>

definition dram_cp_wf :: "dram_cp \<Rightarrow> bool" where
  "dram_cp_wf r = (length (dc_params r) = 3 * NUM_PARAM_ROWS)"

definition dram_param :: "dram_cp \<Rightarrow> ldom_id \<Rightarrow> u32 \<Rightarrow> bool" where
  "dram_param r d a = (d < 4 \<and> CPA_DESTADDR_TYPE a = 0 \<and> CPA_DESTADDR_OFFSET a < 3)"

definition dram_peek :: "dram_cp \<Rightarrow> ldom_id \<Rightarrow> u32 \<Rightarrow> u64" where
  "dram_peek r d a = dc_params r ! (3 * unat d + CPA_DESTADDR_OFFSET a)"

lemma dram_param_index:
  "dram_cp_wf r \<Longrightarrow> dram_param r d a \<Longrightarrow> 3 * unat d + CPA_DESTADDR_OFFSET a < length (dc_params r)"
  by (simp add: dram_cp_wf_def dram_param_def NUM_PARAM_ROWS_def word_less_nat_alt)

lemma row_index_inj:
  fixes d d' o1 o2 :: nat
  assumes "o1 < 3" "o2 < 3" "3 * d + o1 = 3 * d' + o2"
  shows "d = d'"
  using assms by linarith

interpretation dram_mr: managed_resource dram_get dram_set dram_cp_wf dram_param dram_peek
proof (unfold_locales, goal_cases)
  case (1 r d a)
  then show ?case
    using dram_param_index [OF 1]
    by (auto simp: dram_get_def dram_param_def dram_peek_def simp flip: not_less)
next
  case (2 r d a v)
  let ?i = "3 * unat d + CPA_DESTADDR_OFFSET a"
  have set: "dram_set r d a v = Inr (r\<lparr>dc_params := (dc_params r)[?i := v]\<rparr>)"
    using 2 dram_param_index [OF 2] by (auto simp: dram_set_def dram_param_def simp flip: not_less)
  have neq: "3 * unat d' + CPA_DESTADDR_OFFSET a' \<noteq> ?i" if "dram_param r d' a'" "d' \<noteq> d" for d' a'
    using that 2(2) row_index_inj [of "CPA_DESTADDR_OFFSET a'" "CPA_DESTADDR_OFFSET a" "unat d'" "unat d"]
    by (auto simp: dram_param_def word_unat_eq_iff)
  have "dram_peek (r\<lparr>dc_params := (dc_params r)[?i := v]\<rparr>) d' a' = dram_peek r d' a'"
    if "dram_param r d' a'" "d' \<noteq> d" for d' a'
    using neq [OF that] by (simp add: dram_peek_def)
  then show ?case
    using set 2 dram_param_index [OF 2] by (auto simp: dram_cp_wf_def dram_param_def dram_peek_def)
qed

lemma PARDg5VDRAMCtrl_wf: "PARDg5VDRAMCtrl n a b = Inr r \<Longrightarrow> dram_cp_wf r"
  by (auto simp: PARDg5VDRAMCtrl_def dram_cp_wf_def NUM_PARAM_ROWS_def numeral_eq_Suc split: if_splits)

text \<open>
  The offset is not checked against the row: offset 3 of one domain is the priority of the
  next one.
\<close>

lemma dram_set_spills:
  assumes "dram_cp_wf r" "d < 3" "CPA_DESTADDR_TYPE a = 0" "CPA_DESTADDR_OFFSET a = 3"
    and "dram_set r d a v = Inr r'"
  shows "dram_get r' (d + 1) 0 = Inr (r', v)"
proof -
  have d: "unat (d + 1) = unat d + 1" "unat d < 3"
    using assms(2) by (auto simp: word_less_nat_alt unat_word_ariths)
  have "3 * unat d + 3 < length (dc_params r)"
    using assms(1) d(2) by (simp add: dram_cp_wf_def NUM_PARAM_ROWS_def)
  moreover have "\<not> 4 \<le> d" "\<not> 4 \<le> d + 1"
    using assms(2) d by (simp_all add: word_le_nat_alt word_less_nat_alt)
  moreover have "CPA_DESTADDR_TYPE 0 = 0" "CPA_DESTADDR_OFFSET 0 = 0"
    by (simp_all add: CPA_DESTADDR_TYPE_def CPA_DESTADDR_OFFSET_def bits_def)
  ultimately show ?thesis
    using assms(3-5) d by (auto simp: dram_set_def dram_get_def algebra_simps)
qed

section \<open>Row buffers\<close>

lemma select_rowbuf_iff:
  "select_rowbuf m = Inr rb \<longleftrightarrow> rb < ROW_BUFFER_COUNT \<and> bit m rb \<and> (\<forall>j < rb. \<not> bit m j)"
proof -
  have "push_bit k 1 AND m \<noteq> 0 \<longleftrightarrow> bit m k" for k
    using and_exp_eq_0_iff_not_bit [of m k] by (simp add: and.commute)
  then show ?thesis
    unfolding select_rowbuf_def by (auto simp: find_upt_Some find_None_iff split: option.splits)
      (meson linorder_neqE_nat)
qed

lemma select_rowbuf_isolated:
  assumes "m AND m' = 0" "select_rowbuf m = Inr rb" "select_rowbuf m' = Inr rb'"
  shows "rb \<noteq> rb'"
proof
  assume "rb = rb'"
  with assms(2,3) have "bit (m AND m') rb" by (simp add: select_rowbuf_iff bit_and_iff)
  with assms(1) show False by simp
qed

section \<open>Address decoding\<close>

definition geometry_wf :: "dram_geometry \<Rightarrow> bool" where
  "geometry_wf g = (0 < dg_burstSize g \<and> 0 < dg_columnsPerRowBuffer g \<and> 0 < dg_channels g \<and>
     0 < dg_banksPerRank g \<and> dg_banksPerRank g \<le> 256 \<and>
     0 < dg_ranksPerChannel g \<and> dg_ranksPerChannel g \<le> 256 \<and>
     0 < dg_rowsPerBank g \<and> dg_rowsPerBank g \<le> 65536)"

lemma unat_of_nat_mod_u8: "0 < n \<Longrightarrow> n \<le> 256 \<Longrightarrow> unat (of_nat (a mod n) :: u8) = a mod n"
  by (rule unat_of_nat_lt) (simp, meson mod_less_divisor order_less_le_trans)

lemma unat_of_nat_mod_u16: "0 < n \<Longrightarrow> n \<le> 65536 \<Longrightarrow> unat (of_nat (a mod n) :: u16) = a mod n"
  by (rule unat_of_nat_lt) (simp, meson mod_less_divisor order_less_le_trans)

lemma decode_fields_bounds:
  assumes "geometry_wf g" "decode_fields g a = (ra, b, ro)"
  shows "unat ra < dg_ranksPerChannel g" "unat b < dg_banksPerRank g" "unat ro < dg_rowsPerBank g"
  using assms
  by (auto simp: decode_fields_def geometry_wf_def Let_def unat_of_nat_mod_u8 unat_of_nat_mod_u16
      split: addr_mapping.splits)

text \<open>
  The reference mapping: the fields of the decoded address, the column and the channel
  determine the burst address.
\<close>

definition decode_column :: "dram_geometry \<Rightarrow> addr \<Rightarrow> nat" where
  "decode_column g a0 =
     (let a = unat a0 div dg_burstSize g in
      case dg_addrMapping g of
        RoRaBaChCo \<Rightarrow> a mod dg_columnsPerRowBuffer g
      | RoRaBaCoCh \<Rightarrow> a div dg_channels g mod dg_columnsPerRowBuffer g
      | RoCoRaBaCh \<Rightarrow> a div dg_channels g div dg_banksPerRank g div dg_ranksPerChannel g
                       mod dg_columnsPerRowBuffer g)"

definition decode_channel :: "dram_geometry \<Rightarrow> addr \<Rightarrow> nat" where
  "decode_channel g a0 =
     (let a = unat a0 div dg_burstSize g in
      case dg_addrMapping g of
        RoRaBaChCo \<Rightarrow> a div dg_columnsPerRowBuffer g mod dg_channels g
      | _ \<Rightarrow> a mod dg_channels g)"

definition encode_fields :: "dram_geometry \<Rightarrow> nat \<Rightarrow> nat \<Rightarrow> nat \<Rightarrow> nat \<Rightarrow> nat \<Rightarrow> nat" where
  "encode_fields g ra b ro co ch =
     (case dg_addrMapping g of
        RoRaBaChCo \<Rightarrow>
          co + dg_columnsPerRowBuffer g * (ch + dg_channels g * (b + dg_banksPerRank g *
            (ra + dg_ranksPerChannel g * ro)))
      | RoRaBaCoCh \<Rightarrow>
          ch + dg_channels g * (co + dg_columnsPerRowBuffer g * (b + dg_banksPerRank g *
            (ra + dg_ranksPerChannel g * ro)))
      | RoCoRaBaCh \<Rightarrow>
          ch + dg_channels g * (b + dg_banksPerRank g * (ra + dg_ranksPerChannel g *
            (co + dg_columnsPerRowBuffer g * ro))))"

definition dram_capacity :: "dram_geometry \<Rightarrow> nat" where
  "dram_capacity g = dg_columnsPerRowBuffer g * dg_channels g * dg_banksPerRank g *
     dg_ranksPerChannel g * dg_rowsPerBank g"

lemma div_lt: "(a :: nat) < n * m \<Longrightarrow> a div n < m"
  by (simp add: less_mult_imp_div_less mult.commute)

lemma decode_encode:
  assumes "geometry_wf g" "decode_fields g a = (ra, b, ro)"
    and "unat a div dg_burstSize g < dram_capacity g"
  shows "encode_fields g (unat ra) (unat b) (unat ro) (decode_column g a) (decode_channel g a) =
    unat a div dg_burstSize g"
proof -
  let ?C = "dg_columnsPerRowBuffer g" and ?H = "dg_channels g" and ?B = "dg_banksPerRank g"
  let ?R = "dg_ranksPerChannel g" and ?N = "dg_rowsPerBank g" and ?a = "unat a div dg_burstSize g"
  have "?a < ?C * (?H * (?B * (?R * ?N)))" "?a < ?H * (?C * (?B * (?R * ?N)))" "?a < ?H * (?B * (?R * (?C * ?N)))"
    using assms(3) by (simp_all add: dram_capacity_def ac_simps)
  then have "?a div ?C div ?H div ?B div ?R < ?N" "?a div ?H div ?C div ?B div ?R < ?N"
    "?a div ?H div ?B div ?R div ?C < ?N"
    by (blast dest: div_lt)+
  moreover have "unat (of_nat n :: u16) = n" if "n < ?N" for n
    using that assms(1) by (intro unat_of_nat_lt) (simp add: geometry_wf_def)
  ultimately show ?thesis
    using assms(1,2)
    by (auto simp: decode_fields_def geometry_wf_def Let_def unat_of_nat_mod_u8 unat_of_nat_mod_u16
        decode_column_def decode_channel_def encode_fields_def mod_mult_div_eq split: addr_mapping.splits)
qed

lemma decodeAddr_ok:
  assumes "geometry_wf g" "getQosTag p = Inr tag" "unat (QOSTAG_TO_LDOMID tag) < NUM_PARAM_ROWS"
    and "rowbuf_mask r (QOSTAG_TO_LDOMID tag) = Inr m" "select_rowbuf m = Inr rb"
  shows "\<exists>dp. decodeAddr now g r p a sz rd = Inr dp \<and> dp_rowbuf dp = rb \<and> dp_qosTag dp = tag \<and>
    dp_addr dp = a \<and> dp_size dp = sz \<and> dp_isRead dp = rd \<and> dp_pkt dp = p \<and> dp_burstHelper dp = None \<and>
    dp_entryTime dp = now \<and> dp_readyTime dp = now \<and> unat (dp_rank dp) < dg_ranksPerChannel g \<and>
    unat (dp_bank dp) < dg_banksPerRank g \<and> (dp_rank dp, dp_bank dp, dp_row dp) = decode_fields g a"
proof -
  obtain ra b ro where f: "decode_fields g a = (ra, b, ro)" by (metis prod_cases3)
  show ?thesis
    using assms(2-5) decode_fields_bounds [OF assms(1) f] by (simp add: decodeAddr_def f rbind_assert)
qed

lemma decodeAddr_InrD:
  assumes "decodeAddr now g r p a sz rd = Inr dp"
  shows "\<exists>m. rowbuf_mask r (QOSTAG_TO_LDOMID (dp_qosTag dp)) = Inr m \<and> select_rowbuf m = Inr (dp_rowbuf dp)"
    "getQosTag p = Inr (dp_qosTag dp)" "unat (QOSTAG_TO_LDOMID (dp_qosTag dp)) < NUM_PARAM_ROWS"
  using assms by (auto simp: decodeAddr_def Let_def rbind_eq_Inr_iff rbind_assert split: prod.splits if_splits)

section \<open>Scheduling\<close>

lemma mset_move_front: "i < length xs \<Longrightarrow> mset (move_front i xs) = mset xs"
proof -
  assume "i < length xs"
  then have "xs = take i xs @ xs ! i # drop (Suc i) xs" by (rule id_take_nth_drop)
  then have "mset xs = mset (take i xs @ xs ! i # drop (Suc i) xs)" by simp
  then show ?thesis by (simp add: move_front_def)
qed

text \<open>A queue whose requests name existing parameter rows, banks and row buffers.\<close>

definition request_wf :: "dram_cp \<Rightarrow> bank list list \<Rightarrow> dram_packet \<Rightarrow> bool" where
  "request_wf r banks p =
     (3 * unat (QOSTAG_TO_LDOMID (dp_qosTag p)) + 1 < length (dc_params r) \<and>
      unat (dp_rank p) < length banks \<and> unat (dp_bank p) < length (banks ! unat (dp_rank p)) \<and>
      dp_rowbuf p < length (bk_openRow (banks ! unat (dp_rank p) ! unat (dp_bank p))))"

definition request_priority :: "dram_cp \<Rightarrow> dram_packet \<Rightarrow> u64" where
  "request_priority r p = dc_params r ! (3 * unat (QOSTAG_TO_LDOMID (dp_qosTag p)) + 1)"

lemma effective_priority_ok:
  "request_wf r banks p \<Longrightarrow>
   effective_priority r (QOSTAG_TO_LDOMID (dp_qosTag p)) = Inr (request_priority r p)"
  by (simp add: request_wf_def effective_priority_def request_priority_def)

definition row_hit :: "bank list list \<Rightarrow> dram_packet \<Rightarrow> bool" where
  "row_hit banks p =
     (bk_openRow (banks ! unat (dp_rank p) ! unat (dp_bank p)) ! dp_rowbuf p = ucast (dp_row p))"

definition bank_ready :: "tick \<Rightarrow> tick \<Rightarrow> bank list list \<Rightarrow> u64 \<Rightarrow> dram_packet \<Rightarrow> bool" where
  "bank_ready tRP now banks earliest p =
     (let b = banks ! unat (dp_rank p) ! unat (dp_bank p) in
      act_at tRP now b (bk_openRow b ! dp_rowbuf p = NO_ROW) \<le> now \<or>
      bits earliest (unat (dp_bankId p)) (unat (dp_bankId p)) \<noteq> 0)"

lemma reorder_scan_Cons:
  assumes "request_wf r banks p"
  shows "reorder_scan r tRP now banks earliest i sel found prio (p # ps) =
    (if request_priority r p > scast prio then reorder_scan r tRP now banks earliest (i + 1) sel found prio ps
     else if row_hit banks p then Inr i
     else if \<not> found \<and> bank_ready tRP now banks earliest p
       then reorder_scan r tRP now banks earliest (i + 1) i True (ucast (request_priority r p)) ps
     else reorder_scan r tRP now banks earliest (i + 1) sel found (ucast (request_priority r p)) ps)"
  using assms effective_priority_ok [OF assms]
  by (simp add: request_wf_def row_hit_def bank_ready_def Let_def)

declare reorder_scan.simps(2) [simp del]

lemma reorder_scan_total:
  "list_all (request_wf r banks) ps \<Longrightarrow>
   \<exists>k. reorder_scan r tRP now banks earliest i sel found prio ps = Inr k \<and>
       (k = sel \<or> i \<le> k \<and> k < i + length ps)"
proof (induction ps arbitrary: i sel found prio)
  case (Cons p ps)
  then have IH: "\<exists>k. reorder_scan r tRP now banks earliest (i + 1) sel' found' prio' ps = Inr k \<and>
      (k = sel' \<or> i + 1 \<le> k \<and> k < i + 1 + length ps)" for sel' found' prio'
    using Cons.IH [of "i + 1" sel' found' prio'] Cons.prems by simp
  show ?case
    using Cons.prems IH [of sel found prio] IH [of i True "ucast (request_priority r p)"]
      IH [of sel found "ucast (request_priority r p)"]
    by (auto simp: reorder_scan_Cons)
qed simp

lemma reorderQueue_total:
  assumes "list_all (request_wf r banks) q" "q \<noteq> []"
  obtains k where "k < length q" "reorderQueue r tRP now banks q = Inr (move_front k q)"
    "reorder_scan r tRP now banks (minBankActAt tRP now q banks) 0 0 False MAX_PRIORITY q = Inr k"
  using reorder_scan_total [OF assms(1), of tRP now "minBankActAt tRP now q banks" 0 0 False MAX_PRIORITY]
    assms(2) that by (auto simp: reorderQueue_def)

text \<open>
  No promotion past a better one: whatever the scan selects has an effective priority at
  least as good as the bound the scan started with.
\<close>

lemma reorder_scan_priority:
  assumes "list_all (request_wf r banks) ps" "list_all (\<lambda>p. request_priority r p < 2 ^ 31) ps"
    and "scast prio \<le> e" "reorder_scan r tRP now banks earliest i sel found prio ps = Inr k" "k \<noteq> sel"
  shows "request_priority r (ps ! (k - i)) \<le> e \<and> i \<le> k \<and> k < i + length ps"
  using assms
proof (induction ps arbitrary: i sel found prio)
  case (Cons p ps)
  let ?e = "request_priority r p"
  have wf: "request_wf r banks p" "list_all (request_wf r banks) ps"
    "list_all (\<lambda>p. request_priority r p < 2 ^ 31) ps" and small: "scast (ucast ?e :: 32 word) = ?e"
    using Cons.prems scast_ucast_small by auto
  have tl: "request_priority r ((p # ps) ! (k - i)) \<le> e \<and> i \<le> k \<and> k < i + length (p # ps)"
    if "request_priority r (ps ! (k - (i + 1))) \<le> e \<and> i + 1 \<le> k \<and> k < i + 1 + length ps"
    using that by (auto simp: nth_Cons')
  consider "?e > scast prio" | "?e \<le> scast prio" "row_hit banks p"
    | "?e \<le> scast prio" "\<not> row_hit banks p" by fastforce
  then show ?case
  proof cases
    case 1
    then have "reorder_scan r tRP now banks earliest (i + 1) sel found prio ps = Inr k"
      using Cons.prems(4) by (simp add: reorder_scan_Cons [OF wf(1)])
    from tl [OF Cons.IH [OF wf(2,3) Cons.prems(3) this Cons.prems(5)]] show ?thesis .
  next
    case 2
    then show ?thesis using Cons.prems(3,4) by (auto simp: reorder_scan_Cons [OF wf(1)] leD)
  next
    case 3
    have le: "scast (ucast ?e :: 32 word) \<le> e" using 3(1) Cons.prems(3) small by simp
    show ?thesis
    proof (cases "k = i")
      case True
      then show ?thesis using 3(1) Cons.prems(3) by auto
    next
      case False
      from 3 Cons.prems(4) have
        "reorder_scan r tRP now banks earliest (i + 1) i True (ucast ?e) ps = Inr k \<or>
         reorder_scan r tRP now banks earliest (i + 1) sel found (ucast ?e) ps = Inr k"
        by (auto simp: reorder_scan_Cons [OF wf(1)] leD split: if_splits)
      then show ?thesis
        using Cons.IH [OF wf(2,3) le _ False] Cons.IH [OF wf(2,3) le _ Cons.prems(5)] tl by blast
    qed
  qed
qed simp

lemma reorder_head_priority:
  assumes "list_all (request_wf r banks) (p # ps)" "list_all (\<lambda>p. request_priority r p < 2 ^ 31) (p # ps)"
    and "request_priority r p \<le> 64" "reorderQueue r tRP now banks (p # ps) = Inr (q # qs)"
  shows "request_priority r q \<le> request_priority r p"
proof -
  obtain k where k: "k < length (p # ps)" "q = (p # ps) ! k"
    and scan: "reorder_scan r tRP now banks (minBankActAt tRP now (p # ps) banks) 0 0 False MAX_PRIORITY (p # ps) = Inr k"
    using reorderQueue_total [OF assms(1), of tRP now] assms(4) by (auto simp: move_front_def)
  show ?thesis
  proof (cases "k = 0")
    case False
    have wf: "request_wf r banks p" "list_all (request_wf r banks) ps"
      "list_all (\<lambda>p. request_priority r p < 2 ^ 31) ps" and p: "request_priority r p < 2 ^ 31"
      using assms(1,2) by auto
    have "scast MAX_PRIORITY = (64 :: u64)" by (simp add: MAX_PRIORITY_def)
    with scan False assms(3) obtain f where
      "reorder_scan r tRP now banks (minBankActAt tRP now (p # ps) banks) 1 0 f (ucast (request_priority r p)) ps = Inr k"
      by (auto simp: reorder_scan_Cons [OF wf(1)] leD split: if_splits)
    from reorder_scan_priority [OF wf(2,3) _ this False, of "request_priority r p"]
    show ?thesis using k False p by (simp add: scast_ucast_small)
  qed (use k in simp)
qed


section \<open>Banks\<close>

lemma open_rows_update:
  assumes "i < length (bk_openRow b)"
  shows "open_rows (b\<lparr>bk_openRow := (bk_openRow b)[i := row]\<rparr>) + of_bool (bk_openRow b ! i \<noteq> NO_ROW) =
    open_rows b + of_bool (row \<noteq> NO_ROW)"
  using length_filter_update [OF assms, of "\<lambda>r. r \<noteq> NO_ROW" row] by (simp add: open_rows_def)

lemma open_rows_le: "open_rows b \<le> length (bk_openRow b)"
  by (simp add: open_rows_def)

lemma ucast_row_not_NO_ROW: "(ucast (row :: u16) :: u32) \<noteq> NO_ROW"
proof
  assume "(ucast row :: u32) = NO_ROW"
  then have "bit (ucast row :: u32) 31" by (simp add: NO_ROW_def)
  then show False by (simp add: bit_simps) (auto dest: bit_imp_le_length)
qed

lemma dram_wf_bank:
  assumes "dram_wf g tm s" "rank < dg_ranksPerChannel g" "bank < dg_banksPerRank g"
  shows "get_bank s rank bank = Inr (ds_banks s ! rank ! bank)" "bank_wf (ds_banks s ! rank ! bank)"
    "rank < length (ds_banks s)" "bank < length (ds_banks s ! rank)"
    "rank < length (ds_actTicks s)" "length (ds_actTicks s ! rank) = dt_activationLimit tm"
  using assms by (auto simp: dram_wf_def get_bank_def list_all_length)

text \<open>
  Replacing one bank by a well-formed one keeps the invariant when the count of active banks
  follows.
\<close>

lemma put_bank_wf:
  assumes "dram_wf g tm s" "rank < dg_ranksPerChannel g" "bank < dg_banksPerRank g" "bank_wf b"
    and "n + of_bool (bk_numRowsActive (ds_banks s ! rank ! bank) > 0) =
      ds_numBanksActive s + of_bool (bk_numRowsActive b > 0)"
  shows "dram_wf g tm (put_bank rank bank b (s\<lparr>ds_numBanksActive := n\<rparr>))"
proof -
  note D = dram_wf_bank [OF assms(1-3)]
  have "sum_list (map active_in_rank ((ds_banks s)[rank := (ds_banks s ! rank)[bank := b]])) + active_in_rank (ds_banks s ! rank)
      = sum_list (map active_in_rank (ds_banks s)) + active_in_rank ((ds_banks s ! rank)[bank := b])"
    using sum_list_update_nat [of rank "map active_in_rank (ds_banks s)"] D(3) by (simp add: map_update)
  moreover have "active_in_rank ((ds_banks s ! rank)[bank := b]) + of_bool (bk_numRowsActive (ds_banks s ! rank ! bank) > 0)
      = active_in_rank (ds_banks s ! rank) + of_bool (bk_numRowsActive b > 0)"
    using length_filter_update [OF D(4), of "\<lambda>b. bk_numRowsActive b > 0" b] by (simp add: active_in_rank_def)
  ultimately have "n = sum_list (map active_in_rank ((ds_banks s)[rank := (ds_banks s ! rank)[bank := b]]))"
    using assms(1,5) by (simp add: dram_wf_def)
  then show ?thesis
    using assms(1,4) D
    by (auto simp: dram_wf_def put_bank_def list_all_length nth_list_update)
qed

lemma delay_rank_wf:
  assumes "dram_wf g tm s"
  shows "dram_wf g tm (delay_rank rank t s)"
proof -
  have "active_in_rank (map (\<lambda>b. b\<lparr>bk_actAllowedAt := max t (bk_actAllowedAt b)\<rparr>) rk) = active_in_rank rk" for rk
    by (induction rk) (auto simp: active_in_rank_def)
  then have "map active_in_rank (ds_banks (delay_rank rank t s)) = map active_in_rank (ds_banks s)"
    by (cases "rank < length (ds_banks s)") (simp_all add: delay_rank_def map_update list_update_same_conv list_update_beyond)
  moreover have "list_all (\<lambda>rk. length rk = dg_banksPerRank g \<and> list_all bank_wf rk) (ds_banks (delay_rank rank t s))"
  proof -
    have "list_all bank_wf (map (\<lambda>b. b\<lparr>bk_actAllowedAt := max t (bk_actAllowedAt b)\<rparr>) rk)"
      if "list_all bank_wf rk" for rk
      using that by (auto simp: list_all_iff bank_wf_def open_rows_def)
    then show ?thesis
      using assms unfolding delay_rank_def dram_wf_def
      by (auto intro!: list_all_update simp: list_all_length [of _ "ds_banks s"])
  qed
  ultimately show ?thesis
    using assms by (simp add: dram_wf_def) (simp add: delay_rank_def)
qed

lemma numBanksActive_bound:
  assumes "dram_wf g tm s"
  shows "ds_numBanksActive s \<le> dg_banksPerRank g * dg_ranksPerChannel g"
proof -
  have "active_in_rank rk \<le> dg_banksPerRank g" if "rk \<in> set (ds_banks s)" for rk
    using assms that length_filter_le [of "\<lambda>b. bk_numRowsActive b > 0" rk]
    by (auto simp: dram_wf_def active_in_rank_def list_all_iff)
  then have "sum_list (map active_in_rank (ds_banks s)) \<le> length (ds_banks s) * dg_banksPerRank g"
    using sum_list_bound [of "map active_in_rank (ds_banks s)" "dg_banksPerRank g"] by auto
  then show ?thesis using assms by (simp add: dram_wf_def mult.commute)
qed

text \<open>The bank left by an activation, and the one left by a precharge.\<close>

lemma activated_bank_wf:
  assumes "bank_wf b" "rowbuf < ROW_BUFFER_COUNT" "bk_openRow b ! rowbuf = NO_ROW"
  shows "bank_wf (b\<lparr>bk_openRow := (bk_openRow b)[rowbuf := ucast (row :: u16)],
      bk_bytesAccessed := x, bk_rowAccesses := y,
      bk_numRowsActive := bk_numRowsActive b + 1, bk_preAllowedAt := t, bk_colAllowedAt := u\<rparr>)"
    "bk_numRowsActive b + 1 \<le> ROW_BUFFER_COUNT"
proof -
  let ?b = "b\<lparr>bk_openRow := (bk_openRow b)[rowbuf := ucast row]\<rparr>"
  have *: "open_rows ?b = open_rows b + 1"
    using open_rows_update [of rowbuf b "ucast row"] assms by (simp add: bank_wf_def ucast_row_not_NO_ROW)
  then show "bk_numRowsActive b + 1 \<le> ROW_BUFFER_COUNT"
    using open_rows_le [of ?b] assms(1) by (simp add: bank_wf_def)
  show "bank_wf (b\<lparr>bk_openRow := (bk_openRow b)[rowbuf := ucast row],
      bk_bytesAccessed := x, bk_rowAccesses := y,
      bk_numRowsActive := bk_numRowsActive b + 1, bk_preAllowedAt := t, bk_colAllowedAt := u\<rparr>)"
    using * assms(1) by (simp add: bank_wf_def open_rows_def)
qed

lemma precharged_bank_wf:
  assumes "bank_wf b" "rowbuf < ROW_BUFFER_COUNT" "bk_openRow b ! rowbuf \<noteq> NO_ROW"
  shows "bank_wf (b\<lparr>bk_openRow := (bk_openRow b)[rowbuf := NO_ROW], bk_preAllowedAt := t,
      bk_actAllowedAt := u, bk_numRowsActive := bk_numRowsActive b - 1\<rparr>)" "bk_numRowsActive b \<noteq> 0"
proof -
  let ?b = "b\<lparr>bk_openRow := (bk_openRow b)[rowbuf := NO_ROW]\<rparr>"
  have *: "open_rows ?b + 1 = open_rows b"
    using open_rows_update [of rowbuf b NO_ROW] assms by (simp add: bank_wf_def)
  then show "bk_numRowsActive b \<noteq> 0" using assms(1) by (simp add: bank_wf_def)
  have "open_rows ?b = open_rows b - 1" using * by simp
  then show "bank_wf (b\<lparr>bk_openRow := (bk_openRow b)[rowbuf := NO_ROW], bk_preAllowedAt := t,
      bk_actAllowedAt := u, bk_numRowsActive := bk_numRowsActive b - 1\<rparr>)"
    using assms(1) by (simp add: bank_wf_def open_rows_def)
qed

lemma dram_wf_frame:
  "dram_wf g tm (s\<lparr>ds_activateEvent := e\<rparr>) = dram_wf g tm s"
  "dram_wf g tm (s\<lparr>ds_prechargeEvent := e\<rparr>) = dram_wf g tm s"
  by (simp_all add: dram_wf_def)

lemma actTicks_update_wf:
  "dram_wf g tm s \<Longrightarrow> length ts = dt_activationLimit tm \<Longrightarrow>
   dram_wf g tm (s\<lparr>ds_actTicks := (ds_actTicks s)[rank := ts]\<rparr>)"
  by (cases "rank < length (ds_actTicks s)")
     (auto simp: dram_wf_def list_all_length nth_list_update list_update_beyond)

lemma activateBank_ok:
  assumes wf: "dram_wf g tm s" "rank < dg_ranksPerChannel g" "bank < dg_banksPerRank g"
    and rb: "rowbuf < ROW_BUFFER_COUNT" "bk_openRow (ds_banks s ! rank ! bank) ! rowbuf = NO_ROW"
    and win: "ds_actTicks s ! rank \<noteq> [] \<Longrightarrow> \<not> in_window t (last (ds_actTicks s ! rank)) (dt_tXAW tm)"
  shows "\<exists>s'. activateBank g tm t rank bank row rowbuf s = Inr s' \<and> dram_wf g tm s'"
proof -
  let ?b = "ds_banks s ! rank ! bank" and ?ts = "ds_actTicks s ! rank"
  note D = dram_wf_bank [OF wf]
  define b2 where "b2 = ?b\<lparr>bk_openRow := (bk_openRow ?b)[rowbuf := ucast row], bk_bytesAccessed := 0,
    bk_rowAccesses := 0, bk_numRowsActive := bk_numRowsActive ?b + 1,
    bk_preAllowedAt := t + dt_tRAS tm, bk_colAllowedAt := t + dt_tRCD tm\<rparr>"
  define nba where "nba = (if bk_numRowsActive ?b + 1 = 1 then ds_numBanksActive s + 1 else ds_numBanksActive s)"
  define s1 where "s1 = delay_rank rank (t + dt_tRRD tm) (put_bank rank bank b2 (s\<lparr>ds_numBanksActive := nba\<rparr>))"
  have b2: "bank_wf b2" "bk_numRowsActive ?b + 1 \<le> ROW_BUFFER_COUNT"
    unfolding b2_def using activated_bank_wf [OF D(2) rb] by blast+
  have put: "dram_wf g tm (put_bank rank bank b2 (s\<lparr>ds_numBanksActive := nba\<rparr>))"
    by (rule put_bank_wf [OF wf b2(1)]) (simp add: b2_def nba_def)
  then have bound: "nba \<le> dg_banksPerRank g * dg_ranksPerChannel g"
    using numBanksActive_bound [OF put] by (simp add: put_bank_def)
  have s1: "dram_wf g tm s1" unfolding s1_def using put by (rule delay_rank_wf)
  have closed: "vec_get (bk_openRow ?b) rowbuf = Inr NO_ROW"
    using rb D(2) by (simp add: bank_wf_def)
  have step: "activateBank g tm t rank bank row rowbuf s =
      (if ?ts = [] then Inr s1
       else let ticks' = t # butlast ?ts; s2 = s1\<lparr>ds_actTicks := (ds_actTicks s1)[rank := ticks']\<rparr>;
             s3 = (if in_window t (last ticks') (dt_tXAW tm)
                   then delay_rank rank (last ticks' + dt_tXAW tm) s2 else s2)
         in Inr (s3\<lparr>ds_activateEvent :=
                 (case ds_activateEvent s3 of None \<Rightarrow> Some t
                  | Some w \<Rightarrow> Some (if w > t then t else w))\<rparr>))"
    using wf(2) D closed b2(2) bound win
    by (simp add: activateBank_def rbind_assert Let_def s1_def b2_def nba_def)
  show ?thesis
  proof (cases "?ts = []")
    case False
    then have "length (t # butlast ?ts) = dt_activationLimit tm" using D(6) by (cases ?ts) auto
    from actTicks_update_wf [OF s1 this] False show ?thesis
      unfolding step by (simp add: Let_def dram_wf_frame delay_rank_wf)
  qed (use s1 in \<open>simp add: step\<close>)
qed

lemma prechargeBank_ok:
  assumes wf: "dram_wf g tm s" "rank < dg_ranksPerChannel g" "bank < dg_banksPerRank g"
    and rb: "rowbuf < ROW_BUFFER_COUNT" "bk_openRow (ds_banks s ! rank ! bank) ! rowbuf \<noteq> NO_ROW"
  shows "\<exists>s'. prechargeBank tm rank bank rowbuf pre_at s = Inr s' \<and> dram_wf g tm s'"
proof -
  let ?b = "ds_banks s ! rank ! bank"
  note D = dram_wf_bank [OF wf]
  define b2 where "b2 = ?b\<lparr>bk_openRow := (bk_openRow ?b)[rowbuf := NO_ROW], bk_preAllowedAt := pre_at,
    bk_actAllowedAt := max (bk_actAllowedAt ?b) (pre_at + dt_tRP tm), bk_numRowsActive := bk_numRowsActive ?b - 1\<rparr>"
  define nba where "nba = (if bk_numRowsActive ?b - 1 = 0 then ds_numBanksActive s - 1 else ds_numBanksActive s)"
  have b2: "bank_wf b2" "bk_numRowsActive ?b \<noteq> 0"
    unfolding b2_def using precharged_bank_wf [OF D(2) rb] by blast+
  have "active_in_rank (ds_banks s ! rank) \<noteq> 0"
    using b2(2) D(4) by (auto simp: active_in_rank_def filter_empty_conv intro!: bexI [of _ ?b])
  then have pos: "ds_numBanksActive s \<noteq> 0"
    using wf(1) D(3) by (auto simp: dram_wf_def)
  have "dram_wf g tm (put_bank rank bank b2 (s\<lparr>ds_numBanksActive := nba\<rparr>))"
    by (rule put_bank_wf [OF wf b2(1)]) (use b2(2) pos in \<open>auto simp: b2_def nba_def\<close>)
  moreover have "prechargeBank tm rank bank rowbuf pre_at s =
      Inr ((put_bank rank bank b2 (s\<lparr>ds_numBanksActive := nba\<rparr>))
            \<lparr>ds_prechargeEvent := (case ds_prechargeEvent s of None \<Rightarrow> Some (pre_at + dt_tRP tm)
                | Some w \<Rightarrow> Some (if w < pre_at + dt_tRP tm then pre_at + dt_tRP tm else w))\<rparr>)"
    using D b2(2) rb pos
    by (simp add: prechargeBank_def rbind_assert Let_def b2_def nba_def bank_wf_def put_bank_def)
  ultimately show ?thesis by (simp add: dram_wf_frame)
qed
end
