(* ===== verification/Packet_Queue.thy ===== *)
theory Packet_Queue
  imports Packet
begin

text \<open>
  The queue of packets behind a queued port (\<^verbatim>\<open>mem/packet_queue.cc\<close>, \<^verbatim>\<open>mem/packet_queue.hh\<close>): packets wait for
  their tick, one send event serves them, and a peer may refuse a packet and retry later. The lemmas
  show that the queue keeps the order of ticks, loses no packet, and empties.
\<close>

section \<open>The queue\<close>

record deferred =
  df_tick :: tick
  df_pkt :: packet
  df_sendAsSnoop :: bool

definition DeferredPacket :: "tick \<Rightarrow> packet \<Rightarrow> bool \<Rightarrow> deferred" where
  "DeferredPacket t p send_as_snoop = \<lparr>df_tick = t, df_pkt = p, df_sendAsSnoop = send_as_snoop\<rparr>"

text \<open>\<open>pq_sendEvent\<close> is the tick the send event is scheduled for; \<open>pq_drainDone\<close> counts the calls of \<^verbatim>\<open>signalDrainDone\<close>.\<close>

record packet_queue =
  pq_label :: string
  pq_transmitList :: "deferred list"
  pq_sendEvent :: "tick option"
  pq_drainManager :: bool
  pq_waitingOnRetry :: bool
  pq_drainDone :: nat

definition PacketQueue :: "string \<Rightarrow> packet_queue" where
  "PacketQueue lbl =
     \<lparr>pq_label = lbl, pq_transmitList = [], pq_sendEvent = None, pq_drainManager = False, pq_waitingOnRetry = False,
      pq_drainDone = 0\<rparr>"

definition deferredPacketReady :: "tick \<Rightarrow> packet_queue \<Rightarrow> bool" where
  "deferredPacketReady now q = (pq_transmitList q \<noteq> [] \<and> df_tick (hd (pq_transmitList q)) \<le> now)"

text \<open>\<^verbatim>\<open>MaxTick\<close> is \<open>None\<close>.\<close>

definition deferredPacketReadyTime :: "packet_queue \<Rightarrow> tick option" where
  "deferredPacketReadyTime q = (case pq_transmitList q of [] \<Rightarrow> None | d # _ \<Rightarrow> Some (df_tick d))"

fun pq_check_loop :: "u8 list \<Rightarrow> packet \<Rightarrow> deferred list \<Rightarrow> (bool \<times> packet \<times> deferred list) result" where
  "pq_check_loop junk p [] = Inr (False, p, [])"
| "pq_check_loop junk p (d # ds) =
     rbind (checkFunctional_pkt junk p (df_pkt d)) (\<lambda>(found, p1, o1).
       let d1 = d\<lparr>df_pkt := o1\<rparr> in
       if found then Inr (True, p1, d1 # ds)
       else rbind (pq_check_loop junk p1 ds) (\<lambda>(f, p2, ds'). Inr (f, p2, d1 # ds')))"

definition pq_checkFunctional :: "u8 list \<Rightarrow> packet \<Rightarrow> packet_queue \<Rightarrow> (bool \<times> packet \<times> packet_queue) result" where
  "pq_checkFunctional junk p q =
     rbind (pushLabel (pq_label q) p) (\<lambda>p1.
     rbind (pq_check_loop junk p1 (pq_transmitList q)) (\<lambda>(found, p2, ds).
     rbind (popLabel p2) (\<lambda>p3. Inr (found, p3, q\<lparr>pq_transmitList := ds\<rparr>))))"

definition schedSendEvent :: "tick \<Rightarrow> packet_queue \<Rightarrow> packet_queue result" where
  "schedSendEvent when q =
     (if pq_waitingOnRetry q then rbind (sim_assert (pq_sendEvent q = None)) (\<lambda>_. Inr q)
      else case pq_sendEvent q of
        None \<Rightarrow> Inr (q\<lparr>pq_sendEvent := Some when\<rparr>)
      | Some t \<Rightarrow> Inr (if t > when then q\<lparr>pq_sendEvent := Some when\<rparr> else q))"

text \<open>The search for the place in the middle of the list.\<close>

fun transmit_insert :: "deferred \<Rightarrow> deferred list \<Rightarrow> deferred list" where
  "transmit_insert d [] = [d]"
| "transmit_insert d (e # es) = (if df_tick d \<ge> df_tick e then e # transmit_insert d es else d # e # es)"

definition schedSendTiming :: "tick \<Rightarrow> packet \<Rightarrow> tick \<Rightarrow> bool \<Rightarrow> packet_queue \<Rightarrow> packet_queue result" where
  "schedSendTiming now p when send_as_snoop q =
     rbind (sim_assert (when \<ge> now)) (\<lambda>_.
     rbind (sim_assert (\<not> isExpressSnoop p)) (\<lambda>_.
       let l = pq_transmitList q; d = DeferredPacket when p send_as_snoop in
       if length l > 100 then Inl Panic
       else if l = [] \<or> when < df_tick (hd l) then
         schedSendEvent when (q\<lparr>pq_transmitList := d # l\<rparr>)
       else if when \<ge> df_tick (last l) then Inr (q\<lparr>pq_transmitList := l @ [d]\<rparr>)
       else Inr (q\<lparr>pq_transmitList := hd l # transmit_insert d (tl l)\<rparr>)))"

text \<open>
  A peer that is offered a packet answers whether it accepts it; before it answers it may cause
  further packets to be queued here. Its answer and these calls are arguments.
\<close>

type_synonym queued_call = "packet \<times> tick \<times> bool"

fun sched_calls :: "tick \<Rightarrow> queued_call list \<Rightarrow> packet_queue \<Rightarrow> packet_queue result" where
  "sched_calls now [] q = Inr q"
| "sched_calls now ((p, when, snoop) # cs) q =
     rbind (schedSendTiming now p when snoop q) (\<lambda>q1. sched_calls now cs q1)"

definition trySendTiming :: "tick \<Rightarrow> bool \<Rightarrow> queued_call list \<Rightarrow> packet_queue \<Rightarrow> packet_queue result" where
  "trySendTiming now accepted calls q =
     rbind (sim_assert (deferredPacketReady now q)) (\<lambda>_.
       let dp = hd (pq_transmitList q) in
     rbind (sched_calls now calls (q\<lparr>pq_transmitList := tl (pq_transmitList q)\<rparr>)) (\<lambda>q1.
       let q2 = q1\<lparr>pq_waitingOnRetry := \<not> accepted\<rparr> in
       if pq_waitingOnRetry q2 then
         rbind (sim_assert (pq_sendEvent q2 = None)) (\<lambda>_.
           Inr (q2\<lparr>pq_transmitList := dp # pq_transmitList q2\<rparr>))
       else Inr q2))"

definition scheduleSend :: "tick \<Rightarrow> tick option \<Rightarrow> packet_queue \<Rightarrow> packet_queue" where
  "scheduleSend now time q =
     (let nextReady = (case (deferredPacketReadyTime q, time) of
            (None, t) \<Rightarrow> t | (Some a, None) \<Rightarrow> Some a | (Some a, Some t) \<Rightarrow> Some (min a t)) in
      case nextReady of
        Some t \<Rightarrow> if pq_sendEvent q = None then q\<lparr>pq_sendEvent := Some (max t (now + 1))\<rparr> else q
      | None \<Rightarrow>
          if pq_drainManager q \<and> pq_transmitList q = [] \<and> pq_sendEvent q = None
          then q\<lparr>pq_drainDone := pq_drainDone q + 1, pq_drainManager := False\<rparr> else q)"

definition sendDeferredPacket :: "tick \<Rightarrow> bool \<Rightarrow> queued_call list \<Rightarrow> packet_queue \<Rightarrow> packet_queue result" where
  "sendDeferredPacket now accepted calls q =
     rbind (trySendTiming now accepted calls q) (\<lambda>q1.
       Inr (if \<not> pq_waitingOnRetry q1 then scheduleSend now None q1 else q1))"

text \<open>The event is no longer scheduled when it is processed.\<close>

definition processSendEvent :: "tick \<Rightarrow> bool \<Rightarrow> queued_call list \<Rightarrow> packet_queue \<Rightarrow> packet_queue result" where
  "processSendEvent now accepted calls q =
     (let q0 = q\<lparr>pq_sendEvent := None\<rparr> in
      rbind (sim_assert (\<not> pq_waitingOnRetry q0)) (\<lambda>_. sendDeferredPacket now accepted calls q0))"

definition pq_retry :: "tick \<Rightarrow> bool \<Rightarrow> queued_call list \<Rightarrow> packet_queue \<Rightarrow> packet_queue result" where
  "pq_retry now accepted calls q =
     rbind (sim_assert (pq_waitingOnRetry q)) (\<lambda>_. sendDeferredPacket now accepted calls q)"

definition pq_drain :: "packet_queue \<Rightarrow> nat \<times> packet_queue" where
  "pq_drain q =
     (if pq_transmitList q = [] \<and> pq_sendEvent q = None then (0, q) else (1, q\<lparr>pq_drainManager := True\<rparr>))"

section \<open>Order\<close>

text \<open>The reference for where a packet goes: after every packet that is due no later.\<close>

definition stable_insert :: "deferred \<Rightarrow> deferred list \<Rightarrow> deferred list" where
  "stable_insert d ds = takeWhile (\<lambda>e. df_tick e \<le> df_tick d) ds @ d # dropWhile (\<lambda>e. df_tick e \<le> df_tick d) ds"

lemma transmit_insert_stable: "transmit_insert d ds = stable_insert d ds"
  by (induction ds) (auto simp: stable_insert_def)

lemma stable_insert_Nil [simp]: "stable_insert d [] = [d]"
  by (simp add: stable_insert_def)

lemma stable_insert_Cons:
  "stable_insert d (e # ds) = (if df_tick e \<le> df_tick d then e # stable_insert d ds else d # e # ds)"
  by (simp add: stable_insert_def)

lemma stable_insert_last:
  assumes "sorted (map df_tick ds)" "ds \<noteq> []" "df_tick (last ds) \<le> df_tick d"
  shows "stable_insert d ds = ds @ [d]"
proof -
  have "\<forall>e \<in> set ds. df_tick e \<le> df_tick d"
    using assms by (induction ds) (auto split: if_splits intro: le_trans last_in_set)
  then show ?thesis by (simp add: stable_insert_def)
qed

lemma sorted_stable_insert: "sorted (map df_tick ds) \<Longrightarrow> sorted (map df_tick (stable_insert d ds))"
proof (induction ds)
  case (Cons e ds)
  have "\<forall>x \<in> set (stable_insert d ds). x = d \<or> x \<in> set ds"
    by (auto simp: stable_insert_def dest: set_takeWhileD set_dropWhileD)
  with Cons show ?case by (auto simp: stable_insert_Cons)
qed simp

lemma mset_stable_insert [simp]: "mset (stable_insert d ds) = add_mset d (mset ds)"
  by (induction ds) (auto simp: stable_insert_Cons)

lemma length_stable_insert [simp]: "length (stable_insert d ds) = Suc (length ds)"
  by (induction ds) (auto simp: stable_insert_Cons)

lemma stable_insert_not_Nil [simp]: "stable_insert d ds \<noteq> []"
  by (simp add: stable_insert_def)

lemma hd_stable_insert:
  "hd (stable_insert d ds) = (if ds \<noteq> [] \<and> df_tick (hd ds) \<le> df_tick d then hd ds else d)"
  by (cases ds) (auto simp: stable_insert_Cons)

lemma schedSendTiming_eq:
  fixes snoop :: bool
  assumes "sorted (map df_tick (pq_transmitList q))" "now \<le> when" "\<not> isExpressSnoop p" "length (pq_transmitList q) \<le> 100"
  defines "l \<equiv> pq_transmitList q"
  defines "q1 \<equiv> q\<lparr>pq_transmitList := stable_insert (DeferredPacket when p snoop) l\<rparr>"
  shows "schedSendTiming now p when snoop q =
    (if l = [] \<or> when < df_tick (hd l) then schedSendEvent when q1 else Inr q1)"
proof (cases l)
  case Nil
  then show ?thesis using assms by (simp add: schedSendTiming_def rbind_assert)
next
  case (Cons e es)
  let ?d = "DeferredPacket when p snoop"
  have t: "df_tick ?d = when" by (simp add: DeferredPacket_def)
  have l: "stable_insert ?d (e # es) = (e # es) @ [?d]" if "when \<ge> df_tick (last (e # es))"
    using stable_insert_last [of "e # es" ?d] assms(1) Cons that t by (simp add: l_def)
  show ?thesis using assms(2-4) Cons l t
    by (auto simp: schedSendTiming_def rbind_assert Let_def transmit_insert_stable stable_insert_Cons q1_def l_def)
qed

section \<open>The invariant\<close>

text \<open>
  At tick \<open>now\<close>: the packets are in order of their ticks; a queue that waits for a retry has a packet and no
  event; otherwise there is an event exactly when there are packets, it is not in the past, and the first
  packet is due when it fires.
\<close>

definition pq_inv :: "tick \<Rightarrow> packet_queue \<Rightarrow> bool" where
  "pq_inv now q =
     (sorted (map df_tick (pq_transmitList q)) \<and>
      (if pq_waitingOnRetry q then
         pq_sendEvent q = None \<and> pq_transmitList q \<noteq> [] \<and> df_tick (hd (pq_transmitList q)) \<le> now
       else case pq_sendEvent q of
         None \<Rightarrow> pq_transmitList q = []
       | Some t \<Rightarrow> pq_transmitList q \<noteq> [] \<and> now \<le> t \<and> df_tick (hd (pq_transmitList q)) \<le> t))"

lemma PacketQueue_inv: "pq_inv now (PacketQueue lbl)"
  by (simp add: pq_inv_def PacketQueue_def)

text \<open>While the peer is offered a packet the list may be empty although a retry is pending.\<close>

definition pq_inv_offer :: "tick \<Rightarrow> packet_queue \<Rightarrow> bool" where
  "pq_inv_offer now q =
     (sorted (map df_tick (pq_transmitList q)) \<and>
      (pq_waitingOnRetry q \<longrightarrow> pq_sendEvent q = None) \<and>
      (case pq_sendEvent q of None \<Rightarrow> True
       | Some t \<Rightarrow> pq_transmitList q \<noteq> [] \<and> now \<le> t \<and> df_tick (hd (pq_transmitList q)) \<le> t))"

lemma schedSendTiming_offer:
  assumes inv: "pq_inv_offer now q" and pre: "now \<le> when" "\<not> isExpressSnoop p" "length (pq_transmitList q) \<le> 100"
  shows "\<exists>q'. schedSendTiming now p when snoop q = Inr q' \<and> pq_inv_offer now q' \<and>
    pq_waitingOnRetry q' = pq_waitingOnRetry q \<and>
    pq_transmitList q' = stable_insert (DeferredPacket when p snoop) (pq_transmitList q) \<and>
    (pq_transmitList q = [] \<and> \<not> pq_waitingOnRetry q \<longrightarrow> pq_sendEvent q' \<noteq> None) \<and>
    (pq_sendEvent q \<noteq> None \<longrightarrow> pq_sendEvent q' \<noteq> None)"
proof -
  let ?l = "stable_insert (DeferredPacket when p snoop) (pq_transmitList q)"
  have s: "sorted (map df_tick (pq_transmitList q))" using inv by (simp add: pq_inv_offer_def)
  have sl: "sorted (map df_tick ?l)" using sorted_stable_insert [OF s] .
  have h: "hd ?l = (if pq_transmitList q \<noteq> [] \<and> df_tick (hd (pq_transmitList q)) \<le> when then hd (pq_transmitList q)
      else DeferredPacket when p snoop)" by (simp add: hd_stable_insert DeferredPacket_def)
  have t: "df_tick (DeferredPacket when p snoop) = when" by (simp add: DeferredPacket_def)
  show ?thesis unfolding schedSendTiming_eq [OF s pre]
    using inv pre(1) sl
    by (cases "pq_sendEvent q"; cases "pq_waitingOnRetry q") (simp_all add: schedSendEvent_def rbind_assert pq_inv_offer_def h t)
qed

text \<open>The order of service after a list of calls.\<close>

definition queue_calls :: "queued_call list \<Rightarrow> deferred list \<Rightarrow> deferred list" where
  "queue_calls cs ds = fold (\<lambda>(p, when, snoop). stable_insert (DeferredPacket when p snoop)) cs ds"

definition calls_ok :: "tick \<Rightarrow> queued_call list \<Rightarrow> bool" where
  "calls_ok now cs = list_all (\<lambda>(p, when, snoop). now \<le> when \<and> \<not> isExpressSnoop p) cs"

lemma mset_queue_calls:
  "mset (queue_calls cs ds) = mset (map (\<lambda>(p, when, snoop). DeferredPacket when p snoop) cs) + mset ds"
  by (induction cs arbitrary: ds) (auto simp: queue_calls_def)

lemma sched_calls_offer:
  assumes "pq_inv_offer now q" "calls_ok now cs" "length (pq_transmitList q) + length cs \<le> 101"
  shows "\<exists>q'. sched_calls now cs q = Inr q' \<and> pq_inv_offer now q' \<and> pq_waitingOnRetry q' = pq_waitingOnRetry q \<and>
    pq_transmitList q' = queue_calls cs (pq_transmitList q)"
  using assms
proof (induction cs arbitrary: q)
  case (Cons c cs)
  obtain p w snoop where c: "c = (p, w, snoop)" by (metis prod_cases3)
  obtain q1 where q1: "schedSendTiming now p w snoop q = Inr q1" "pq_inv_offer now q1" "pq_waitingOnRetry q1 = pq_waitingOnRetry q"
    "pq_transmitList q1 = stable_insert (DeferredPacket w p snoop) (pq_transmitList q)"
    using schedSendTiming_offer [OF Cons.prems(1), of w p snoop] Cons.prems(2,3) c by (auto simp: calls_ok_def)
  have "length (pq_transmitList q1) = Suc (length (pq_transmitList q))"
    using q1(4) by simp
  with Cons.IH [OF q1(2)] Cons.prems(2,3) q1 c show ?case by (auto simp: queue_calls_def calls_ok_def)
qed (simp add: queue_calls_def)

lemma pq_inv_schedule:
  assumes "pq_inv now q" "now \<le> when" "\<not> isExpressSnoop p" "length (pq_transmitList q) \<le> 100"
  shows "\<exists>q'. schedSendTiming now p when snoop q = Inr q' \<and> pq_inv now q' \<and>
    pq_transmitList q' = stable_insert (DeferredPacket when p snoop) (pq_transmitList q)"
proof -
  have "pq_inv_offer now q" using assms(1) by (auto simp: pq_inv_def pq_inv_offer_def split: if_splits option.splits)
  from schedSendTiming_offer [OF this assms(2-4)] obtain q' where q': "schedSendTiming now p when snoop q = Inr q'" "pq_inv_offer now q'"
    "pq_waitingOnRetry q' = pq_waitingOnRetry q" "pq_transmitList q' = stable_insert (DeferredPacket when p snoop) (pq_transmitList q)"
    "pq_transmitList q = [] \<and> \<not> pq_waitingOnRetry q \<longrightarrow> pq_sendEvent q' \<noteq> None" "pq_sendEvent q \<noteq> None \<longrightarrow> pq_sendEvent q' \<noteq> None"
    by blast
  have "pq_sendEvent q' \<noteq> None" if "\<not> pq_waitingOnRetry q"
    using q'(5,6) that assms(1) by (auto simp: pq_inv_def split: option.splits)
  with q'(2-4) assms(1,2) have "pq_inv now q'"
    by (cases "pq_sendEvent q'"; cases "pq_waitingOnRetry q") (simp_all add: pq_inv_def pq_inv_offer_def hd_stable_insert DeferredPacket_def)
  with q' show ?thesis by blast
qed

text \<open>Sending: an accepted packet leaves, a refused packet stays in front; nothing else is lost or reordered.\<close>

lemma sendDeferredPacket_ok:
  assumes "sorted (map df_tick (pq_transmitList q))" "pq_sendEvent q = None" "deferredPacketReady now q"
    and "calls_ok now cs" "length (pq_transmitList q) + length cs \<le> 101" "accepted \<or> cs = []"
  shows "\<exists>q'. sendDeferredPacket now accepted cs q = Inr q' \<and> pq_inv now q' \<and> pq_waitingOnRetry q' = (\<not> accepted) \<and>
    pq_transmitList q' = (if accepted then queue_calls cs (tl (pq_transmitList q)) else pq_transmitList q)"
proof -
  let ?q0 = "q\<lparr>pq_transmitList := tl (pq_transmitList q)\<rparr>"
  have ne: "pq_transmitList q \<noteq> []" "df_tick (hd (pq_transmitList q)) \<le> now" using assms(3) by (auto simp: deferredPacketReady_def)
  have "pq_inv_offer now ?q0" using assms(1,2) by (cases "pq_transmitList q") (auto simp: pq_inv_offer_def)
  then obtain q1 where q1: "sched_calls now cs ?q0 = Inr q1" "pq_inv_offer now q1"
    "pq_transmitList q1 = queue_calls cs (tl (pq_transmitList q))"
    using sched_calls_offer [OF _ assms(4), of ?q0] assms(5) by force
  show ?thesis
  proof (cases accepted)
    case True
    let ?q2 = "q1\<lparr>pq_waitingOnRetry := False\<rparr>"
    have "sendDeferredPacket now accepted cs q = Inr (scheduleSend now None ?q2)"
      using True q1(1) assms(3) by (simp add: sendDeferredPacket_def trySendTiming_def rbind_assert Let_def)
    moreover have "pq_inv now (scheduleSend now None ?q2)"
      using q1(2) by (auto simp: pq_inv_def pq_inv_offer_def scheduleSend_def deferredPacketReadyTime_def Let_def
          split: option.splits list.splits)
    moreover have "pq_transmitList (scheduleSend now None ?q2) = pq_transmitList q1" "\<not> pq_waitingOnRetry (scheduleSend now None ?q2)"
      by (auto simp: scheduleSend_def Let_def split: option.splits)
    ultimately show ?thesis using True q1(3) by simp
  next
    case False
    with assms(2,3,6) ne assms(1) show ?thesis
      by (auto simp: sendDeferredPacket_def trySendTiming_def rbind_assert Let_def pq_inv_def)
  qed
qed

lemma processSendEvent_ok:
  assumes "pq_inv now q" "pq_sendEvent q = Some now"
    and "calls_ok now cs" "length (pq_transmitList q) + length cs \<le> 101" "accepted \<or> cs = []"
  shows "\<exists>q'. processSendEvent now accepted cs q = Inr q' \<and> pq_inv now q' \<and> pq_waitingOnRetry q' = (\<not> accepted) \<and>
    pq_transmitList q' = (if accepted then queue_calls cs (tl (pq_transmitList q)) else pq_transmitList q)"
  using assms sendDeferredPacket_ok [of "q\<lparr>pq_sendEvent := None\<rparr>" now cs accepted]
  by (auto simp: processSendEvent_def pq_inv_def deferredPacketReady_def rbind_assert Let_def split: if_splits)

lemma pq_retry_ok:
  assumes "pq_inv now q" "pq_waitingOnRetry q"
    and "calls_ok now cs" "length (pq_transmitList q) + length cs \<le> 101" "accepted \<or> cs = []"
  shows "\<exists>q'. pq_retry now accepted cs q = Inr q' \<and> pq_inv now q' \<and> pq_waitingOnRetry q' = (\<not> accepted) \<and>
    pq_transmitList q' = (if accepted then queue_calls cs (tl (pq_transmitList q)) else pq_transmitList q)"
  using assms sendDeferredPacket_ok [of q now cs accepted]
  by (auto simp: pq_retry_def pq_inv_def deferredPacketReady_def rbind_assert)

section \<open>Reachable queues\<close>

text \<open>
  The steps of a queue at a tick: a packet is queued, the send event fires, or the peer retries; time passes up to
  the send event. The log is the list of packets the peer has accepted, in order.
\<close>

inductive pq_reach :: "tick \<Rightarrow> packet_queue \<Rightarrow> deferred list \<Rightarrow> deferred list \<Rightarrow> bool" where
  start: "pq_reach 0 (PacketQueue lbl) [] []"
| queue: "pq_reach now q queued sent \<Longrightarrow> now \<le> when \<Longrightarrow> \<not> isExpressSnoop p \<Longrightarrow> schedSendTiming now p when snoop q = Inr q' \<Longrightarrow>
    pq_reach now q' (DeferredPacket when p snoop # queued) sent"
| accept: "pq_reach now q queued sent \<Longrightarrow> pq_sendEvent q = Some now \<Longrightarrow> processSendEvent now True [] q = Inr q' \<Longrightarrow>
    pq_reach now q' queued (sent @ [hd (pq_transmitList q)])"
| refuse: "pq_reach now q queued sent \<Longrightarrow> pq_sendEvent q = Some now \<Longrightarrow> processSendEvent now False [] q = Inr q' \<Longrightarrow>
    pq_reach now q' queued sent"
| retry: "pq_reach now q queued sent \<Longrightarrow> pq_waitingOnRetry q \<Longrightarrow> pq_retry now True [] q = Inr q' \<Longrightarrow>
    pq_reach now q' queued (sent @ [hd (pq_transmitList q)])"
| refuse_again: "pq_reach now q queued sent \<Longrightarrow> pq_waitingOnRetry q \<Longrightarrow> pq_retry now False [] q = Inr q' \<Longrightarrow>
    pq_reach now q' queued sent"
| tick: "pq_reach now q queued sent \<Longrightarrow> now \<le> now' \<Longrightarrow> (\<And>t. pq_sendEvent q = Some t \<Longrightarrow> now' \<le> t) \<Longrightarrow> pq_reach now' q queued sent"

lemma schedSendTiming_len:
  "schedSendTiming now p when snoop q = Inr q' \<Longrightarrow> length (pq_transmitList q) \<le> 100"
  by (auto simp: schedSendTiming_def rbind_assert Let_def split: if_splits)

lemma pq_reach_inv:
  assumes "pq_reach now q queued sent"
  shows "pq_inv now q \<and> length (pq_transmitList q) \<le> 101 \<and> mset queued = mset sent + mset (pq_transmitList q)"
  using assms
proof (induction rule: pq_reach.induct)
  case (start lbl)
  then show ?case by (simp add: PacketQueue_inv) (simp add: PacketQueue_def)
next
  case (queue now q queued sent w p snoop q')
  from pq_inv_schedule [of now q w p snoop] queue schedSendTiming_len [OF queue.hyps(4)] show ?case by auto
next
  case (accept now q queued sent q')
  then have "pq_transmitList q \<noteq> []" by (auto simp: pq_inv_def split: if_splits)
  with accept processSendEvent_ok [of now q "[]" True] show ?case
    by (auto simp: calls_ok_def queue_calls_def) (cases "pq_transmitList q"; simp)
next
  case (refuse now q queued sent q')
  with processSendEvent_ok [of now q "[]" False] show ?case by (auto simp: calls_ok_def)
next
  case (retry now q queued sent q')
  then have "pq_transmitList q \<noteq> []" by (auto simp: pq_inv_def)
  with retry pq_retry_ok [of now q "[]" True] show ?case
    by (auto simp: calls_ok_def queue_calls_def) (cases "pq_transmitList q"; simp)
next
  case (refuse_again now q queued sent q')
  with pq_retry_ok [of now q "[]" False] show ?case by (auto simp: calls_ok_def)
next
  case (tick now q queued sent now')
  then show ?case by (auto simp: pq_inv_def split: if_splits option.splits)
qed

text \<open>The queue empties when the peer accepts every packet.\<close>

lemma pq_reach_empties:
  assumes "pq_reach now q queued sent"
  shows "\<exists>now' q' sent'. pq_reach now' q' queued (sent @ sent') \<and> pq_transmitList q' = [] \<and> sent' = pq_transmitList q"
  using assms
proof (induction "pq_transmitList q" arbitrary: now q sent)
  case Nil
  then show ?case by (intro exI [of _ now] exI [of _ q] exI [of _ "[]"]) simp
next
  case (Cons d ds)
  have inv: "pq_inv now q" "length (pq_transmitList q) \<le> 101" using pq_reach_inv [OF Cons.prems] by auto
  obtain now1 q1 where q1: "pq_reach now1 q1 queued (sent @ [d])" "pq_transmitList q1 = ds"
  proof (cases "pq_waitingOnRetry q")
    case True
    then obtain q1 where "pq_retry now True [] q = Inr q1" "pq_transmitList q1 = ds"
      using pq_retry_ok [OF inv(1) True, of "[]" True] inv(2) Cons.hyps(2) [symmetric] by (auto simp: calls_ok_def queue_calls_def)
    with pq_reach.retry [OF Cons.prems True] Cons.hyps(2) [symmetric] that show ?thesis by auto
  next
    case False
    then obtain t where t: "pq_sendEvent q = Some t" "now \<le> t"
      using inv(1) Cons.hyps(2) by (auto simp: pq_inv_def split: option.splits)
    have r: "pq_reach t q queued sent" using pq_reach.tick [OF Cons.prems t(2)] t(1) by simp
    then obtain q1 where "processSendEvent t True [] q = Inr q1" "pq_transmitList q1 = ds"
      using processSendEvent_ok [of t q "[]" True] pq_reach_inv [OF r] t(1) Cons.hyps(2) [symmetric]
      by (auto simp: calls_ok_def queue_calls_def)
    with pq_reach.accept [OF r t(1)] Cons.hyps(2) [symmetric] that show ?thesis by auto
  qed
  from Cons.hyps(1) [OF q1(2) [symmetric] q1(1)] q1(2) Cons.hyps(2) show ?case by fastforce
qed

end
