(* ===== verification/Dram_Queues.thy ===== *)
theory Dram_Queues
  imports Dram_Ctrl Packet_Queue Abstract_Mem
begin

text \<open>
  The request side of the memory controller (\<^verbatim>\<open>mem/dram_ctrl.cc\<close>): splitting a packet into bursts, the read
  queue with forwarding from the write queue, the write queue with merging, the response queue with
  its burst helpers, and the statistics of every logical domain.
\<close>

unbundle bit_operations_syntax

section \<open>Statistics\<close>

text \<open>The fields of \<^verbatim>\<open>DRAMCtrlStats\<close> in the order of the structure; a row of the statistics table is one structure.\<close>

datatype dram_stat =
    S_readReqs | S_writeReqs | S_readBursts | S_writeBursts | S_bytesReadDRAM | S_bytesReadWrQ | S_bytesWritten
  | S_bytesReadSys | S_bytesWrittenSys | S_servicedByWrQ | S_mergedWrBursts | S_neitherReadNorWrite | S_numRdRetry
  | S_numWrRetry | S_totGap | S_rdQLen | S_wrQLen | S_totQLat | S_totMemAccLat | S_totBusLat | S_avgQLat
  | S_avgBusLat | S_avgMemAccLat | S_avgRdBW | S_avgWrBW | S_avgRdBWSys | S_avgWrBWSys | S_peakBW | S_busUtil
  | S_busUtilRead | S_busUtilWrite | S_readRowHits | S_writeRowHits | S_readRowHitRate | S_writeRowHitRate
  | S_avgGap | S_pageHitRate

definition DRAMCtrlStats :: "dram_stat list" where
  "DRAMCtrlStats =
     [S_readReqs, S_writeReqs, S_readBursts, S_writeBursts, S_bytesReadDRAM, S_bytesReadWrQ, S_bytesWritten,
      S_bytesReadSys, S_bytesWrittenSys, S_servicedByWrQ, S_mergedWrBursts, S_neitherReadNorWrite, S_numRdRetry,
      S_numWrRetry, S_totGap, S_rdQLen, S_wrQLen, S_totQLat, S_totMemAccLat, S_totBusLat, S_avgQLat,
      S_avgBusLat, S_avgMemAccLat, S_avgRdBW, S_avgWrBW, S_avgRdBWSys, S_avgWrBWSys, S_peakBW, S_busUtil,
      S_busUtilRead, S_busUtilWrite, S_readRowHits, S_writeRowHits, S_readRowHitRate, S_writeRowHitRate,
      S_avgGap, S_pageHitRate]"

fun index_of :: "'a list \<Rightarrow> 'a \<Rightarrow> nat" where
  "index_of [] x = 0"
| "index_of (y # ys) x = (if x = y then 0 else Suc (index_of ys x))"

definition pard_stat_upd :: "ldom_id \<Rightarrow> dram_stat \<Rightarrow> (u64 \<Rightarrow> u64) \<Rightarrow> dram_cp \<Rightarrow> dram_cp result" where
  "pard_stat_upd d s f r =
     rbind (getStatsPtr (dc_stats r) d) (\<lambda>i.
     rbind (vec_get (st_stats (dc_stats r)) i) (\<lambda>row.
     rbind (vec_get row (index_of DRAMCtrlStats s)) (\<lambda>v.
       Inr (r\<lparr>dc_stats := (dc_stats r)\<lparr>st_stats :=
              (st_stats (dc_stats r))[i := row[index_of DRAMCtrlStats s := f v]]\<rparr>\<rparr>))))"

text \<open>The statistics vectors per logical domain; \<^verbatim>\<open>regStats\<close> gives each of them four entries.\<close>

datatype ldom_stat =
    L_readBursts | L_writeBursts | L_servicedByWrQ | L_mergedWrBursts | L_bytesReadSys | L_bytesWrittenSys
  | L_totMemAccLat | L_totQLat | L_readRowHits | L_writeRowHits

section \<open>Configuration and state\<close>

datatype page_policy = page_open | page_open_adaptive | page_close | page_close_adaptive

record dram_config =
  cf_geom :: dram_geometry
  cf_timing :: dram_timing
  cf_tCL :: tick
  cf_tBURST :: tick
  cf_tWR :: tick
  cf_tRTP :: tick
  cf_tRFC :: tick
  cf_tREFI :: tick
  cf_tWTR :: tick
  cf_tRTW :: tick
  cf_readBufferSize :: nat
  cf_writeBufferSize :: nat
  cf_writeHighThreshold :: nat
  cf_writeLowThreshold :: nat
  cf_minWritesPerSwitch :: nat
  cf_memSchedPolicy :: sched_policy
  cf_pageMgmt :: page_policy
  cf_maxAccessesPerRow :: nat
  cf_frontendLatency :: tick
  cf_backendLatency :: tick

datatype bus_state = BUS_READ | BUS_READ_TO_WRITE | BUS_WRITE | BUS_WRITE_TO_READ

datatype refresh_state = REF_IDLE | REF_DRAIN | REF_PRE | REF_RUN

datatype power_state = PWR_IDLE | PWR_REF | PWR_PRE_PDN | PWR_ACT | PWR_ACT_PDN

text \<open>
  \<open>mc_helpers\<close> is the store of burst helpers, \<open>None\<close> for one that has been deleted; \<open>mc_retries\<close> counts the
  retries sent to the requester and \<open>mc_drainDone\<close> the calls of \<^verbatim>\<open>signalDrainDone\<close>. An event is the tick it is scheduled for.
\<close>

record dram_ctrl =
  mc_cp :: dram_cp
  mc_mem :: abstract_mem
  mc_port :: packet_queue
  mc_dram :: dram_state
  mc_readQueue :: "dram_packet list"
  mc_writeQueue :: "dram_packet list"
  mc_respQueue :: "dram_packet list"
  mc_helpers :: "burst_helper option list"
  mc_perLDom :: "ldom_stat \<Rightarrow> nat list"
  mc_retryRdReq :: bool
  mc_retryWrReq :: bool
  mc_busState :: bus_state
  mc_writesThisTime :: nat
  mc_readsThisTime :: nat
  mc_busBusyUntil :: tick
  mc_nextReqTime :: tick
  mc_prevArrival :: tick
  mc_refreshDueAt :: tick
  mc_refreshState :: refresh_state
  mc_pwrState :: power_state
  mc_pwrStateTrans :: power_state
  mc_pwrStateTick :: tick
  mc_nextReqEvent :: "tick option"
  mc_respondEvent :: "tick option"
  mc_refreshEvent :: "tick option"
  mc_powerEvent :: "tick option"
  mc_drainManager :: bool
  mc_pendingDelete :: "packet list"
  mc_retries :: nat
  mc_drainDone :: nat

text \<open>\<^verbatim>\<open>PARD_STATS\<close> does nothing for a packet without a tag; the vectors per domain are indexed by the tag in any case.\<close>

definition pard_stats :: "packet \<Rightarrow> dram_stat \<Rightarrow> (u64 \<Rightarrow> u64) \<Rightarrow> dram_ctrl \<Rightarrow> dram_ctrl result" where
  "pard_stats p s f mc =
     (if flag_isSet p VALID_QOSTAG then
        rbind (getQosTag p) (\<lambda>tag.
        rbind (pard_stat_upd (QOSTAG_TO_LDOMID tag) s f (mc_cp mc)) (\<lambda>r. Inr (mc\<lparr>mc_cp := r\<rparr>)))
      else Inr mc)"

definition ldom_add :: "u64 \<Rightarrow> ldom_stat \<Rightarrow> nat \<Rightarrow> dram_ctrl \<Rightarrow> dram_ctrl result" where
  "ldom_add tag s n mc =
     rbind (stat_add (mc_perLDom mc s) (unat (QOSTAG_TO_LDOMID tag)) n) (\<lambda>v.
       Inr (mc\<lparr>mc_perLDom := (mc_perLDom mc)(s := v)\<rparr>))"

definition ldom_stats :: "packet \<Rightarrow> ldom_stat \<Rightarrow> nat \<Rightarrow> dram_ctrl \<Rightarrow> dram_ctrl result" where
  "ldom_stats p s n mc = rbind (getQosTag p) (\<lambda>tag. ldom_add tag s n mc)"

section \<open>Bursts\<close>

text \<open>The end of the burst that holds an address, the part of a packet in that burst, and the number of bursts of a packet.\<close>

definition burst_next :: "nat \<Rightarrow> addr \<Rightarrow> addr" where
  "burst_next burstSize a = (a OR (of_nat burstSize - 1)) + 1"

definition burst_size :: "nat \<Rightarrow> packet \<Rightarrow> addr \<Rightarrow> nat" where
  "burst_size burstSize p a =
     unat (ucast (min (burst_next burstSize a) (pk_addr p + of_nat (pk_size p)) - a) :: u32)"

definition dram_pkt_count :: "nat \<Rightarrow> packet \<Rightarrow> nat result" where
  "dram_pkt_count burstSize p =
     (let offset = ucast (pk_addr p AND (of_nat burstSize - 1)) :: u32;
          sz = of_nat (pk_size p) :: u32;
          b = of_nat burstSize :: u32
      in if b = 0 then Inl BadAccess else Inr (unat ((offset + sz + b - 1) div b)))"

section \<open>Responses\<close>

definition mc_schedTimingResp :: "tick \<Rightarrow> packet \<Rightarrow> tick \<Rightarrow> dram_ctrl \<Rightarrow> dram_ctrl result" where
  "mc_schedTimingResp now p when mc =
     rbind (schedSendTiming now p when False (mc_port mc)) (\<lambda>q. Inr (mc\<lparr>mc_port := q\<rparr>))"

definition accessAndRespond :: "tick \<Rightarrow> packet \<Rightarrow> tick \<Rightarrow> dram_ctrl \<Rightarrow> dram_ctrl result" where
  "accessAndRespond now p static_latency mc =
     rbind (me_access p (mc_mem mc)) (\<lambda>(p1, m1).
       let mc1 = mc\<lparr>mc_mem := m1\<rparr> in
       if needsResponse (pk_cmd p) then
         rbind (sim_assert (isResponse (pk_cmd p1))) (\<lambda>_.
           mc_schedTimingResp now (p1\<lparr>pk_busFirstWordDelay := 0, pk_busLastWordDelay := 0\<rparr>) (now + static_latency) mc1)
       else Inr (mc1\<lparr>mc_pendingDelete := mc_pendingDelete mc1 @ [p1]\<rparr>))"

section \<open>The read queue\<close>

definition in_write_entry :: "addr \<Rightarrow> nat \<Rightarrow> dram_packet \<Rightarrow> bool" where
  "in_write_entry a sz w = (dp_addr w \<le> a \<and> a + of_nat sz \<le> dp_addr w + of_nat (dp_size w))"

text \<open>One turn of the loop of \<^verbatim>\<open>addToReadQueue\<close>; the counter of bursts the write queue serves and the helper are passed along.\<close>

definition read_burst ::
  "dram_config \<Rightarrow> tick \<Rightarrow> packet \<Rightarrow> nat \<Rightarrow> addr \<Rightarrow> nat \<times> nat option \<times> dram_ctrl \<Rightarrow> (nat \<times> nat option \<times> dram_ctrl) result" where
  "read_burst c now p pktCount a =
     (\<lambda>(served, helper, mc0).
       let B = dg_burstSize (cf_geom c); sz = burst_size B p a in
       rbind (pard_stats p S_readBursts (\<lambda>v. v + 1) mc0) (\<lambda>mc1.
       rbind (ldom_stats p L_readBursts 1 mc1) (\<lambda>mc.
       if list_ex (in_write_entry a sz) (mc_writeQueue mc) then
         rbind (pard_stats p S_servicedByWrQ (\<lambda>v. v + 1) mc) (\<lambda>mc2.
         rbind (pard_stats p S_bytesReadWrQ (\<lambda>v. v + of_nat B) mc2) (\<lambda>mc3.
         rbind (ldom_stats p L_servicedByWrQ 1 mc3) (\<lambda>mc4. Inr (served + 1, helper, mc4))))
       else
         let (helper1, mc2) =
               (if pktCount > 1 \<and> helper = None
                then (Some (length (mc_helpers mc)),
                      mc\<lparr>mc_helpers := mc_helpers mc @ [Some \<lparr>bh_burstCount = pktCount, bh_burstsServiced = 0\<rparr>]\<rparr>)
                else (helper, mc)) in
         rbind (decodeAddr now (cf_geom c) (mc_cp mc2) p a sz True) (\<lambda>dp.
         rbind (sim_assert (\<not> readQueueFull (cf_readBufferSize c) (mc_readQueue mc2) (mc_respQueue mc2) 1)) (\<lambda>_.
           let mc3 = mc2\<lparr>mc_readQueue := mc_readQueue mc2 @ [dp\<lparr>dp_burstHelper := helper1\<rparr>]\<rparr> in
         rbind (pard_stats p S_rdQLen (\<lambda>_. of_nat (length (mc_readQueue mc3) + length (mc_respQueue mc3))) mc3) (\<lambda>mc4.
           Inr (served, helper1, mc4)))))))"

fun read_loop ::
  "dram_config \<Rightarrow> tick \<Rightarrow> packet \<Rightarrow> nat \<Rightarrow> nat \<Rightarrow> addr \<Rightarrow> nat \<times> nat option \<times> dram_ctrl \<Rightarrow> (nat \<times> nat option \<times> dram_ctrl) result" where
  "read_loop c now p pktCount 0 a st = Inr st"
| "read_loop c now p pktCount (Suc n) a st =
     rbind (read_burst c now p pktCount a st) (\<lambda>st1.
       read_loop c now p pktCount n (burst_next (dg_burstSize (cf_geom c)) a) st1)"

definition set_serviced :: "nat option \<Rightarrow> nat \<Rightarrow> dram_ctrl \<Rightarrow> dram_ctrl result" where
  "set_serviced helper n mc =
     (case helper of None \<Rightarrow> Inr mc
      | Some h \<Rightarrow>
          rbind (vec_get (mc_helpers mc) h) (\<lambda>bh. case bh of None \<Rightarrow> Inl BadAccess
            | Some b \<Rightarrow> Inr (mc\<lparr>mc_helpers := (mc_helpers mc)[h := Some (b\<lparr>bh_burstsServiced := n\<rparr>)]\<rparr>)))"

definition kick_nextReq :: "tick \<Rightarrow> dram_ctrl \<Rightarrow> dram_ctrl" where
  "kick_nextReq now mc = (if mc_nextReqEvent mc = None then mc\<lparr>mc_nextReqEvent := Some now\<rparr> else mc)"

definition addToReadQueue :: "dram_config \<Rightarrow> tick \<Rightarrow> packet \<Rightarrow> nat \<Rightarrow> dram_ctrl \<Rightarrow> dram_ctrl result" where
  "addToReadQueue c now p pktCount mc =
     rbind (sim_assert (\<not> isWrite (pk_cmd p))) (\<lambda>_.
     rbind (sim_assert (pktCount \<noteq> 0)) (\<lambda>_.
     rbind (getAddr p) (\<lambda>a.
     rbind (read_loop c now p pktCount pktCount a (0, None, mc)) (\<lambda>(served, helper, mc1).
     if served = pktCount then accessAndRespond now p (cf_frontendLatency c) mc1
     else rbind (set_serviced helper served mc1) (\<lambda>mc2. Inr (kick_nextReq now mc2))))))"

section \<open>The write queue\<close>

text \<open>
  One step of the search for an entry to merge with: the changed entry, or \<open>None\<close> when the new burst cannot be
  merged with this entry.
\<close>

definition merge_entry :: "nat \<Rightarrow> addr \<Rightarrow> nat \<Rightarrow> dram_packet \<Rightarrow> dram_packet option" where
  "merge_entry burstSize a sz w =
     (let e = a + of_nat sz; we = dp_addr w + of_nat (dp_size w) in
      if dp_addr w \<ge> a then
        if e \<ge> we then Some (w\<lparr>dp_addr := a, dp_size := sz\<rparr>)
        else if e \<ge> dp_addr w \<and> we - a \<le> of_nat burstSize
        then Some (w\<lparr>dp_size := unat (ucast (we - a) :: u32), dp_addr := a\<rparr>)
        else None
      else
        if we \<ge> e then Some w
        else if we \<ge> a \<and> e - dp_addr w \<le> of_nat burstSize
        then Some (w\<lparr>dp_size := unat (ucast (e - dp_addr w) :: u32)\<rparr>)
        else None)"

fun merge_write :: "nat \<Rightarrow> addr \<Rightarrow> nat \<Rightarrow> dram_packet list \<Rightarrow> dram_packet list option" where
  "merge_write burstSize a sz [] = None"
| "merge_write burstSize a sz (w # ws) =
     (case merge_entry burstSize a sz w of
        Some w' \<Rightarrow> Some (w' # ws)
      | None \<Rightarrow> map_option ((#) w) (merge_write burstSize a sz ws))"

definition write_burst :: "dram_config \<Rightarrow> tick \<Rightarrow> packet \<Rightarrow> addr \<Rightarrow> dram_ctrl \<Rightarrow> dram_ctrl result" where
  "write_burst c now p a mc0 =
     (let B = dg_burstSize (cf_geom c); sz = burst_size B p a in
      rbind (pard_stats p S_writeBursts (\<lambda>v. v + 1) mc0) (\<lambda>mc1.
      rbind (ldom_stats p L_writeBursts 1 mc1) (\<lambda>mc.
      case merge_write B a sz (mc_writeQueue mc) of
        None \<Rightarrow>
          rbind (decodeAddr now (cf_geom c) (mc_cp mc) p a sz False) (\<lambda>dp.
          rbind (sim_assert (length (mc_writeQueue mc) < cf_writeBufferSize c)) (\<lambda>_.
            let mc2 = mc\<lparr>mc_writeQueue := mc_writeQueue mc @ [dp]\<rparr> in
            pard_stats p S_wrQLen (\<lambda>_. of_nat (length (mc_writeQueue mc2))) mc2))
      | Some ws \<Rightarrow>
          rbind (pard_stats p S_mergedWrBursts (\<lambda>v. v + 1) (mc\<lparr>mc_writeQueue := ws\<rparr>)) (\<lambda>mc2.
            ldom_stats p L_mergedWrBursts 1 mc2))))"

fun write_loop :: "dram_config \<Rightarrow> tick \<Rightarrow> packet \<Rightarrow> nat \<Rightarrow> addr \<Rightarrow> dram_ctrl \<Rightarrow> dram_ctrl result" where
  "write_loop c now p 0 a mc = Inr mc"
| "write_loop c now p (Suc n) a mc =
     rbind (write_burst c now p a mc) (\<lambda>mc1. write_loop c now p n (burst_next (dg_burstSize (cf_geom c)) a) mc1)"

definition addToWriteQueue :: "dram_config \<Rightarrow> tick \<Rightarrow> packet \<Rightarrow> nat \<Rightarrow> dram_ctrl \<Rightarrow> dram_ctrl result" where
  "addToWriteQueue c now p pktCount mc =
     rbind (sim_assert (isWrite (pk_cmd p))) (\<lambda>_.
     rbind (getAddr p) (\<lambda>a.
     rbind (write_loop c now p pktCount a mc) (\<lambda>mc1.
     rbind (accessAndRespond now p (cf_frontendLatency c) mc1) (\<lambda>mc2. Inr (kick_nextReq now mc2)))))"

section \<open>Requests\<close>

definition mc_recvTimingReq :: "dram_config \<Rightarrow> tick \<Rightarrow> packet \<Rightarrow> dram_ctrl \<Rightarrow> (bool \<times> dram_ctrl) result" where
  "mc_recvTimingReq c now p mc0 =
     (let mc = mc0\<lparr>mc_pendingDelete := []\<rparr> in
      if memInhibitAsserted p then Inr (True, mc\<lparr>mc_pendingDelete := [p]\<rparr>)
      else
        rbind (if mc_prevArrival mc \<noteq> 0
               then pard_stats p S_totGap (\<lambda>v. v + of_nat (now - mc_prevArrival mc)) mc else Inr mc) (\<lambda>mc1.
        let mc2 = mc1\<lparr>mc_prevArrival := now\<rparr> in
        rbind (getSize p) (\<lambda>sz.
        rbind (getAddr p) (\<lambda>_.
        rbind (dram_pkt_count (dg_burstSize (cf_geom c)) p) (\<lambda>count.
        if isRead (pk_cmd p) then
          rbind (sim_assert (sz \<noteq> 0)) (\<lambda>_.
          if readQueueFull (cf_readBufferSize c) (mc_readQueue mc2) (mc_respQueue mc2) count then
            rbind (pard_stats p S_numRdRetry (\<lambda>v. v + 1) (mc2\<lparr>mc_retryRdReq := True\<rparr>)) (\<lambda>mc3. Inr (False, mc3))
          else
            rbind (addToReadQueue c now p count mc2) (\<lambda>mc3.
            rbind (pard_stats p S_readReqs (\<lambda>v. v + 1) mc3) (\<lambda>mc4.
            rbind (pard_stats p S_bytesReadSys (\<lambda>v. v + of_nat sz) mc4) (\<lambda>mc5.
            rbind (ldom_stats p L_bytesReadSys sz mc5) (\<lambda>mc6. Inr (True, mc6))))))
        else if isWrite (pk_cmd p) then
          rbind (sim_assert (sz \<noteq> 0)) (\<lambda>_.
          if writeQueueFull (cf_writeBufferSize c) (mc_writeQueue mc2) count then
            rbind (pard_stats p S_numWrRetry (\<lambda>v. v + 1) (mc2\<lparr>mc_retryWrReq := True\<rparr>)) (\<lambda>mc3. Inr (False, mc3))
          else
            rbind (addToWriteQueue c now p count mc2) (\<lambda>mc3.
            rbind (pard_stats p S_writeReqs (\<lambda>v. v + 1) mc3) (\<lambda>mc4.
            rbind (pard_stats p S_bytesWrittenSys (\<lambda>v. v + of_nat sz) mc4) (\<lambda>mc5.
            rbind (ldom_stats p L_bytesWrittenSys sz mc5) (\<lambda>mc6. Inr (True, mc6))))))
        else
          rbind (pard_stats p S_neitherReadNorWrite (\<lambda>v. v + 1) mc2) (\<lambda>mc3.
          rbind (accessAndRespond now p 1 mc3) (\<lambda>mc4. Inr (True, mc4))))))))"

definition mc_recvAtomic :: "dram_config \<Rightarrow> packet \<Rightarrow> dram_ctrl \<Rightarrow> (tick \<times> packet \<times> dram_ctrl) result" where
  "mc_recvAtomic c p mc =
     rbind (me_access p (mc_mem mc)) (\<lambda>(p1, m1).
       Inr (if \<not> memInhibitAsserted p1 \<and> hasData (pk_cmd p1)
            then dt_tRP (cf_timing c) + dt_tRCD (cf_timing c) + cf_tCL c else 0,
            p1, mc\<lparr>mc_mem := m1\<rparr>))"

definition mc_recvFunctional :: "u8 list \<Rightarrow> string \<Rightarrow> packet \<Rightarrow> dram_ctrl \<Rightarrow> (packet \<times> dram_ctrl) result" where
  "mc_recvFunctional junk name p mc =
     rbind (pushLabel name p) (\<lambda>p1.
     rbind (pq_checkFunctional junk p1 (mc_port mc)) (\<lambda>(found, p2, q).
       let mc1 = mc\<lparr>mc_port := q\<rparr> in
     rbind (if found then Inr (p2, mc1)
            else rbind (functionalAccess p2 (mc_mem mc1)) (\<lambda>(p3, m1). Inr (p3, mc1\<lparr>mc_mem := m1\<rparr>))) (\<lambda>(p4, mc2).
     rbind (popLabel p4) (\<lambda>p5. Inr (p5, mc2)))))"

section \<open>Finished reads\<close>

definition sendRetry :: "dram_ctrl \<Rightarrow> dram_ctrl" where
  "sendRetry mc = mc\<lparr>mc_retries := mc_retries mc + 1\<rparr>"

definition signalDrainDone :: "dram_ctrl \<Rightarrow> dram_ctrl" where
  "signalDrainDone mc = mc\<lparr>mc_drainDone := mc_drainDone mc + 1, mc_drainManager := False\<rparr>"

definition respond_burst :: "dram_config \<Rightarrow> tick \<Rightarrow> dram_packet \<Rightarrow> dram_ctrl \<Rightarrow> dram_ctrl result" where
  "respond_burst c now dp mc =
     (let lat = cf_frontendLatency c + cf_backendLatency c in
      case dp_burstHelper dp of
        None \<Rightarrow> accessAndRespond now (dp_pkt dp) lat mc
      | Some h \<Rightarrow>
          rbind (vec_get (mc_helpers mc) h) (\<lambda>bh. case bh of None \<Rightarrow> Inl BadAccess
            | Some b \<Rightarrow>
                let b1 = b\<lparr>bh_burstsServiced := bh_burstsServiced b + 1\<rparr> in
                if bh_burstsServiced b1 = bh_burstCount b1 then
                  rbind (accessAndRespond now (dp_pkt dp) lat mc) (\<lambda>mc1.
                    Inr (mc1\<lparr>mc_helpers := (mc_helpers mc1)[h := None]\<rparr>))
                else Inr (mc\<lparr>mc_helpers := (mc_helpers mc)[h := Some b1]\<rparr>)))"

definition processRespondEvent :: "dram_config \<Rightarrow> tick \<Rightarrow> dram_ctrl \<Rightarrow> dram_ctrl result" where
  "processRespondEvent c now mc0 =
     (let mc = mc0\<lparr>mc_respondEvent := None\<rparr> in
      case mc_respQueue mc of
        [] \<Rightarrow> Inl BadAccess
      | dp # rest \<Rightarrow>
          rbind (respond_burst c now dp mc) (\<lambda>mc1.
            let mc2 = mc1\<lparr>mc_respQueue := rest\<rparr> in
          rbind (case rest of
                   r # _ \<Rightarrow>
                     rbind (sim_assert (dp_readyTime r \<ge> now)) (\<lambda>_.
                     rbind (sim_assert (mc_respondEvent mc2 = None)) (\<lambda>_.
                       Inr (mc2\<lparr>mc_respondEvent := Some (dp_readyTime r)\<rparr>)))
                 | [] \<Rightarrow>
                     Inr (if mc_writeQueue mc2 = [] \<and> mc_readQueue mc2 = [] \<and> mc_drainManager mc2
                          then signalDrainDone mc2 else mc2)) (\<lambda>mc3.
            Inr (if mc_retryRdReq mc3 then sendRetry (mc3\<lparr>mc_retryRdReq := False\<rparr>) else mc3))))"

definition mc_drain :: "tick \<Rightarrow> dram_ctrl \<Rightarrow> nat \<times> dram_ctrl" where
  "mc_drain now mc =
     (let (count, q) = pq_drain (mc_port mc); mc1 = mc\<lparr>mc_port := q\<rparr> in
      if \<not> (mc_writeQueue mc1 = [] \<and> mc_readQueue mc1 = [] \<and> mc_respQueue mc1 = []) then
        let mc2 = mc1\<lparr>mc_drainManager := True\<rparr> in
        (count + 1, if mc_writeQueue mc2 \<noteq> [] then kick_nextReq now mc2 else mc2)
      else (count, mc1))"

end
