(* ===== verification/Dram_Bursts.thy ===== *)
theory Dram_Bursts
  imports Dram_Queues
begin

text \<open>
  Correctness of the request side of the memory controller (\<^verbatim>\<open>mem/dram_ctrl.cc\<close>): a packet is split into
  bursts that partition its bytes, the write queue holds exactly the bytes written to it, and a read burst is
  either forwarded from the write queue or queued.
\<close>

unbundle bit_operations_syntax

section \<open>Burst arithmetic\<close>

lemma or_mask_unat:
  fixes a :: "'a::len word"
  assumes "k < LENGTH('a)"
  shows "unat (a OR (of_nat (2 ^ k) - 1)) = unat a div 2 ^ k * 2 ^ k + (2 ^ k - 1)"
proof -
  let ?h = "push_bit k (drop_bit k a)"
  have "?h AND mask k = 0" by (rule bit_word_eqI) (auto simp: bit_simps)
  then have "?h + mask k = ?h OR mask k" by (rule disjunctive_add_eq_or)
  moreover have "?h OR mask k = a OR mask k" by (rule bit_word_eqI) (auto simp: bit_simps)
  ultimately have "a OR mask k = ?h + mask k" by simp
  moreover have "of_nat (2 ^ k) - 1 = (mask k :: 'a word)" by (simp add: mask_eq_exp_minus_1)
  moreover have h: "unat ?h = unat a div 2 ^ k * 2 ^ k"
  proof -
    have "unat ?h = unat a div 2 ^ k * 2 ^ k mod 2 ^ LENGTH('a)"
      by (simp add: push_bit_eq_mult unat_word_ariths unat_drop_bit unat_power_lower assms)
    moreover have "unat a div 2 ^ k * 2 ^ k \<le> unat a" by simp
    moreover have "unat a < 2 ^ LENGTH('a)" by simp
    ultimately show ?thesis by (metis le_less_trans mod_less)
  qed
  moreover have m: "unat (mask k :: 'a word) = 2 ^ k - 1"
  proof -
    have "unat ((2 :: 'a word) ^ k - 1) = unat ((2 :: 'a word) ^ k) - unat (1 :: 'a word)"
      using assms by (intro unat_minus_le) (simp add: word_le_nat_alt unat_power_lower)
    then show ?thesis using assms by (simp add: mask_eq_exp_minus_1 unat_power_lower)
  qed
  moreover have "unat (?h + mask k) = unat ?h + unat (mask k :: 'a word)"
  proof (rule unat_add_lt)
    have "unat a div 2 ^ k < 2 ^ (LENGTH('a) - k)"
      using assms by (intro less_mult_imp_div_less) (simp flip: power_add)
    then have "(unat a div 2 ^ k + 1) * 2 ^ k \<le> 2 ^ (LENGTH('a) - k) * 2 ^ k"
      by (intro mult_le_mono1) simp
    also have "\<dots> = 2 ^ LENGTH('a)" using assms by (simp flip: power_add)
    finally have "unat a div 2 ^ k * 2 ^ k + 2 ^ k \<le> 2 ^ LENGTH('a)" by simp
    moreover have "0 < (2 :: nat) ^ k" by simp
    ultimately show "unat ?h + unat (mask k :: 'a word) < 2 ^ LENGTH('a)" unfolding h m by linarith
  qed
  ultimately show ?thesis by simp
qed

text \<open>A burst size the address arithmetic works for, and a packet that stays clear of the end of the address space.\<close>

definition burst_ok :: "nat \<Rightarrow> bool" where
  "burst_ok B = (\<exists>k < 31. B = 2 ^ k)"

definition clear_of_end :: "nat \<Rightarrow> packet \<Rightarrow> bool" where
  "clear_of_end B p = (0 < pk_size p \<and> pk_size p < 2 ^ 30 \<and> unat (pk_addr p) + pk_size p + B \<le> 2 ^ 64)"

definition pkt_end :: "packet \<Rightarrow> nat" where
  "pkt_end p = unat (pk_addr p) + pk_size p"

lemma upt_split: "i \<le> j \<Longrightarrow> j \<le> k \<Longrightarrow> [i..<j] @ [j..<k] = [i..<k]"
  by (metis le_add_diff_inverse upt_add_eq_append)

lemma burst_ok_bounds:
  assumes "burst_ok B"
  shows "0 < B" "B \<le> 2 ^ 30"
proof -
  obtain k where k: "k < 31" "B = 2 ^ k" using assms by (auto simp: burst_ok_def)
  then show "0 < B" "B \<le> 2 ^ 30" using power_increasing [of k 30 "2 :: nat"] by simp_all
qed

lemma div_step:
  assumes "0 < (B :: nat)"
  shows "n < (n div B + 1) * B" "(n div B + 1) * B \<le> n + B"
proof -
  have "(n div B + 1) * B = n div B * B + B" "n = n div B * B + n mod B" "n mod B < B" using assms by simp_all
  then show "n < (n div B + 1) * B" "(n div B + 1) * B \<le> n + B" by linarith+
qed

lemma burst_next_unat:
  assumes "burst_ok B" "unat a + B < 2 ^ 64"
  shows "unat (burst_next B a) = (unat a div B + 1) * B"
proof -
  obtain k where k: "k < 31" "B = 2 ^ k" using assms(1) by (auto simp: burst_ok_def)
  have o: "unat (a OR (of_nat B - 1)) = unat a div B * B + (B - 1)"
    using or_mask_unat [of k a] k by simp
  have "unat a div B * B \<le> unat a" by (rule div_times_less_eq_dividend)
  moreover have "0 < B" using k by simp
  ultimately have "unat a div B * B + (B - 1) + 1 < 2 ^ 64" using assms(2) by linarith
  then have "unat (a OR (of_nat B - 1)) + unat (1 :: addr) < 2 ^ LENGTH(64)"
    unfolding o by simp
  from unat_add_lt [OF this] o \<open>0 < B\<close> show ?thesis by (simp add: burst_next_def)
qed

lemma pkt_end_word:
  assumes "clear_of_end B p" "0 < B"
  shows "unat (pk_addr p + of_nat (pk_size p)) = pkt_end p"
proof -
  have "unat (of_nat (pk_size p) :: addr) = pk_size p"
    using assms(1) by (intro unat_of_nat_lt) (simp add: clear_of_end_def)
  with assms show ?thesis
    by (subst unat_add_lt) (auto simp: clear_of_end_def pkt_end_def)
qed

lemma burst_size_eq:
  assumes "burst_ok B" "clear_of_end B p" "unat a < pkt_end p"
  shows "burst_size B p a = min ((unat a div B + 1) * B) (pkt_end p) - unat a"
proof -
  note B = burst_ok_bounds [OF assms(1)]
  have nx: "unat (burst_next B a) = (unat a div B + 1) * B"
    using assms B by (intro burst_next_unat) (auto simp: clear_of_end_def pkt_end_def)
  let ?m = "min (burst_next B a) (pk_addr p + of_nat (pk_size p))"
  have m: "unat ?m = min ((unat a div B + 1) * B) (pkt_end p)"
    using nx pkt_end_word [OF assms(2) B(1)] by (auto simp: min_def word_le_nat_alt)
  have ab: "unat a < (unat a div B + 1) * B" "(unat a div B + 1) * B \<le> unat a + B"
    using div_step [OF B(1)] by blast+
  then have le: "unat a \<le> unat ?m" "unat ?m \<le> unat a + B"
    unfolding m using assms(3) by (simp_all only: min.bounded_iff min.coboundedI1 less_imp_le)
  then have d: "unat (?m - a) = unat ?m - unat a" by (simp add: unat_minus_le word_le_nat_alt)
  then have "unat (?m - a) < 2 ^ 32" using le B(2) by simp
  then have "unat (ucast (?m - a) :: u32) = unat (?m - a)" by (simp add: unsigned_ucast_eq take_bit_nat_eq_self)
  then show ?thesis unfolding burst_size_def d m .
qed

text \<open>The bursts of a packet: the addresses and sizes the two loops go through.\<close>

fun bursts :: "nat \<Rightarrow> packet \<Rightarrow> nat \<Rightarrow> addr \<Rightarrow> (addr \<times> nat) list" where
  "bursts B p 0 a = []"
| "bursts B p (Suc n) a = (a, burst_size B p a) # bursts B p n (burst_next B a)"

definition byte_range :: "addr \<times> nat \<Rightarrow> nat list" where
  "byte_range = (\<lambda>(a, sz). [unat a..<unat a + sz])"

definition burst_wf :: "nat \<Rightarrow> addr \<times> nat \<Rightarrow> bool" where
  "burst_wf B = (\<lambda>(a, sz). 0 < sz \<and> unat a div B = (unat a + sz - 1) div B)"

lemma bursts_partition:
  assumes "burst_ok B" "clear_of_end B p" "unat a < pkt_end p"
    and "n = (pkt_end p - 1) div B - unat a div B + 1"
  shows "concat (map byte_range (bursts B p n a)) = [unat a..<pkt_end p] \<and> list_all (burst_wf B) (bursts B p n a)"
  using assms(3,4)
proof (induction n arbitrary: a)
  case (Suc n)
  have B: "0 < B" using assms(1) by (auto simp: burst_ok_def)
  have nx: "unat (burst_next B a) = (unat a div B + 1) * B"
    using assms(1,2) Suc.prems(1) B by (intro burst_next_unat) (auto simp: clear_of_end_def pkt_end_def)
  have sz: "burst_size B p a = min ((unat a div B + 1) * B) (pkt_end p) - unat a"
    by (rule burst_size_eq [OF assms(1,2) Suc.prems(1)])
  have ab: "unat a < (unat a div B + 1) * B" by (rule div_step(1) [OF B])
  have wf: "burst_wf B (a, burst_size B p a)"
  proof -
    let ?x = "min ((unat a div B + 1) * B) (pkt_end p) - 1"
    have "unat a \<le> ?x" "?x < (unat a div B + 1) * B" using ab Suc.prems(1) by linarith+
    then have "unat a div B \<le> ?x div B" "?x div B < unat a div B + 1"
      by (simp_all only: div_le_mono less_mult_imp_div_less)
    then have "?x div B = unat a div B" by linarith
    moreover have "0 < burst_size B p a" "unat a + burst_size B p a - 1 = ?x"
      unfolding sz using ab Suc.prems(1) by linarith+
    ultimately show ?thesis by (simp add: burst_wf_def)
  qed
  show ?case
  proof (cases "(unat a div B + 1) * B < pkt_end p")
    case True
    have "unat (burst_next B a) div B = unat a div B + 1" using nx B by simp
    moreover have "unat a div B + 1 \<le> (pkt_end p - 1) div B"
      using True B by (simp add: less_eq_div_iff_mult_less_eq)
    ultimately have "n = (pkt_end p - 1) div B - unat (burst_next B a) div B + 1" using Suc.prems(2) by simp
    from Suc.IH [OF _ this] True nx have
      "concat (map byte_range (bursts B p n (burst_next B a))) = [(unat a div B + 1) * B..<pkt_end p]"
      "list_all (burst_wf B) (bursts B p n (burst_next B a))" by simp_all
    moreover have "unat a + burst_size B p a = (unat a div B + 1) * B" unfolding sz using True ab by linarith
    moreover have "[unat a..<(unat a div B + 1) * B] @ [(unat a div B + 1) * B..<pkt_end p] = [unat a..<pkt_end p]"
      using True ab upt_split [of "unat a" "(unat a div B + 1) * B" "pkt_end p"] by simp
    ultimately show ?thesis using wf by (simp add: byte_range_def)
  next
    case False
    then have "pkt_end p - 1 < (unat a div B + 1) * B" using Suc.prems(1) by linarith
    then have "(pkt_end p - 1) div B < unat a div B + 1" by (rule less_mult_imp_div_less)
    then have "n = 0" using Suc.prems(2) by simp
    moreover have "unat a + burst_size B p a = pkt_end p" unfolding sz using False Suc.prems(1) by linarith
    ultimately show ?thesis using wf by (simp add: byte_range_def)
  qed
qed simp

lemma dram_pkt_count_eq:
  assumes "burst_ok B" "clear_of_end B p"
  shows "dram_pkt_count B p = Inr ((pkt_end p - 1) div B - unat (pk_addr p) div B + 1)"
proof -
  obtain k where k: "k < 31" "B = 2 ^ k" using assms(1) by (auto simp: burst_ok_def)
  note B = burst_ok_bounds [OF assms(1)]
  let ?o = "unat (pk_addr p) mod B" and ?n = "pk_size p"
  have n: "0 < ?n" "?n < 2 ^ 30" using assms(2) by (auto simp: clear_of_end_def)
  have o: "?o < B" using B by simp
  have msk: "pk_addr p AND (of_nat B - 1) = take_bit k (pk_addr p)"
    using k by (simp add: take_bit_eq_mask mask_eq_exp_minus_1)
  have uo: "unat (ucast (pk_addr p AND (of_nat B - 1)) :: u32) = ?o"
  proof -
    have "?o < 2 ^ 32" using o B(2) by simp
    then have "take_bit 32 ?o = ?o" by (rule take_bit_nat_eq_self)
    with msk k(2) show ?thesis
      by (simp add: unsigned_ucast_eq unat_take_bit)
  qed
  have ub: "unat (of_nat B :: u32) = B" "unat (of_nat ?n :: u32) = ?n"
    using B n by (auto intro!: unat_of_nat_lt)
  have "(2 :: nat) ^ 30 + 2 ^ 30 + 2 ^ 30 < 2 ^ 32" by simp
  then have bnd: "?o + ?n < 2 ^ 32" "?o + ?n + B < 2 ^ 32" using o B(2) n(2) by linarith+
  let ?s = "ucast (pk_addr p AND (of_nat B - 1)) + of_nat ?n + of_nat B - 1 :: u32"
  have s1: "unat (ucast (pk_addr p AND (of_nat B - 1)) + of_nat ?n :: u32) = ?o + ?n"
    using uo ub bnd by (subst unat_add_lt) simp_all
  have s: "unat ?s = ?o + ?n + B - 1"
  proof -
    have "unat (ucast (pk_addr p AND (of_nat B - 1)) + of_nat ?n + of_nat B :: u32) = ?o + ?n + B"
      using s1 ub bnd by (subst unat_add_lt) simp_all
    then show ?thesis using B(1) by (subst unat_minus_le) (auto simp: word_le_nat_alt)
  qed
  have "(?o + ?n + B - 1) div B = (?o + ?n - 1) div B + 1"
    using n(1) B(1) div_add_self2 [of B "?o + ?n - 1"] by simp
  moreover have "(pkt_end p - 1) div B = unat (pk_addr p) div B + (?o + ?n - 1) div B"
  proof -
    have "pkt_end p - 1 = (?o + ?n - 1) + unat (pk_addr p) div B * B"
      using n(1) div_mult_mod_eq [of "unat (pk_addr p)" B] by (simp add: pkt_end_def)
    then show ?thesis using B(1) div_mult_self1 [of B "?o + ?n - 1" "unat (pk_addr p) div B"] by simp
  qed
  moreover have "(of_nat B :: u32) \<noteq> 0" using ub(1) B(1) by auto
  ultimately show ?thesis using s ub by (simp add: dram_pkt_count_def Let_def unat_div)
qed

section \<open>Merging writes\<close>

text \<open>The bytes an entry of the write queue stands for, and the entries the merging keeps well formed.\<close>

definition dp_bytes :: "dram_packet \<Rightarrow> nat set" where
  "dp_bytes w = {unat (dp_addr w)..<unat (dp_addr w) + dp_size w}"

definition write_wf :: "nat \<Rightarrow> dram_packet \<Rightarrow> bool" where
  "write_wf B w = (0 < dp_size w \<and> dp_size w \<le> B \<and> unat (dp_addr w) + dp_size w + B \<le> 2 ^ 64)"

definition write_covered :: "dram_packet list \<Rightarrow> nat set" where
  "write_covered ws = (\<Union>w \<in> set ws. dp_bytes w)"

text \<open>Two entries that differ in address and size only.\<close>

definition same_target :: "dram_packet \<Rightarrow> dram_packet \<Rightarrow> bool" where
  "same_target w w' = (\<exists>a n. w' = w\<lparr>dp_addr := a, dp_size := n\<rparr>)"

lemma same_target_simps [simp]:
  "same_target w w" "same_target w (w\<lparr>dp_addr := a, dp_size := n\<rparr>)" "same_target w (w\<lparr>dp_size := n, dp_addr := a\<rparr>)"
  "same_target w (w\<lparr>dp_size := n\<rparr>)"
proof -
  have "w = w\<lparr>dp_addr := dp_addr w, dp_size := dp_size w\<rparr>" "w\<lparr>dp_size := n\<rparr> = w\<lparr>dp_addr := dp_addr w, dp_size := n\<rparr>"
    "w\<lparr>dp_size := n, dp_addr := a\<rparr> = w\<lparr>dp_addr := a, dp_size := n\<rparr>" by simp_all
  then show "same_target w w" "same_target w (w\<lparr>dp_addr := a, dp_size := n\<rparr>)" "same_target w (w\<lparr>dp_size := n, dp_addr := a\<rparr>)"
    "same_target w (w\<lparr>dp_size := n\<rparr>)" unfolding same_target_def by blast+
qed

lemma unat_end:
  assumes "0 < B" "n \<le> B" "unat (a :: addr) + n + B \<le> 2 ^ 64"
  shows "unat (a + of_nat n) = unat a + n"
proof -
  have "unat (of_nat n :: addr) = n" using assms by (intro unat_of_nat_lt) simp
  with assms show ?thesis by (subst unat_add_lt) simp_all
qed

lemma unat_u32_diff:
  assumes "x \<le> (y :: addr)" "unat y - unat x \<le> B" "B \<le> 2 ^ 30"
  shows "unat (ucast (y - x) :: u32) = unat y - unat x"
proof -
  have "unat (y - x) = unat y - unat x" using assms(1) by (rule unat_minus_le)
  moreover have "unat y - unat x < 2 ^ 32" using assms(2,3) by simp
  ultimately show ?thesis by (simp add: unsigned_ucast_eq take_bit_nat_eq_self)
qed

lemma merge_entry_cases:
  assumes "burst_ok B" "write_wf B w" "0 < sz" "sz \<le> B" "unat a + sz + B \<le> 2 ^ 64"
    and "merge_entry B a sz w = Some w'"
  shows "write_wf B w' \<and> same_target w w' \<and> dp_bytes w' = dp_bytes w \<union> {unat a..<unat a + sz}"
proof -
  note B = burst_ok_bounds [OF assms(1)]
  have e: "unat (a + of_nat sz) = unat a + sz" using assms B by (intro unat_end) auto
  have we: "unat (dp_addr w + of_nat (dp_size w)) = unat (dp_addr w) + dp_size w"
    using assms(2) B by (intro unat_end) (auto simp: write_wf_def)
  have ub: "unat (of_nat B :: addr) = B" using B by (intro unat_of_nat_lt) simp
  note uu = e we ub word_le_nat_alt
  let ?we = "dp_addr w + of_nat (dp_size w)" and ?e = "a + of_nat sz"
  have d1: "unat (ucast (?we - a) :: u32) = unat ?we - unat a" "unat ?we - unat a \<le> B"
    if "a \<le> dp_addr w" "?we - a \<le> of_nat B"
  proof -
    have le: "a \<le> ?we" using that(1) we by (simp add: word_le_nat_alt)
    show "unat ?we - unat a \<le> B" using that(2) unat_minus_le [OF le] ub by (simp add: word_le_nat_alt)
    then show "unat (ucast (?we - a) :: u32) = unat ?we - unat a" using unat_u32_diff [OF le _ B(2)] by simp
  qed
  have d2: "unat (ucast (?e - dp_addr w) :: u32) = unat ?e - unat (dp_addr w)" "unat ?e - unat (dp_addr w) \<le> B"
    if "dp_addr w < a" "?e - dp_addr w \<le> of_nat B"
  proof -
    have le: "dp_addr w \<le> ?e" using that(1) e by (simp add: word_le_nat_alt word_less_nat_alt)
    show "unat ?e - unat (dp_addr w) \<le> B" using that(2) unat_minus_le [OF le] ub by (simp add: word_le_nat_alt)
    then show "unat (ucast (?e - dp_addr w) :: u32) = unat ?e - unat (dp_addr w)" using unat_u32_diff [OF le _ B(2)] by simp
  qed
  note wf = write_wf_def dp_bytes_def
  show ?thesis
  proof (cases "a \<le> dp_addr w")
    case ge: True
    show ?thesis
    proof (cases "?we \<le> ?e")
      case True
      then have "w' = w\<lparr>dp_addr := a, dp_size := sz\<rparr>" using assms(6) ge by (simp add: merge_entry_def Let_def)
      moreover have "unat ?we \<le> unat ?e" "unat a \<le> unat (dp_addr w)" using True ge by (simp_all add: word_le_nat_alt)
      ultimately show ?thesis using assms(2-5) e we by (auto simp: wf)
    next
      case False
      then have m: "dp_addr w \<le> ?e" "?we - a \<le> of_nat B" "w' = w\<lparr>dp_size := unat (ucast (?we - a) :: u32), dp_addr := a\<rparr>"
        using assms(6) ge by (simp_all add: merge_entry_def Let_def split: if_splits)
      have "unat ?e < unat ?we" "unat a \<le> unat (dp_addr w)" "unat (dp_addr w) \<le> unat ?e"
        using False ge m(1) by (simp_all add: word_le_nat_alt)
      with m(3) d1 [OF ge m(2)] show ?thesis using assms(2-5) e we by (auto simp: wf)
    qed
  next
    case lt: False
    then have lt': "dp_addr w < a" by simp
    show ?thesis
    proof (cases "?e \<le> ?we")
      case True
      then have "w' = w" using assms(6) lt by (simp add: merge_entry_def Let_def)
      moreover have "unat ?e \<le> unat ?we" "unat (dp_addr w) < unat a" using True lt' by (simp_all add: word_le_nat_alt word_less_nat_alt)
      ultimately show ?thesis using assms(2-5) e we by (auto simp: wf)
    next
      case False
      then have m: "a \<le> ?we" "?e - dp_addr w \<le> of_nat B" "w' = w\<lparr>dp_size := unat (ucast (?e - dp_addr w) :: u32)\<rparr>"
        using assms(6) lt by (simp_all add: merge_entry_def Let_def split: if_splits)
      have "unat ?we < unat ?e" "unat (dp_addr w) < unat a" "unat a \<le> unat ?we"
        using False lt' m(1) by (simp_all add: word_le_nat_alt word_less_nat_alt)
      with m(3) d2 [OF lt' m(2)] show ?thesis using assms(2-5) e we by (auto simp: wf)
    qed
  qed
qed

lemma write_covered_simps [simp]:
  "write_covered [] = {}" "write_covered (w # ws) = dp_bytes w \<union> write_covered ws"
  "write_covered (xs @ ys) = write_covered xs \<union> write_covered ys"
  by (auto simp: write_covered_def)

lemma merge_write_cases:
  assumes "burst_ok B" "0 < sz" "sz \<le> B" "unat a + sz + B \<le> 2 ^ 64"
    and "list_all (write_wf B) ws" "merge_write B a sz ws = Some ws'"
  shows "list_all (write_wf B) ws' \<and> list_all2 same_target ws ws' \<and>
    write_covered ws' = write_covered ws \<union> {unat a..<unat a + sz}"
  using assms(5,6)
proof (induction ws arbitrary: ws')
  case (Cons w ws)
  have r: "list_all2 same_target xs xs" for xs
    by (rule list_all2_refl) simp
  show ?case
  proof (cases "merge_entry B a sz w")
    case None
    then obtain z where "merge_write B a sz ws = Some z" "ws' = w # z" using Cons.prems(2) by auto
    with Cons.IH [of z] Cons.prems(1) show ?thesis by auto
  next
    case (Some w')
    then show ?thesis using Cons.prems merge_entry_cases [OF assms(1) _ assms(2-4) Some] r
      by auto
  qed
qed simp

text \<open>A read that is answered from the write queue asks only for bytes of one entry.\<close>

lemma in_write_entry_bytes:
  assumes "burst_ok B" "write_wf B w" "sz \<le> B" "unat a + sz + B \<le> 2 ^ 64"
  shows "in_write_entry a sz w \<longleftrightarrow> unat (dp_addr w) \<le> unat a \<and> unat a + sz \<le> unat (dp_addr w) + dp_size w"
proof -
  note B = burst_ok_bounds [OF assms(1)]
  have "unat (a + of_nat sz) = unat a + sz" using assms B by (intro unat_end) auto
  moreover have "unat (dp_addr w + of_nat (dp_size w)) = unat (dp_addr w) + dp_size w"
    using assms(2) B by (intro unat_end) (auto simp: write_wf_def)
  ultimately show ?thesis by (simp add: in_write_entry_def word_le_nat_alt)
qed

text \<open>
  Merging compares lengths, not the bursts of the two entries: a write at the end of one burst and one at the
  start of the next become a single entry that crosses the boundary and keeps the bank of the entry merged into.
\<close>

lemma merge_crosses_burst:
  assumes "dp_addr w = 64" "dp_size w = 32"
  shows "merge_entry 64 32 32 w = Some (w\<lparr>dp_size := 64, dp_addr := 32\<rparr>)"
    "\<not> burst_wf 64 (32, 64)"
  using assms by (simp_all add: merge_entry_def burst_wf_def)

section \<open>Bursts of a packet\<close>

definition burst_safe :: "nat \<Rightarrow> addr \<times> nat \<Rightarrow> bool" where
  "burst_safe B = (\<lambda>(a, sz). 0 < sz \<and> sz \<le> B \<and> unat a + sz + B \<le> 2 ^ 64)"

lemma burst_wf_size: "0 < B \<Longrightarrow> burst_wf B (a, sz) \<Longrightarrow> sz \<le> B"
proof -
  assume B: "0 < B" and wf: "burst_wf B (a, sz)"
  have "unat a div B * B \<le> unat a" by (rule div_times_less_eq_dividend)
  moreover have "unat a + sz - 1 < ((unat a + sz - 1) div B + 1) * B" by (rule div_step(1) [OF B])
  moreover have "((unat a + sz - 1) div B + 1) * B = unat a div B * B + B" using wf by (simp add: burst_wf_def)
  moreover have "0 < sz" using wf by (simp add: burst_wf_def)
  ultimately show "sz \<le> B" by linarith
qed

definition bursts_of :: "nat \<Rightarrow> packet \<Rightarrow> (addr \<times> nat) list" where
  "bursts_of B p = bursts B p ((pkt_end p - 1) div B - unat (pk_addr p) div B + 1) (pk_addr p)"

lemma bursts_of_ok:
  assumes "burst_ok B" "clear_of_end B p"
  shows "concat (map byte_range (bursts_of B p)) = [unat (pk_addr p)..<pkt_end p]"
    "list_all (burst_wf B) (bursts_of B p)" "list_all (burst_safe B) (bursts_of B p)"
    "dram_pkt_count B p = Inr (length (bursts_of B p))"
    "bursts_of B p = bursts B p (length (bursts_of B p)) (pk_addr p)"
proof -
  have lt: "unat (pk_addr p) < pkt_end p" using assms(2) by (simp add: clear_of_end_def pkt_end_def)
  note part = bursts_partition [OF assms lt refl, folded bursts_of_def]
  then show c: "concat (map byte_range (bursts_of B p)) = [unat (pk_addr p)..<pkt_end p]"
    and w: "list_all (burst_wf B) (bursts_of B p)" by simp_all
  show "list_all (burst_safe B) (bursts_of B p)"
    unfolding list_all_iff
  proof (clarify)
    fix a sz assume m: "(a, sz) \<in> set (bursts_of B p)"
    have wf: "burst_wf B (a, sz)" using w m by (auto simp: list_all_iff)
    then have "unat a + sz - 1 \<in> set (concat (map byte_range (bursts_of B p)))"
      using m by (auto simp: byte_range_def burst_wf_def intro!: bexI [OF _ m])
    then have "unat a + sz - 1 < pkt_end p" unfolding c by simp
    moreover have "0 < sz" "sz \<le> B" "pkt_end p + B \<le> 2 ^ 64"
      using wf burst_wf_size [OF burst_ok_bounds(1) [OF assms(1)] wf] assms(2)
      by (simp_all add: burst_wf_def clear_of_end_def pkt_end_def)
    ultimately have "unat a + sz + B \<le> 2 ^ 64" by linarith
    with \<open>0 < sz\<close> \<open>sz \<le> B\<close> show "burst_safe B (a, sz)" by (simp add: burst_safe_def)
  qed
  have "length (bursts B p n a) = n" for n a by (induction n arbitrary: a) auto
  then show "dram_pkt_count B p = Inr (length (bursts_of B p))"
    "bursts_of B p = bursts B p (length (bursts_of B p)) (pk_addr p)"
    using dram_pkt_count_eq [OF assms] by (simp_all add: bursts_of_def)
qed

section \<open>Statistics\<close>

definition cp_ok :: "dram_cp \<Rightarrow> bool" where
  "cp_ok r = (dram_cp_wf r \<and> stats_wf (dc_stats r) \<and> st_max_metrics (dc_stats r) = length DRAMCtrlStats \<and>
              st_stats (dc_stats r) \<noteq> [])"

definition ldom_ok :: "(ldom_stat \<Rightarrow> nat list) \<Rightarrow> bool" where
  "ldom_ok v = (\<forall>s. length (v s) = 4)"

text \<open>Two controllers that differ in statistics only.\<close>

definition stats_only :: "dram_ctrl \<Rightarrow> dram_ctrl \<Rightarrow> bool" where
  "stats_only mc mc' =
     (\<exists>r v. mc' = mc\<lparr>mc_cp := r, mc_perLDom := v\<rparr> \<and> dc_params r = dc_params (mc_cp mc) \<and> cp_ok r \<and> ldom_ok v)"

definition counters_ok :: "dram_ctrl \<Rightarrow> bool" where
  "counters_ok mc = (cp_ok (mc_cp mc) \<and> ldom_ok (mc_perLDom mc))"

lemma stats_only_refl: "counters_ok mc \<Longrightarrow> stats_only mc mc"
  unfolding stats_only_def counters_ok_def
  by (intro exI [of _ "mc_cp mc"] exI [of _ "mc_perLDom mc"]) simp

lemma stats_only_trans: "stats_only mc mc1 \<Longrightarrow> stats_only mc1 mc2 \<Longrightarrow> stats_only mc mc2"
  unfolding stats_only_def by fastforce

lemma stats_onlyD:
  assumes "stats_only mc mc'"
  shows "counters_ok mc'" "dc_params (mc_cp mc') = dc_params (mc_cp mc)" "mc_writeQueue mc' = mc_writeQueue mc"
    "mc_readQueue mc' = mc_readQueue mc" "mc_respQueue mc' = mc_respQueue mc" "mc_helpers mc' = mc_helpers mc"
    "mc_dram mc' = mc_dram mc" "mc_mem mc' = mc_mem mc" "mc_port mc' = mc_port mc"
    "mc_nextReqEvent mc' = mc_nextReqEvent mc" "mc_respondEvent mc' = mc_respondEvent mc"
    "mc_busBusyUntil mc' = mc_busBusyUntil mc" "mc_busState mc' = mc_busState mc"
  using assms by (auto simp: stats_only_def counters_ok_def)

lemma stats_only_update:
  assumes "stats_only mc mc'"
  shows "stats_only (mc\<lparr>mc_writeQueue := ws\<rparr>) (mc'\<lparr>mc_writeQueue := ws\<rparr>)"
    "stats_only (mc\<lparr>mc_readQueue := rs\<rparr>) (mc'\<lparr>mc_readQueue := rs\<rparr>)"
    "stats_only (mc\<lparr>mc_helpers := hs\<rparr>) (mc'\<lparr>mc_helpers := hs\<rparr>)"
proof -
  obtain r v where "mc' = mc\<lparr>mc_cp := r, mc_perLDom := v\<rparr>" "dc_params r = dc_params (mc_cp mc)" "cp_ok r" "ldom_ok v"
    using assms unfolding stats_only_def by blast
  then show "stats_only (mc\<lparr>mc_writeQueue := ws\<rparr>) (mc'\<lparr>mc_writeQueue := ws\<rparr>)"
    "stats_only (mc\<lparr>mc_readQueue := rs\<rparr>) (mc'\<lparr>mc_readQueue := rs\<rparr>)"
    "stats_only (mc\<lparr>mc_helpers := hs\<rparr>) (mc'\<lparr>mc_helpers := hs\<rparr>)"
    unfolding stats_only_def by (intro exI [of _ r] exI [of _ v]; simp)+
qed

lemma index_of_stat: "index_of DRAMCtrlStats s < length DRAMCtrlStats"
  by (cases s) (simp_all add: DRAMCtrlStats_def)

lemma pard_stat_upd_ok:
  assumes "cp_ok r"
  shows "\<exists>r'. pard_stat_upd d s f r = Inr r' \<and> cp_ok r' \<and> dc_params r' = dc_params r"
proof -
  let ?t = "dc_stats r"
  obtain i where i: "getStatsPtr ?t d = Inr i" "i < length (st_stats ?t)"
    using assms by (auto simp: getStatsPtr_def cp_ok_def Let_def)
  have "length (st_stats ?t ! i) = length DRAMCtrlStats"
    using assms i(2) by (auto simp: cp_ok_def stats_wf_def list_all_length)
  with i assms index_of_stat [of s] show ?thesis
    by (auto simp: pard_stat_upd_def cp_ok_def dram_cp_wf_def stats_wf_def intro!: list_all_update)
qed

lemma pard_stats_ok:
  assumes "counters_ok mc" "getQosTag p = Inr tag"
  shows "\<exists>mc'. pard_stats p s f mc = Inr mc' \<and> stats_only mc mc'"
proof -
  obtain r where r: "pard_stat_upd (QOSTAG_TO_LDOMID tag) s f (mc_cp mc) = Inr r" "cp_ok r" "dc_params r = dc_params (mc_cp mc)"
    using pard_stat_upd_ok assms(1) unfolding counters_ok_def by blast
  have "stats_only mc (mc\<lparr>mc_cp := r\<rparr>)"
    using r(2,3) assms(1) unfolding stats_only_def counters_ok_def
    by (intro exI [of _ r] exI [of _ "mc_perLDom mc"]) simp
  moreover have "flag_isSet p VALID_QOSTAG" using assms(2) by (auto simp: getQosTag_def rbind_assert split: if_splits)
  ultimately show ?thesis using r(1) assms(2) by (simp add: pard_stats_def)
qed

lemma ldom_add_ok:
  assumes "counters_ok mc" "unat (QOSTAG_TO_LDOMID tag) < 4"
  shows "\<exists>mc'. ldom_add tag s n mc = Inr mc' \<and> stats_only mc mc'"
proof -
  let ?v = "(mc_perLDom mc)(s := (mc_perLDom mc s)[unat (QOSTAG_TO_LDOMID tag) := mc_perLDom mc s ! unat (QOSTAG_TO_LDOMID tag) + n])"
  have "stats_only mc (mc\<lparr>mc_perLDom := ?v\<rparr>)"
    using assms(1) unfolding stats_only_def counters_ok_def
    by (intro exI [of _ "mc_cp mc"] exI [of _ ?v]) (auto simp: ldom_ok_def)
  with assms show ?thesis by (simp add: ldom_add_def stat_add_def rbind_assert counters_ok_def ldom_ok_def)
qed

lemma ldom_stats_ok:
  assumes "counters_ok mc" "getQosTag p = Inr tag" "unat (QOSTAG_TO_LDOMID tag) < 4"
  shows "\<exists>mc'. ldom_stats p s n mc = Inr mc' \<and> stats_only mc mc'"
  using ldom_add_ok [OF assms(1,3)] assms(2) by (simp add: ldom_stats_def)

text \<open>
  The vectors per domain have four entries although the parameter table has thirty-two rows: a packet of domain
  four or above fails the index assertion.
\<close>

lemma ldom_stats_bounded:
  assumes "ldom_ok (mc_perLDom mc)" "getQosTag p = Inr tag" "4 \<le> unat (QOSTAG_TO_LDOMID tag)"
  shows "ldom_stats p s n mc = Inl AssertFail"
  using assms by (simp add: ldom_stats_def ldom_add_def stat_add_def rbind_assert ldom_ok_def)

section \<open>Accepted requests\<close>

text \<open>
  A packet whose tag names one of the four domains with statistics and whose row-buffer mask selects a
  buffer; and a queued burst with coordinates inside the device.
\<close>

definition tag_ok :: "dram_cp \<Rightarrow> packet \<Rightarrow> bool" where
  "tag_ok r p =
     (\<exists>tag m rb. getQosTag p = Inr tag \<and> unat (QOSTAG_TO_LDOMID tag) < 4 \<and>
        rowbuf_mask r (QOSTAG_TO_LDOMID tag) = Inr m \<and> select_rowbuf m = Inr rb)"

definition dp_wf :: "dram_config \<Rightarrow> dram_packet \<Rightarrow> bool" where
  "dp_wf c dp =
     (unat (dp_rank dp) < dg_ranksPerChannel (cf_geom c) \<and> unat (dp_bank dp) < dg_banksPerRank (cf_geom c) \<and>
      dp_rowbuf dp < ROW_BUFFER_COUNT \<and> unat (QOSTAG_TO_LDOMID (dp_qosTag dp)) < 4)"

lemma tag_ok_params: "dc_params r = dc_params r' \<Longrightarrow> tag_ok r p = tag_ok r' p"
  by (simp add: tag_ok_def rowbuf_mask_def)

lemma select_rowbuf_bound: "select_rowbuf m = Inr rb \<Longrightarrow> rb < ROW_BUFFER_COUNT"
  by (auto simp: select_rowbuf_def find_upt_Some split: option.splits)

lemma decodeAddr_total:
  assumes "geometry_wf (cf_geom c)" "tag_ok r p"
  shows "\<exists>dp. decodeAddr now (cf_geom c) r p a sz rd = Inr dp \<and> dp_wf c dp \<and> dp_addr dp = a \<and> dp_size dp = sz \<and>
    dp_isRead dp = rd \<and> dp_pkt dp = p \<and> dp_entryTime dp = now \<and> dp_readyTime dp = now"
proof -
  obtain tag m rb where t: "getQosTag p = Inr tag" "unat (QOSTAG_TO_LDOMID tag) < 4"
    "rowbuf_mask r (QOSTAG_TO_LDOMID tag) = Inr m" "select_rowbuf m = Inr rb"
    using assms(2) by (auto simp: tag_ok_def)
  then have "unat (QOSTAG_TO_LDOMID tag) < NUM_PARAM_ROWS" by (simp add: NUM_PARAM_ROWS_def)
  from decodeAddr_ok [OF assms(1) t(1) this t(3,4), of now a sz rd] t(2) select_rowbuf_bound [OF t(4)]
  show ?thesis by (auto simp: dp_wf_def)
qed

lemma dp_wf_same_target: "same_target w w' \<Longrightarrow> dp_wf c w' = dp_wf c w"
  by (auto simp: same_target_def dp_wf_def)

lemma list_all2_dp_wf: "list_all2 same_target ws ws' \<Longrightarrow> list_all (dp_wf c) ws \<Longrightarrow> list_all (dp_wf c) ws'"
  by (induction rule: list_all2_induct) (auto simp: dp_wf_same_target)

text \<open>What both queues rely on.\<close>

definition config_ok :: "dram_config \<Rightarrow> bool" where
  "config_ok c = (geometry_wf (cf_geom c) \<and> burst_ok (dg_burstSize (cf_geom c)))"

abbreviation burstSize :: "dram_config \<Rightarrow> nat" where
  "burstSize c \<equiv> dg_burstSize (cf_geom c)"

definition writes_ok :: "dram_config \<Rightarrow> dram_packet list \<Rightarrow> bool" where
  "writes_ok c ws = (list_all (write_wf (burstSize c)) ws \<and> list_all (dp_wf c) ws)"

lemma write_burst_ok:
  assumes "config_ok c" "counters_ok mc" "tag_ok (mc_cp mc) p" "writes_ok c (mc_writeQueue mc)"
    and "burst_safe (burstSize c) (a, burst_size (burstSize c) p a)" "length (mc_writeQueue mc) < cf_writeBufferSize c"
  shows "\<exists>ws mc'. write_burst c now p a mc = Inr mc' \<and> stats_only (mc\<lparr>mc_writeQueue := ws\<rparr>) mc' \<and> writes_ok c ws \<and>
    length ws \<le> length (mc_writeQueue mc) + 1 \<and> ws \<noteq> [] \<and>
    write_covered ws = write_covered (mc_writeQueue mc) \<union> set (byte_range (a, burst_size (burstSize c) p a))"
proof -
  let ?B = "burstSize c" and ?sz = "burst_size (burstSize c) p a"
  obtain tag where t: "getQosTag p = Inr tag" "unat (QOSTAG_TO_LDOMID tag) < 4" using assms(3) by (auto simp: tag_ok_def)
  have cfg: "geometry_wf (cf_geom c)" "burst_ok ?B" using assms(1) by (simp_all add: config_ok_def)
  have sz: "0 < ?sz" "?sz \<le> ?B" "unat a + ?sz + ?B \<le> 2 ^ 64" using assms(5) by (simp_all add: burst_safe_def)
  obtain mc1 where 1: "pard_stats p S_writeBursts (\<lambda>v. v + 1) mc = Inr mc1" "stats_only mc mc1"
    using pard_stats_ok [OF assms(2) t(1)] by blast
  obtain mc2 where 2: "ldom_stats p L_writeBursts 1 mc1 = Inr mc2" "stats_only mc1 mc2"
    using ldom_stats_ok [OF stats_onlyD(1) [OF 1(2)] t] by blast
  note s2 = stats_only_trans [OF 1(2) 2(2)]
  have q2: "mc_writeQueue mc2 = mc_writeQueue mc" using stats_onlyD(3) [OF s2] .
  show ?thesis
  proof (cases "merge_write ?B a ?sz (mc_writeQueue mc)")
    case None
    obtain dp where dp: "decodeAddr now (cf_geom c) (mc_cp mc2) p a ?sz False = Inr dp" "dp_wf c dp" "dp_addr dp = a" "dp_size dp = ?sz"
      using decodeAddr_total [OF cfg(1)] tag_ok_params [OF stats_onlyD(2) [OF s2]] assms(3) by blast
    let ?ws = "mc_writeQueue mc @ [dp]"
    have u: "stats_only (mc\<lparr>mc_writeQueue := ?ws\<rparr>) (mc2\<lparr>mc_writeQueue := ?ws\<rparr>)" by (rule stats_only_update(1) [OF s2])
    obtain mc3 where 3: "pard_stats p S_wrQLen (\<lambda>_. of_nat (length ?ws)) (mc2\<lparr>mc_writeQueue := ?ws\<rparr>) = Inr mc3"
      "stats_only (mc2\<lparr>mc_writeQueue := ?ws\<rparr>) mc3"
      using pard_stats_ok [OF stats_onlyD(1) [OF u] t(1)] by blast
    have "writes_ok c ?ws" using assms(4) dp sz by (auto simp: writes_ok_def write_wf_def)
    moreover have "write_burst c now p a mc = Inr mc3"
      using 1(1) 2(1) None dp(1) q2 assms(6) 3(1) by (simp add: write_burst_def Let_def rbind_assert)
    moreover have "write_covered ?ws = write_covered (mc_writeQueue mc) \<union> set (byte_range (a, ?sz))"
      using dp by (simp add: dp_bytes_def byte_range_def)
    ultimately show ?thesis using stats_only_trans [OF u 3(2)] by (intro exI [of _ ?ws] exI [of _ mc3]) simp
  next
    case (Some ws)
    note m = merge_write_cases [OF cfg(2) sz _ Some]
    have u: "stats_only (mc\<lparr>mc_writeQueue := ws\<rparr>) (mc2\<lparr>mc_writeQueue := ws\<rparr>)" by (rule stats_only_update(1) [OF s2])
    obtain mc3 where 3: "pard_stats p S_mergedWrBursts (\<lambda>v. v + 1) (mc2\<lparr>mc_writeQueue := ws\<rparr>) = Inr mc3"
      "stats_only (mc2\<lparr>mc_writeQueue := ws\<rparr>) mc3"
      using pard_stats_ok [OF stats_onlyD(1) [OF u] t(1)] by blast
    obtain mc4 where 4: "ldom_stats p L_mergedWrBursts 1 mc3 = Inr mc4" "stats_only mc3 mc4"
      using ldom_stats_ok [OF stats_onlyD(1) [OF 3(2)] t] by blast
    have "write_burst c now p a mc = Inr mc4"
      using 1(1) 2(1) Some q2 3(1) 4(1) by (simp add: write_burst_def Let_def)
    moreover have "ws \<noteq> []" using Some by (cases "mc_writeQueue mc") (auto split: option.splits)
    moreover have "writes_ok c ws" "length ws = length (mc_writeQueue mc)"
      using m assms(4) list_all2_dp_wf [of "mc_writeQueue mc" ws c] by (auto simp: writes_ok_def dest: list_all2_lengthD)
    moreover have "write_covered ws = write_covered (mc_writeQueue mc) \<union> set (byte_range (a, ?sz))"
      using m assms(4) by (simp add: byte_range_def writes_ok_def)
    ultimately show ?thesis using stats_only_trans [OF stats_only_trans [OF u 3(2)] 4(2)]
      by (intro exI [of _ ws] exI [of _ mc4]) simp
  qed
qed

lemma write_loop_ok:
  assumes "config_ok c" "counters_ok mc" "tag_ok (mc_cp mc) p" "writes_ok c (mc_writeQueue mc)"
    and "list_all (burst_safe (burstSize c)) (bursts (burstSize c) p n a)" "length (mc_writeQueue mc) + n \<le> cf_writeBufferSize c"
  shows "\<exists>ws mc'. write_loop c now p n a mc = Inr mc' \<and> stats_only (mc\<lparr>mc_writeQueue := ws\<rparr>) mc' \<and> writes_ok c ws \<and>
    length ws \<le> length (mc_writeQueue mc) + n \<and> (0 < n \<longrightarrow> ws \<noteq> []) \<and>
    write_covered ws = write_covered (mc_writeQueue mc) \<union> set (concat (map byte_range (bursts (burstSize c) p n a)))"
  using assms(2-6)
proof (induction n arbitrary: a mc)
  case 0
  then show ?case by (intro exI [of _ "mc_writeQueue mc"] exI [of _ mc]) (simp add: stats_only_refl)
next
  case (Suc n)
  let ?B = "burstSize c"
  obtain ws mc1 where 1: "write_burst c now p a mc = Inr mc1" "stats_only (mc\<lparr>mc_writeQueue := ws\<rparr>) mc1" "writes_ok c ws"
    "length ws \<le> length (mc_writeQueue mc) + 1" "ws \<noteq> []"
    "write_covered ws = write_covered (mc_writeQueue mc) \<union> set (byte_range (a, burst_size ?B p a))"
    using write_burst_ok [OF assms(1) Suc.prems(1-3), where a = a and now = now] Suc.prems(4,5) by auto
  note d = stats_onlyD [OF 1(2)]
  have q1: "mc_writeQueue mc1 = ws" using d(3) by simp
  obtain ws' mc2 where 2: "write_loop c now p n (burst_next ?B a) mc1 = Inr mc2" "stats_only (mc1\<lparr>mc_writeQueue := ws'\<rparr>) mc2"
    "writes_ok c ws'" "length ws' \<le> length ws + n" "0 < n \<longrightarrow> ws' \<noteq> []"
    "write_covered ws' = write_covered ws \<union> set (concat (map byte_range (bursts ?B p n (burst_next ?B a))))"
    using Suc.IH [OF d(1), of "burst_next ?B a"] tag_ok_params [of "mc_cp mc1" "mc_cp mc"] d(2) q1 1(3,4) Suc.prems(2,4,5) by auto
  have ne: "ws' \<noteq> []"
  proof (cases n)
    case 0
    then have "mc2 = mc1" using 2(1) by simp
    then show ?thesis using stats_onlyD(3) [OF 2(2)] q1 1(5) by auto
  qed (use 2(5) in simp)
  have "stats_only (mc\<lparr>mc_writeQueue := ws'\<rparr>) (mc1\<lparr>mc_writeQueue := ws'\<rparr>)"
    using stats_only_update(1) [OF 1(2), of ws'] by simp
  from stats_only_trans [OF this 2(2)] 1 2 ne show ?case by (intro exI [of _ ws'] exI [of _ mc2]) auto
qed

section \<open>Queueing reads\<close>

definition helper_after :: "nat \<Rightarrow> nat option \<Rightarrow> burst_helper option list \<Rightarrow> nat option" where
  "helper_after cnt helper hs = (if cnt > 1 \<and> helper = None then Some (length hs) else helper)"

definition helpers_after :: "nat \<Rightarrow> nat option \<Rightarrow> burst_helper option list \<Rightarrow> burst_helper option list" where
  "helpers_after cnt helper hs =
     (if cnt > 1 \<and> helper = None then hs @ [Some \<lparr>bh_burstCount = cnt, bh_burstsServiced = 0\<rparr>] else hs)"

definition read_of :: "dram_config \<Rightarrow> tick \<Rightarrow> packet \<Rightarrow> nat option \<Rightarrow> dram_packet \<Rightarrow> bool" where
  "read_of c now p helper dp =
     (dp_wf c dp \<and> dp_pkt dp = p \<and> dp_isRead dp \<and> dp_burstHelper dp = helper \<and> dp_entryTime dp = now)"

lemma read_burst_forwarded:
  assumes "counters_ok mc" "tag_ok (mc_cp mc) p"
    and "list_ex (in_write_entry a (burst_size (burstSize c) p a)) (mc_writeQueue mc)"
  shows "\<exists>mc'. read_burst c now p cnt a (served, helper, mc) = Inr (served + 1, helper, mc') \<and> stats_only mc mc'"
proof -
  obtain tag where t: "getQosTag p = Inr tag" "unat (QOSTAG_TO_LDOMID tag) < 4" using assms(2) by (auto simp: tag_ok_def)
  obtain mc1 where 1: "pard_stats p S_readBursts (\<lambda>v. v + 1) mc = Inr mc1" "stats_only mc mc1"
    using pard_stats_ok [OF assms(1) t(1)] by blast
  obtain mc2 where 2: "ldom_stats p L_readBursts 1 mc1 = Inr mc2" "stats_only mc1 mc2"
    using ldom_stats_ok [OF stats_onlyD(1) [OF 1(2)] t] by blast
  obtain mc3 where 3: "pard_stats p S_servicedByWrQ (\<lambda>v. v + 1) mc2 = Inr mc3" "stats_only mc2 mc3"
    using pard_stats_ok [OF stats_onlyD(1) [OF 2(2)] t(1)] by blast
  obtain mc4 where 4: "pard_stats p S_bytesReadWrQ (\<lambda>v. v + of_nat (burstSize c)) mc3 = Inr mc4" "stats_only mc3 mc4"
    using pard_stats_ok [OF stats_onlyD(1) [OF 3(2)] t(1)] by blast
  obtain mc5 where 5: "ldom_stats p L_servicedByWrQ 1 mc4 = Inr mc5" "stats_only mc4 mc5"
    using ldom_stats_ok [OF stats_onlyD(1) [OF 4(2)] t] by blast
  note s = stats_only_trans [OF 1(2) 2(2)]
  have "mc_writeQueue mc2 = mc_writeQueue mc" using stats_onlyD(3) [OF s] .
  then have "read_burst c now p cnt a (served, helper, mc) = Inr (served + 1, helper, mc5)"
    using 1(1) 2(1) 3(1) 4(1) 5(1) assms(3) by (simp add: read_burst_def Let_def)
  moreover have "stats_only mc mc5" using s 3(2) 4(2) 5(2) by (meson stats_only_trans)
  ultimately show ?thesis by blast
qed

lemma read_burst_queued:
  assumes "config_ok c" "counters_ok mc" "tag_ok (mc_cp mc) p"
    and "\<not> list_ex (in_write_entry a (burst_size (burstSize c) p a)) (mc_writeQueue mc)"
    and "length (mc_readQueue mc) + length (mc_respQueue mc) < cf_readBufferSize c"
  shows "\<exists>dp mc'. read_burst c now p cnt a (served, helper, mc) = Inr (served, helper_after cnt helper (mc_helpers mc), mc') \<and>
    stats_only (mc\<lparr>mc_helpers := helpers_after cnt helper (mc_helpers mc), mc_readQueue := mc_readQueue mc @ [dp]\<rparr>) mc' \<and>
    read_of c now p (helper_after cnt helper (mc_helpers mc)) dp \<and> dp_addr dp = a \<and> dp_size dp = burst_size (burstSize c) p a"
proof -
  let ?sz = "burst_size (burstSize c) p a"
  let ?h = "helper_after cnt helper (mc_helpers mc)" and ?hs = "helpers_after cnt helper (mc_helpers mc)"
  obtain tag where t: "getQosTag p = Inr tag" "unat (QOSTAG_TO_LDOMID tag) < 4" using assms(3) by (auto simp: tag_ok_def)
  obtain mc1 where 1: "pard_stats p S_readBursts (\<lambda>v. v + 1) mc = Inr mc1" "stats_only mc mc1"
    using pard_stats_ok [OF assms(2) t(1)] by blast
  obtain mc2 where 2: "ldom_stats p L_readBursts 1 mc1 = Inr mc2" "stats_only mc1 mc2"
    using ldom_stats_ok [OF stats_onlyD(1) [OF 1(2)] t] by blast
  note s = stats_only_trans [OF 1(2) 2(2)]
  note d = stats_onlyD [OF s]
  obtain dp0 where dp0: "decodeAddr now (cf_geom c) (mc_cp mc2) p a ?sz True = Inr dp0" "dp_wf c dp0" "dp_addr dp0 = a"
    "dp_size dp0 = ?sz" "dp_isRead dp0" "dp_pkt dp0 = p" "dp_entryTime dp0 = now"
    using decodeAddr_total [of c "mc_cp mc2" p now a ?sz True] tag_ok_params [OF d(2)] assms(1,3) by (auto simp: config_ok_def)
  let ?dp = "dp0\<lparr>dp_burstHelper := ?h\<rparr>"
  let ?mc3 = "mc2\<lparr>mc_helpers := ?hs, mc_readQueue := mc_readQueue mc @ [?dp]\<rparr>"
  have u: "stats_only (mc\<lparr>mc_helpers := ?hs, mc_readQueue := mc_readQueue mc @ [?dp]\<rparr>) ?mc3"
    using stats_only_update(2) [OF stats_only_update(3) [OF s]] .
  obtain mc4 where 4: "pard_stats p S_rdQLen (\<lambda>_. of_nat (length (mc_readQueue ?mc3) + length (mc_respQueue ?mc3))) ?mc3 = Inr mc4"
    "stats_only ?mc3 mc4"
    using pard_stats_ok [OF stats_onlyD(1) [OF u] t(1)] by blast
  have "mc2\<lparr>mc_helpers := mc_helpers mc\<rparr> = mc2" using d(6) by (metis dram_ctrl.surjective dram_ctrl.update_convs(8))
  then have e: "(if cnt > 1 \<and> helper = None
      then (Some (length (mc_helpers mc2)), mc2\<lparr>mc_helpers := mc_helpers mc2 @ [Some \<lparr>bh_burstCount = cnt, bh_burstsServiced = 0\<rparr>]\<rparr>)
      else (helper, mc2)) = (?h, mc2\<lparr>mc_helpers := ?hs\<rparr>)"
    using d(6) by (auto simp: helper_after_def helpers_after_def)
  have "read_burst c now p cnt a (served, helper, mc) = Inr (served, ?h, mc4)"
    using 1(1) 2(1) dp0(1) 4(1) assms(4,5) d e by (simp add: read_burst_def rbind_assert readQueueFull_def Let_def del: of_nat_add of_nat_Suc)
  moreover have "read_of c now p ?h ?dp" using dp0 by (simp add: read_of_def dp_wf_def)
  ultimately show ?thesis using stats_only_trans [OF u 4(2)] dp0(3,4)
    by (intro exI [of _ ?dp] exI [of _ mc4]) simp
qed

text \<open>The bursts of a packet that the write queue cannot answer.\<close>

definition unforwarded :: "dram_packet list \<Rightarrow> (addr \<times> nat) list \<Rightarrow> (addr \<times> nat) list" where
  "unforwarded ws = filter (\<lambda>(a, sz). \<not> list_ex (in_write_entry a sz) ws)"

lemma read_loop_ok:
  fixes a :: addr and helper :: "nat option" and cnt :: nat
  assumes "config_ok c" "counters_ok mc" "tag_ok (mc_cp mc) p"
    and "length (mc_readQueue mc) + length (mc_respQueue mc) + n \<le> cf_readBufferSize c"
  defines "todo \<equiv> unforwarded (mc_writeQueue mc) (bursts (burstSize c) p n a)"
  defines "h \<equiv> (if todo = [] then helper else helper_after cnt helper (mc_helpers mc))"
  defines "hs \<equiv> (if todo = [] then mc_helpers mc else helpers_after cnt helper (mc_helpers mc))"
  shows "\<exists>dps mc'. read_loop c now p cnt n a (served, helper, mc) = Inr (served + (n - length todo), h, mc') \<and>
    length todo \<le> n \<and> stats_only (mc\<lparr>mc_helpers := hs, mc_readQueue := mc_readQueue mc @ dps\<rparr>) mc' \<and>
    map (\<lambda>dp. (dp_addr dp, dp_size dp)) dps = todo \<and> list_all (read_of c now p h) dps"
  using assms(2-4) unfolding todo_def h_def hs_def
proof (induction n arbitrary: a mc served helper)
  case 0
  then show ?case
    by (intro exI [of _ "[]"] exI [of _ mc]) (simp add: stats_only_refl unforwarded_def)
next
  case (Suc n)
  let ?B = "burstSize c" and ?sz = "burst_size (burstSize c) p a"
  let ?rest = "unforwarded (mc_writeQueue mc) (bursts ?B p n (burst_next ?B a))"
  show ?case
  proof (cases "list_ex (in_write_entry a ?sz) (mc_writeQueue mc)")
    case True
    obtain mc1 where 1: "read_burst c now p cnt a (served, helper, mc) = Inr (served + 1, helper, mc1)" "stats_only mc mc1"
      using read_burst_forwarded [OF Suc.prems(1,2) True] by blast
    note d = stats_onlyD [OF 1(2)]
    have tk: "tag_ok (mc_cp mc1) p" using tag_ok_params [OF d(2)] Suc.prems(2) by simp
    have ln: "length (mc_readQueue mc1) + length (mc_respQueue mc1) + n \<le> cf_readBufferSize c" using d(4,5) Suc.prems(3) by simp
    obtain dps mc2 where 2: "read_loop c now p cnt n (burst_next ?B a) (served + 1, helper, mc1) =
        Inr (served + 1 + (n - length ?rest), if ?rest = [] then helper else helper_after cnt helper (mc_helpers mc), mc2)"
      "length ?rest \<le> n"
      "stats_only (mc1\<lparr>mc_helpers := if ?rest = [] then mc_helpers mc else helpers_after cnt helper (mc_helpers mc),
          mc_readQueue := mc_readQueue mc @ dps\<rparr>) mc2"
      "map (\<lambda>dp. (dp_addr dp, dp_size dp)) dps = ?rest"
      "list_all (read_of c now p (if ?rest = [] then helper else helper_after cnt helper (mc_helpers mc))) dps"
      using Suc.IH [OF d(1) tk ln, where served = "served + 1" and helper = helper and a = "burst_next ?B a"] unfolding d(3-6) by blast
    have "stats_only (mc\<lparr>mc_helpers := hs, mc_readQueue := rs\<rparr>) (mc1\<lparr>mc_helpers := hs, mc_readQueue := rs\<rparr>)" for hs rs
      using stats_only_update(2) [OF stats_only_update(3) [OF 1(2)]] .
    note s = stats_only_trans [OF this 2(3)]
    have t: "unforwarded (mc_writeQueue mc) (bursts ?B p (Suc n) a) = ?rest" using True by (simp add: unforwarded_def)
    show ?thesis unfolding t using 1(1) 2 s by (intro exI [of _ dps] exI [of _ mc2]) (simp add: Suc_diff_le)
  next
    case False
    let ?h = "helper_after cnt helper (mc_helpers mc)" and ?hs = "helpers_after cnt helper (mc_helpers mc)"
    obtain dp mc1 where 1: "read_burst c now p cnt a (served, helper, mc) = Inr (served, ?h, mc1)"
      "stats_only (mc\<lparr>mc_helpers := ?hs, mc_readQueue := mc_readQueue mc @ [dp]\<rparr>) mc1"
      "read_of c now p ?h dp" "dp_addr dp = a" "dp_size dp = ?sz"
      using read_burst_queued [OF assms(1) Suc.prems(1,2) False] Suc.prems(3) by fastforce
    note d = stats_onlyD [OF 1(2)]
    have ha: "helper_after cnt ?h ?hs = ?h" "helpers_after cnt ?h ?hs = ?hs"
      by (auto simp: helper_after_def helpers_after_def)
    have m1: "mc_helpers mc1 = ?hs" "mc_readQueue mc1 = mc_readQueue mc @ [dp]" "mc_writeQueue mc1 = mc_writeQueue mc"
      using d by simp_all
    have tk: "tag_ok (mc_cp mc1) p" using tag_ok_params [of "mc_cp mc1" "mc_cp mc"] d(2) Suc.prems(2) by simp
    have ln: "length (mc_readQueue mc1) + length (mc_respQueue mc1) + n \<le> cf_readBufferSize c" using m1 d(5) Suc.prems(3) by simp
    obtain dps mc2 where 2: "read_loop c now p cnt n (burst_next ?B a) (served, ?h, mc1) = Inr (served + (n - length ?rest), ?h, mc2)"
      "length ?rest \<le> n" "stats_only (mc1\<lparr>mc_helpers := ?hs, mc_readQueue := mc_readQueue mc1 @ dps\<rparr>) mc2"
      "map (\<lambda>dp. (dp_addr dp, dp_size dp)) dps = ?rest" "list_all (read_of c now p ?h) dps"
      using Suc.IH [OF d(1) tk ln, where served = served and helper = ?h and a = "burst_next ?B a"] unfolding m1(1,3) ha if_cancel by blast
    have "stats_only (mc\<lparr>mc_helpers := ?hs, mc_readQueue := mc_readQueue mc @ dp # dps\<rparr>)
        (mc1\<lparr>mc_helpers := ?hs, mc_readQueue := mc_readQueue mc1 @ dps\<rparr>)"
      using stats_only_update(2) [OF stats_only_update(3) [OF 1(2)], of "mc_readQueue mc @ dp # dps" ?hs] m1 by simp
    note s = stats_only_trans [OF this 2(3)]
    have t: "unforwarded (mc_writeQueue mc) (bursts ?B p (Suc n) a) = (a, ?sz) # ?rest" using False by (simp add: unforwarded_def)
    show ?thesis unfolding t using 1 2 s by (intro exI [of _ "dp # dps"] exI [of _ mc2]) simp
  qed
qed

end
