(* ===== verification/Dram_Answers.thy ===== *)
theory Dram_Answers
  imports Dram_Bursts
begin

text \<open>
  The invariant of the queues of the memory controller (\<^verbatim>\<open>mem/dram_ctrl.cc\<close>): the helper of a split read counts
  its bursts that are still queued, responses leave in the order of their ready times, and every accepted read is
  answered exactly once. \<^verbatim>\<open>recvTimingReq\<close> and \<^verbatim>\<open>processRespondEvent\<close> succeed under the invariant and keep it.
\<close>

section \<open>Burst helpers\<close>

text \<open>
  Every helper counts the bursts of its packet that are still queued, its packet is the same in all of them,
  and no burst points to a deleted helper.
\<close>

definition helper_refs :: "nat \<Rightarrow> dram_packet list \<Rightarrow> nat" where
  "helper_refs h q = length (filter (\<lambda>dp. dp_burstHelper dp = Some h) q)"

definition shared_packets :: "dram_packet list \<Rightarrow> bool" where
  "shared_packets q = (\<forall>dp \<in> set q. \<forall>dp' \<in> set q. \<forall>h. dp_burstHelper dp = Some h \<longrightarrow> dp_burstHelper dp' = Some h \<longrightarrow> dp_pkt dp = dp_pkt dp')"

definition helpers_ok :: "burst_helper option list \<Rightarrow> dram_packet list \<Rightarrow> bool" where
  "helpers_ok hs q =
     ((\<forall>h < length hs. \<forall>b. hs ! h = Some b \<longrightarrow> 0 < helper_refs h q \<and> bh_burstsServiced b + helper_refs h q = bh_burstCount b) \<and>
      (\<forall>dp \<in> set q. \<forall>h. dp_burstHelper dp = Some h \<longrightarrow> h < length hs \<and> hs ! h \<noteq> None) \<and>
      shared_packets q)"

text \<open>The reads that have been accepted and not answered.\<close>

definition outstanding :: "burst_helper option list \<Rightarrow> dram_packet list \<Rightarrow> nat" where
  "outstanding hs q = length (filter (\<lambda>b. b \<noteq> None) hs) + length (filter (\<lambda>dp. dp_burstHelper dp = None) q)"

lemma helper_refs_simps [simp]:
  "helper_refs h [] = 0" "helper_refs h (dp # q) = of_bool (dp_burstHelper dp = Some h) + helper_refs h q"
  "helper_refs h (q @ q') = helper_refs h q + helper_refs h q'"
  by (simp_all add: helper_refs_def)

lemma helper_refs_none: "\<forall>dp \<in> set q. dp_burstHelper dp \<noteq> Some h \<Longrightarrow> helper_refs h q = 0"
  by (simp add: helper_refs_def)

lemma helper_refs_all: "\<forall>dp \<in> set q. dp_burstHelper dp = Some h \<Longrightarrow> helper_refs h q = length q"
  by (simp add: helper_refs_def)

lemma helper_refs_pos: "0 < helper_refs h q \<longleftrightarrow> (\<exists>dp \<in> set q. dp_burstHelper dp = Some h)"
  by (simp add: helper_refs_def filter_empty_conv)

lemma shared_packetsD:
  "shared_packets q \<Longrightarrow> x \<in> set q \<Longrightarrow> y \<in> set q \<Longrightarrow> dp_burstHelper x = Some h \<Longrightarrow> dp_burstHelper y = Some h \<Longrightarrow>
   dp_pkt x = dp_pkt y"
  unfolding shared_packets_def by blast

lemma shared_packets_subset: "shared_packets q \<Longrightarrow> set q' \<subseteq> set q \<Longrightarrow> shared_packets q'"
  unfolding shared_packets_def by blast

lemma shared_packets_plain:
  "shared_packets q \<Longrightarrow> \<forall>dp \<in> set dps. dp_burstHelper dp = None \<Longrightarrow> shared_packets (dps @ q)"
  unfolding shared_packets_def by (metis Un_iff option.distinct(1) set_append)

lemma shared_packets_new:
  assumes "shared_packets q" "\<forall>dp \<in> set dps. dp_burstHelper dp = Some k \<and> dp_pkt dp = p"
    and "\<forall>dp \<in> set q. dp_burstHelper dp \<noteq> Some k"
  shows "shared_packets (dps @ q)"
  unfolding shared_packets_def using assms shared_packetsD [OF assms(1)] by (metis Un_iff option.inject set_append)

lemma helpers_ok_mset: "mset q = mset q' \<Longrightarrow> helpers_ok hs q = helpers_ok hs q'"
proof -
  assume m: "mset q = mset q'"
  then have s: "set q = set q'" by (metis set_mset_mset)
  have "helper_refs h q = helper_refs h q'" for h
    using m unfolding helper_refs_def by (metis mset_filter size_mset)
  then show ?thesis by (simp add: helpers_ok_def shared_packets_def s)
qed

text \<open>Adding the bursts of a packet without a helper, and of a split packet with a new helper.\<close>

lemma helpers_ok_plain:
  assumes "helpers_ok hs q" "\<forall>dp \<in> set dps. dp_burstHelper dp = None"
  shows "helpers_ok hs (dps @ q)"
proof -
  have "helper_refs h dps = 0" for h using assms(2) by (intro helper_refs_none) auto
  then show ?thesis using assms shared_packets_plain [of q dps] by (auto simp: helpers_ok_def)
qed

lemma helpers_ok_split:
  assumes "helpers_ok hs q" "dps \<noteq> []" "\<forall>dp \<in> set dps. dp_burstHelper dp = Some (length hs) \<and> dp_pkt dp = p"
    and "bh_burstsServiced b + length dps = bh_burstCount b"
  shows "helpers_ok (hs @ [Some b]) (dps @ q)"
proof -
  have r: "helper_refs (length hs) dps = length dps" using assms(3) by (intro helper_refs_all) blast
  have o: "dp_burstHelper dp \<noteq> Some (length hs)" if "dp \<in> set q" for dp
    using that assms(1) unfolding helpers_ok_def by blast
  have q: "helper_refs (length hs) q = 0" using o by (intro helper_refs_none) blast
  show ?thesis unfolding helpers_ok_def
  proof (intro conjI allI impI ballI)
    fix h b' assume h: "h < length (hs @ [Some b])" "(hs @ [Some b]) ! h = Some b'"
    have "0 < helper_refs h (dps @ q) \<and> bh_burstsServiced b' + helper_refs h (dps @ q) = bh_burstCount b'"
    proof (cases "h = length hs")
      case True then show ?thesis using h r q assms(2,4) by simp
    next
      case False
      then have "h < length hs" "hs ! h = Some b'" using h by (simp_all add: nth_append)
      moreover have "helper_refs h dps = 0" using assms(3) False by (intro helper_refs_none) simp
      ultimately show ?thesis using assms(1) by (simp add: helpers_ok_def)
    qed
    then show "0 < helper_refs h (dps @ q)" "bh_burstsServiced b' + helper_refs h (dps @ q) = bh_burstCount b'" by blast+
  next
    fix dp h assume h: "dp \<in> set (dps @ q)" "dp_burstHelper dp = Some h"
    show "h < length (hs @ [Some b])" "(hs @ [Some b]) ! h \<noteq> None"
      using h assms(1,3) by (auto simp: helpers_ok_def nth_append less_Suc_eq)
  next
    show "shared_packets (dps @ q)" using assms(1,3) o shared_packets_new [of q dps "length hs" p] by (auto simp: helpers_ok_def)
  qed
qed

text \<open>Serving one burst.\<close>

lemma helpers_ok_serve_plain:
  assumes "helpers_ok hs (dp # q)" "dp_burstHelper dp = None"
  shows "helpers_ok hs q"
  using assms shared_packets_subset [of "dp # q" q] by (auto simp: helpers_ok_def)

lemma helpers_okD:
  assumes "helpers_ok hs q"
  shows "h < length hs \<Longrightarrow> hs ! h = Some b \<Longrightarrow> 0 < helper_refs h q \<and> bh_burstsServiced b + helper_refs h q = bh_burstCount b"
    and "dp \<in> set q \<Longrightarrow> dp_burstHelper dp = Some h \<Longrightarrow> h < length hs \<and> hs ! h \<noteq> None"
    and "shared_packets q"
  using assms unfolding helpers_ok_def by blast+

text \<open>The helper after one more of its bursts is served: gone when no burst is left.\<close>

definition served_once :: "nat \<Rightarrow> burst_helper \<Rightarrow> burst_helper option" where
  "served_once left b = (if left = 0 then None else Some (b\<lparr>bh_burstsServiced := bh_burstsServiced b + 1\<rparr>))"

lemma helpers_ok_serve:
  assumes ok: "helpers_ok hs (dp # q)" and h: "dp_burstHelper dp = Some h"
  shows "\<exists>b. h < length hs \<and> hs ! h = Some b \<and>
    (bh_burstsServiced b + 1 = bh_burstCount b \<longleftrightarrow> helper_refs h q = 0) \<and>
    helpers_ok (hs[h := served_once (helper_refs h q) b]) q"
proof -
  have l: "h < length hs" "hs ! h \<noteq> None" using helpers_okD(2) [OF ok _ h] by simp_all
  then obtain b where b: "hs ! h = Some b" by blast
  have c: "bh_burstsServiced b + 1 + helper_refs h q = bh_burstCount b" using helpers_okD(1) [OF ok l(1) b] h by simp
  have "helpers_ok (hs[h := served_once (helper_refs h q) b]) q" unfolding helpers_ok_def
  proof (intro conjI allI impI ballI)
    fix k b' assume "k < length (hs[h := served_once (helper_refs h q) b])" and e: "hs[h := served_once (helper_refs h q) b] ! k = Some b'"
    then have k: "k < length hs" by simp
    have "0 < helper_refs k q \<and> bh_burstsServiced b' + helper_refs k q = bh_burstCount b'"
    proof (cases "k = h")
      case True
      then have "served_once (helper_refs h q) b = Some b'" using e l(1) by simp
      then have "0 < helper_refs h q" "b' = b\<lparr>bh_burstsServiced := bh_burstsServiced b + 1\<rparr>"
        by (simp_all add: served_once_def split: if_splits)
      then show ?thesis using True c by simp
    next
      case False
      then have "hs ! k = Some b'" using e by simp
      then show ?thesis using helpers_okD(1) [OF ok k] False h by simp
    qed
    then show "0 < helper_refs k q" "bh_burstsServiced b' + helper_refs k q = bh_burstCount b'" by blast+
  next
    fix x k assume x: "x \<in> set q" "dp_burstHelper x = Some k"
    then have k: "k < length hs" "hs ! k \<noteq> None" using helpers_okD(2) [OF ok, of x k] by simp_all
    show "k < length (hs[h := served_once (helper_refs h q) b])" using k by simp
    have "0 < helper_refs k q" using x helper_refs_pos by blast
    then show "hs[h := served_once (helper_refs h q) b] ! k \<noteq> None"
      using k l(1) by (cases "k = h") (simp_all add: served_once_def)
  next
    show "shared_packets q" using helpers_okD(3) [OF ok] by (rule shared_packets_subset) auto
  qed
  moreover have "bh_burstsServiced b + 1 = bh_burstCount b \<longleftrightarrow> helper_refs h q = 0" using c by linarith
  ultimately show ?thesis using l(1) b by (intro exI [of _ b] conjI)
qed

lemma outstanding_simps:
  "outstanding hs (dps @ q) = outstanding hs q + length (filter (\<lambda>dp. dp_burstHelper dp = None) dps)"
  "outstanding (hs @ [Some b]) q = outstanding hs q + 1"
  by (simp_all add: outstanding_def)

lemma outstanding_update:
  assumes "h < length hs" "hs ! h = Some b"
  shows "outstanding (hs[h := None]) q + 1 = outstanding hs q" "outstanding (hs[h := Some b']) q = outstanding hs q"
  using assms length_filter_update [of h hs "\<lambda>b. b \<noteq> None" None] length_filter_update [of h hs "\<lambda>b. b \<noteq> None" "Some b'"]
  by (simp_all add: outstanding_def)

lemma outstanding_mset: "mset q = mset q' \<Longrightarrow> outstanding hs q = outstanding hs q'"
  unfolding outstanding_def by (metis mset_filter size_mset)

section \<open>Answers\<close>

text \<open>What an answer changes: memory, port and the packets to delete.\<close>

definition answers :: "nat \<Rightarrow> tick \<Rightarrow> bool \<Rightarrow> dram_ctrl \<Rightarrow> dram_ctrl \<Rightarrow> bool" where
  "answers n now sent mc mc' =
     (\<exists>m q ps. mc' = mc\<lparr>mc_mem := m, mc_port := q, mc_pendingDelete := ps\<rparr> \<and> mem_ready n m \<and>
        me_range m = me_range (mc_mem mc) \<and> pq_inv now q \<and>
        length (pq_transmitList q) = length (pq_transmitList (mc_port mc)) + of_bool sent)"

lemma accessAndRespond_ok:
  assumes "mem_ready n (mc_mem mc)" "pkt_ready n (me_range (mc_mem mc)) p" "pq_inv now (mc_port mc)"
    and "length (pq_transmitList (mc_port mc)) \<le> 100"
  shows "\<exists>mc'. accessAndRespond now p lat mc = Inr mc' \<and> answers n now (needsResponse (pk_cmd p)) mc mc'"
proof -
  obtain p1 m1 where 1: "me_access p (mc_mem mc) = Inr (p1, m1)" "mem_ready n m1" "me_range m1 = me_range (mc_mem mc)"
    "needsResponse (pk_cmd p) \<longrightarrow> isResponse (pk_cmd p1) \<and> \<not> isExpressSnoop p1"
    using me_access_total [OF assms(1,2)] by blast
  show ?thesis
  proof (cases "needsResponse (pk_cmd p)")
    case True
    let ?p = "p1\<lparr>pk_busFirstWordDelay := 0, pk_busLastWordDelay := 0\<rparr>"
    have "\<not> isExpressSnoop ?p" using 1(4) True by (simp add: isExpressSnoop_def flag_isSet_def)
    then obtain q where q: "schedSendTiming now ?p (now + lat) False (mc_port mc) = Inr q" "pq_inv now q"
      "pq_transmitList q = stable_insert (DeferredPacket (now + lat) ?p False) (pq_transmitList (mc_port mc))"
      using pq_inv_schedule [OF assms(3) _ _ assms(4), of "now + lat" ?p False] by auto
    let ?mc' = "mc\<lparr>mc_mem := m1, mc_port := q, mc_pendingDelete := mc_pendingDelete mc\<rparr>"
    have "accessAndRespond now p lat mc = Inr ?mc'"
      using 1 q(1) True by (simp add: accessAndRespond_def mc_schedTimingResp_def rbind_assert)
    moreover have "answers n now True mc ?mc'"
      unfolding answers_def using 1 q by (intro exI [of _ m1] exI [of _ q] exI [of _ "mc_pendingDelete mc"]) simp
    ultimately show ?thesis using True by auto
  next
    case False
    let ?mc' = "mc\<lparr>mc_mem := m1, mc_port := mc_port mc, mc_pendingDelete := mc_pendingDelete mc @ [p1]\<rparr>"
    have "accessAndRespond now p lat mc = Inr ?mc'" using 1 False by (simp add: accessAndRespond_def)
    moreover have "answers n now False mc ?mc'"
      unfolding answers_def using 1 assms(3)
      by (intro exI [of _ m1] exI [of _ "mc_port mc"] exI [of _ "mc_pendingDelete mc @ [p1]"]) simp
    ultimately show ?thesis using False by auto
  qed
qed

lemma answersD:
  assumes "answers n now sent mc mc'"
  shows "mc_readQueue mc' = mc_readQueue mc" "mc_writeQueue mc' = mc_writeQueue mc" "mc_respQueue mc' = mc_respQueue mc"
    "mc_helpers mc' = mc_helpers mc" "mc_cp mc' = mc_cp mc" "mc_perLDom mc' = mc_perLDom mc" "mc_dram mc' = mc_dram mc"
    "mem_ready n (mc_mem mc')" "me_range (mc_mem mc') = me_range (mc_mem mc)" "pq_inv now (mc_port mc')"
    "mc_respondEvent mc' = mc_respondEvent mc" "mc_nextReqEvent mc' = mc_nextReqEvent mc"
    "mc_busBusyUntil mc' = mc_busBusyUntil mc" "mc_busState mc' = mc_busState mc"
    "length (pq_transmitList (mc_port mc')) = length (pq_transmitList (mc_port mc)) + of_bool sent"
  using assms unfolding answers_def by auto

section \<open>The invariant of the request queues\<close>

definition read_ready :: "dram_config \<Rightarrow> nat \<Rightarrow> addr_range \<Rightarrow> dram_packet \<Rightarrow> bool" where
  "read_ready c n r dp =
     (dp_wf c dp \<and> dp_isRead dp \<and> dp_size dp \<le> burstSize c \<and> pkt_ready n r (dp_pkt dp) \<and> needsResponse (pk_cmd (dp_pkt dp)))"

definition respond_armed :: "tick \<Rightarrow> dram_packet list \<Rightarrow> tick option \<Rightarrow> bool" where
  "respond_armed now q e = (case q of [] \<Rightarrow> e = None | dp # _ \<Rightarrow> e = Some (dp_readyTime dp) \<and> now \<le> dp_readyTime dp)"

definition mc_inv :: "dram_config \<Rightarrow> nat \<Rightarrow> tick \<Rightarrow> dram_ctrl \<Rightarrow> bool" where
  "mc_inv c n now mc =
     (counters_ok mc \<and> mem_ready n (mc_mem mc) \<and> pq_inv now (mc_port mc) \<and>
      writes_ok c (mc_writeQueue mc) \<and> length (mc_writeQueue mc) \<le> cf_writeBufferSize c \<and>
      list_all (read_ready c n (me_range (mc_mem mc))) (mc_readQueue mc @ mc_respQueue mc) \<and>
      length (mc_readQueue mc) + length (mc_respQueue mc) \<le> cf_readBufferSize c \<and>
      helpers_ok (mc_helpers mc) (mc_readQueue mc @ mc_respQueue mc) \<and>
      sorted (map dp_readyTime (mc_respQueue mc)) \<and>
      respond_armed now (mc_respQueue mc) (mc_respondEvent mc))"

text \<open>The reads owed to the requestor: not yet answered, or answered and waiting in the port.\<close>

definition owed :: "dram_ctrl \<Rightarrow> nat" where
  "owed mc = outstanding (mc_helpers mc) (mc_readQueue mc @ mc_respQueue mc) + length (pq_transmitList (mc_port mc))"

definition req_ready :: "dram_config \<Rightarrow> nat \<Rightarrow> dram_ctrl \<Rightarrow> packet \<Rightarrow> bool" where
  "req_ready c n mc p =
     (pkt_ready n (me_range (mc_mem mc)) p \<and> tag_ok (mc_cp mc) p \<and> clear_of_end (burstSize c) p \<and>
      (isRead (pk_cmd p) \<longrightarrow> needsResponse (pk_cmd p)))"

lemma mc_inv_stats:
  assumes "stats_only mc mc'" "mc_inv c n now mc"
  shows "mc_inv c n now mc'" "owed mc' = owed mc"
  using assms(2) stats_onlyD [OF assms(1)] by (simp_all add: mc_inv_def owed_def)

lemma req_ready_stats: "stats_only mc mc' \<Longrightarrow> req_ready c n mc p \<Longrightarrow> req_ready c n mc' p"
  using stats_onlyD(2,8) [of mc mc'] tag_ok_params [of "mc_cp mc'" "mc_cp mc"] by (simp add: req_ready_def)

lemma req_ready_kept:
  assumes "req_ready c n mc p" "me_range (mc_mem mc') = me_range (mc_mem mc)" "dc_params (mc_cp mc') = dc_params (mc_cp mc)"
  shows "req_ready c n mc' p"
  using assms tag_ok_params [OF assms(3)] by (simp add: req_ready_def)

lemma mc_inv_frame:
  "mc_inv c n now (mc\<lparr>mc_retryRdReq := b\<rparr>) = mc_inv c n now mc" "mc_inv c n now (mc\<lparr>mc_retryWrReq := b\<rparr>) = mc_inv c n now mc"
  "mc_inv c n now (mc\<lparr>mc_prevArrival := t\<rparr>) = mc_inv c n now mc" "mc_inv c n now (mc\<lparr>mc_pendingDelete := ps\<rparr>) = mc_inv c n now mc"
  "mc_inv c n now (mc\<lparr>mc_nextReqEvent := e\<rparr>) = mc_inv c n now mc"
  "mc_inv c n now (sendRetry mc) = mc_inv c n now mc" "mc_inv c n now (signalDrainDone mc) = mc_inv c n now mc"
  "mc_inv c n now (kick_nextReq now' mc) = mc_inv c n now mc"
  by (simp_all add: mc_inv_def counters_ok_def sendRetry_def signalDrainDone_def kick_nextReq_def)

lemma owed_frame:
  "owed (mc\<lparr>mc_retryRdReq := b\<rparr>) = owed mc" "owed (mc\<lparr>mc_retryWrReq := b\<rparr>) = owed mc"
  "owed (mc\<lparr>mc_prevArrival := t\<rparr>) = owed mc" "owed (mc\<lparr>mc_pendingDelete := ps\<rparr>) = owed mc"
  "owed (mc\<lparr>mc_nextReqEvent := e\<rparr>) = owed mc" "owed (sendRetry mc) = owed mc" "owed (signalDrainDone mc) = owed mc"
  "owed (kick_nextReq now' mc) = owed mc"
  by (simp_all add: owed_def sendRetry_def signalDrainDone_def kick_nextReq_def)

lemma answers_inv:
  assumes "answers n now sent mc mc'" "mc_inv c n now mc"
  shows "mc_inv c n now mc'" "owed mc' = owed mc + of_bool sent"
  using assms(2) answersD [OF assms(1)] by (simp_all add: mc_inv_def counters_ok_def owed_def)

section \<open>Accepting a write\<close>

lemma addToWriteQueue_ok:
  assumes c: "config_ok c" and inv: "mc_inv c n now mc" and p: "req_ready c n mc p" "isWrite (pk_cmd p)"
    and room: "length (mc_writeQueue mc) + length (bursts_of (burstSize c) p) \<le> cf_writeBufferSize c"
    and port: "length (pq_transmitList (mc_port mc)) \<le> 100"
  shows "\<exists>mc'. addToWriteQueue c now p (length (bursts_of (burstSize c) p)) mc = Inr mc' \<and> mc_inv c n now mc' \<and>
    write_covered (mc_writeQueue mc') = write_covered (mc_writeQueue mc) \<union> {unat (pk_addr p)..<pkt_end p} \<and>
    owed mc' = owed mc + of_bool (needsResponse (pk_cmd p)) \<and> mc_nextReqEvent mc' \<noteq> None \<and> req_ready c n mc' p"
proof -
  let ?B = "burstSize c" let ?n = "length (bursts_of ?B p)"
  have pr: "pkt_ready n (me_range (mc_mem mc)) p" "tag_ok (mc_cp mc) p" "clear_of_end ?B p" using p by (auto simp: req_ready_def)
  have B: "burst_ok ?B" using c by (simp add: config_ok_def)
  note b = bursts_of_ok [OF B pr(3)]
  have safe: "list_all (burst_safe ?B) (bursts ?B p ?n (pk_addr p))" using b(3,5) by simp
  have i: "counters_ok mc" "writes_ok c (mc_writeQueue mc)" using inv by (simp_all add: mc_inv_def)
  obtain ws mc1 where w: "write_loop c now p ?n (pk_addr p) mc = Inr mc1" "stats_only (mc\<lparr>mc_writeQueue := ws\<rparr>) mc1"
    "writes_ok c ws" "length ws \<le> length (mc_writeQueue mc) + ?n"
    "write_covered ws = write_covered (mc_writeQueue mc) \<union> set (concat (map byte_range (bursts ?B p ?n (pk_addr p))))"
    using write_loop_ok [OF c i(1) pr(2) i(2) safe room] by blast
  have cov: "write_covered ws = write_covered (mc_writeQueue mc) \<union> {unat (pk_addr p)..<pkt_end p}"
    using w(5) b(1,5) by (metis atLeastLessThan_upt)
  have "mc_inv c n now (mc\<lparr>mc_writeQueue := ws\<rparr>)" using inv w(3,4) room by (simp add: mc_inv_def counters_ok_def)
  note inv1 = mc_inv_stats [OF w(2) this]
  have s: "mc_mem mc1 = mc_mem mc" "mc_port mc1 = mc_port mc" "mc_writeQueue mc1 = ws" using stats_onlyD [OF w(2)] by simp_all
  have o: "owed mc1 = owed mc" using inv1(2) by (simp add: owed_def)
  obtain mc2 where a: "accessAndRespond now p (cf_frontendLatency c) mc1 = Inr mc2" "answers n now (needsResponse (pk_cmd p)) mc1 mc2"
    using accessAndRespond_ok [of n mc1 p now "cf_frontendLatency c"] inv1(1) pr(1) port s by (auto simp: mc_inv_def)
  have "getAddr p = Inr (pk_addr p)" using pr(1) by (simp add: pkt_ready_def getAddr_def rbind_assert)
  then have "addToWriteQueue c now p ?n mc = Inr (kick_nextReq now mc2)"
    using w(1) a(1) p(2) by (simp add: addToWriteQueue_def rbind_assert)
  moreover have "mc_inv c n now (kick_nextReq now mc2)" "owed (kick_nextReq now mc2) = owed mc + of_bool (needsResponse (pk_cmd p))"
    using answers_inv [OF a(2) inv1(1)] o by (simp_all add: mc_inv_frame owed_frame)
  moreover have "mc_writeQueue (kick_nextReq now mc2) = ws" "mc_nextReqEvent (kick_nextReq now mc2) \<noteq> None"
    using answersD(2) [OF a(2)] s by (simp_all add: kick_nextReq_def)
  moreover have "req_ready c n (kick_nextReq now mc2) p"
    using req_ready_kept [OF p(1), of "kick_nextReq now mc2"] answersD(5,9) [OF a(2)] stats_onlyD(2,8) [OF w(2)] by (simp add: kick_nextReq_def)
  ultimately show ?thesis using cov by simp
qed

section \<open>Accepting a read\<close>

lemma mset_queue: "mset ((q @ dps) @ r) = mset (dps @ (q @ r))"
  by simp

lemma reads_added:
  assumes inv: "mc_inv c n now mc" and p: "req_ready c n mc p" "isRead (pk_cmd p)"
    and room: "length (mc_readQueue mc) + length (mc_respQueue mc) + length dps \<le> cf_readBufferSize c"
    and dps: "list_all (read_of c now p h) dps" "list_all (\<lambda>dp. dp_size dp \<le> burstSize c) dps"
    and ok: "helpers_ok hs (dps @ (mc_readQueue mc @ mc_respQueue mc))"
    and st: "stats_only (mc\<lparr>mc_helpers := hs', mc_readQueue := mc_readQueue mc @ dps\<rparr>) mc1"
  shows "mc_inv c n now (mc1\<lparr>mc_helpers := hs\<rparr>)"
    and "owed (mc1\<lparr>mc_helpers := hs\<rparr>) = outstanding hs (dps @ (mc_readQueue mc @ mc_respQueue mc)) + length (pq_transmitList (mc_port mc))"
proof -
  note s = stats_onlyD [OF st, simplified]
  have "list_all (read_ready c n (me_range (mc_mem mc))) dps"
    using dps p by (auto simp: list_all_iff read_of_def read_ready_def req_ready_def)
  moreover have "helpers_ok hs ((mc_readQueue mc @ dps) @ mc_respQueue mc)" using ok helpers_ok_mset [OF mset_queue] by blast
  ultimately show "mc_inv c n now (mc1\<lparr>mc_helpers := hs\<rparr>)"
    using inv room s by (simp add: mc_inv_def counters_ok_def)
  show "owed (mc1\<lparr>mc_helpers := hs\<rparr>) = outstanding hs (dps @ (mc_readQueue mc @ mc_respQueue mc)) + length (pq_transmitList (mc_port mc))"
    using s outstanding_mset [OF mset_queue [of "mc_readQueue mc" dps "mc_respQueue mc"], of hs] by (simp add: owed_def)
qed

lemma unforwarded_length: "length (unforwarded ws bs) \<le> length bs"
  by (simp add: unforwarded_def)

lemma split_reads_counted:
  assumes ok: "helpers_ok hs0 q" and d: "dps \<noteq> []" "length dps \<le> k"
    and of: "list_all (read_of c now p (helper_after k None hs0)) dps" and h: "mc_helpers mc1 = helpers_after k None hs0"
  shows "\<exists>hs. set_serviced (helper_after k None hs0) (k - length dps) mc1 = Inr (mc1\<lparr>mc_helpers := hs\<rparr>) \<and>
    helpers_ok hs (dps @ q) \<and> outstanding hs (dps @ q) = outstanding hs0 q + 1"
proof (cases "k > 1")
  case True
  let ?b = "\<lparr>bh_burstCount = k, bh_burstsServiced = k - length dps\<rparr>"
  have dh: "\<forall>dp \<in> set dps. dp_burstHelper dp = Some (length hs0) \<and> dp_pkt dp = p"
    using of True by (auto simp: list_all_iff read_of_def helper_after_def)
  have "set_serviced (helper_after k None hs0) (k - length dps) mc1 = Inr (mc1\<lparr>mc_helpers := hs0 @ [Some ?b]\<rparr>)"
    using True h by (simp add: set_serviced_def helper_after_def helpers_after_def vec_get_def)
  moreover have "helpers_ok (hs0 @ [Some ?b]) (dps @ q)"
    using helpers_ok_split [OF ok d(1) dh, of ?b] d(2) by simp
  moreover have "filter (\<lambda>dp. dp_burstHelper dp = None) dps = []" using dh by (simp add: filter_empty_conv)
  then have "outstanding (hs0 @ [Some ?b]) (dps @ q) = outstanding hs0 q + 1" by (simp add: outstanding_simps)
  ultimately show ?thesis by blast
next
  case False
  moreover have "0 < length dps" using d(1) by simp
  ultimately have k1: "k = 1" "length dps = 1" using d(2) by linarith+
  have dh: "\<forall>dp \<in> set dps. dp_burstHelper dp = None" using of k1 by (auto simp: list_all_iff read_of_def helper_after_def)
  then have "filter (\<lambda>dp. dp_burstHelper dp = None) dps = dps" by (simp add: filter_id_conv)
  then have "outstanding hs0 (dps @ q) = outstanding hs0 q + 1" using k1(2) by (simp add: outstanding_simps)
  moreover have "set_serviced (helper_after k None hs0) (k - length dps) mc1 = Inr (mc1\<lparr>mc_helpers := hs0\<rparr>)"
    using h k1(1) by (simp add: set_serviced_def helper_after_def helpers_after_def)
  ultimately show ?thesis using helpers_ok_plain [OF ok dh] by blast
qed

text \<open>Some burst of the packet has to be read from the device.\<close>

lemma addToReadQueue_queued:
  assumes c: "config_ok c" and inv: "mc_inv c n now mc" and p: "req_ready c n mc p" "isRead (pk_cmd p)"
    and room: "length (mc_readQueue mc) + length (mc_respQueue mc) + length (bursts_of (burstSize c) p) \<le> cf_readBufferSize c"
    and todo: "unforwarded (mc_writeQueue mc) (bursts_of (burstSize c) p) \<noteq> []"
  shows "\<exists>dps mc'. addToReadQueue c now p (length (bursts_of (burstSize c) p)) mc = Inr mc' \<and> mc_inv c n now mc' \<and>
    owed mc' = owed mc + 1 \<and> mc_readQueue mc' = mc_readQueue mc @ dps \<and>
    map (\<lambda>dp. (dp_addr dp, dp_size dp)) dps = unforwarded (mc_writeQueue mc) (bursts_of (burstSize c) p) \<and>
    mc_writeQueue mc' = mc_writeQueue mc \<and> mc_port mc' = mc_port mc \<and> mc_nextReqEvent mc' \<noteq> None \<and> req_ready c n mc' p"
proof -
  let ?B = "burstSize c" let ?k = "length (bursts_of ?B p)" let ?todo = "unforwarded (mc_writeQueue mc) (bursts_of ?B p)"
  let ?h = "helper_after ?k None (mc_helpers mc)" let ?hs = "helpers_after ?k None (mc_helpers mc)"
  have pr: "pkt_ready n (me_range (mc_mem mc)) p" "tag_ok (mc_cp mc) p" "clear_of_end ?B p" using p by (auto simp: req_ready_def)
  have B: "burst_ok ?B" using c by (simp add: config_ok_def)
  have eq: "bursts ?B p ?k (pk_addr p) = bursts_of ?B p" using bursts_of_ok(5) [OF B pr(3)] by simp
  have i: "counters_ok mc" "helpers_ok (mc_helpers mc) (mc_readQueue mc @ mc_respQueue mc)" using inv by (simp_all add: mc_inv_def)
  obtain dps mc1 where l: "read_loop c now p ?k ?k (pk_addr p) (0, None, mc) = Inr (?k - length ?todo, ?h, mc1)" "length ?todo \<le> ?k"
    "stats_only (mc\<lparr>mc_helpers := ?hs, mc_readQueue := mc_readQueue mc @ dps\<rparr>) mc1"
    "map (\<lambda>dp. (dp_addr dp, dp_size dp)) dps = ?todo" "list_all (read_of c now p ?h) dps"
    using read_loop_ok [OF c i(1) pr(2) room, where a = "pk_addr p" and helper = None and cnt = ?k and served = 0 and now = now]
    unfolding eq if_not_P [OF todo] add_0 by blast
  have d: "length dps = length ?todo" using arg_cong [OF l(4), of length] by simp
  have "list_all (\<lambda>b. snd b \<le> ?B) (map (\<lambda>dp. (dp_addr dp, dp_size dp)) dps)"
    using bursts_of_ok(3) [OF B pr(3)] unfolding l(4) by (auto simp: list_all_iff unforwarded_def burst_safe_def)
  then have sz: "list_all (\<lambda>dp. dp_size dp \<le> ?B) dps" by (simp add: list_all_iff)
  have d': "dps \<noteq> []" using l(4) todo by (cases dps) simp_all
  have "0 < length dps" using d' by simp
  then have k: "0 < ?k" "?k - length ?todo < ?k" using l(2) d by linarith+
  have a: "getAddr p = Inr (pk_addr p)" "\<not> isWrite (pk_cmd p)" using pr(1) p(2) by (simp_all add: pkt_ready_def getAddr_def rbind_assert)
  have room': "length (mc_readQueue mc) + length (mc_respQueue mc) + length dps \<le> cf_readBufferSize c" using room l(2) d by simp
  note s = stats_onlyD [OF l(3), simplified]
  obtain hs where hs: "set_serviced ?h (?k - length ?todo) mc1 = Inr (mc1\<lparr>mc_helpers := hs\<rparr>)"
    "helpers_ok hs (dps @ (mc_readQueue mc @ mc_respQueue mc))"
    "outstanding hs (dps @ (mc_readQueue mc @ mc_respQueue mc)) = outstanding (mc_helpers mc) (mc_readQueue mc @ mc_respQueue mc) + 1"
    using split_reads_counted [OF i(2) d' _ l(5) s(6)] l(2) d by simp blast
  let ?mc' = "kick_nextReq now (mc1\<lparr>mc_helpers := hs\<rparr>)"
  have "addToReadQueue c now p ?k mc = Inr ?mc'"
    using l(1) a k hs(1) by (simp add: addToReadQueue_def rbind_assert)
  moreover have "mc_inv c n now ?mc'" "owed ?mc' = owed mc + 1"
    using reads_added [OF inv p room' l(5) sz hs(2) l(3)] hs(3) by (simp_all add: mc_inv_frame owed_frame) (simp add: owed_def)
  moreover have "req_ready c n ?mc' p" using req_ready_kept [OF p(1), of ?mc'] s by (simp add: kick_nextReq_def)
  ultimately show ?thesis
    using l(4) s by (intro exI [of _ dps] exI [of _ ?mc']) (simp add: kick_nextReq_def)
qed

text \<open>Every burst is forwarded from the write queue.\<close>

lemma addToReadQueue_forwarded:
  assumes c: "config_ok c" and inv: "mc_inv c n now mc" and p: "req_ready c n mc p" "isRead (pk_cmd p)"
    and room: "length (mc_readQueue mc) + length (mc_respQueue mc) + length (bursts_of (burstSize c) p) \<le> cf_readBufferSize c"
    and todo: "unforwarded (mc_writeQueue mc) (bursts_of (burstSize c) p) = []"
    and port: "length (pq_transmitList (mc_port mc)) \<le> 100"
  shows "\<exists>mc'. addToReadQueue c now p (length (bursts_of (burstSize c) p)) mc = Inr mc' \<and> mc_inv c n now mc' \<and>
    owed mc' = owed mc + 1 \<and> mc_readQueue mc' = mc_readQueue mc \<and> mc_writeQueue mc' = mc_writeQueue mc \<and> req_ready c n mc' p"
proof -
  let ?B = "burstSize c" let ?k = "length (bursts_of ?B p)"
  have pr: "pkt_ready n (me_range (mc_mem mc)) p" "tag_ok (mc_cp mc) p" "clear_of_end ?B p" "needsResponse (pk_cmd p)"
    using p by (auto simp: req_ready_def)
  have B: "burst_ok ?B" using c by (simp add: config_ok_def)
  have eq: "bursts ?B p ?k (pk_addr p) = bursts_of ?B p" using bursts_of_ok(5) [OF B pr(3)] by simp
  have k: "0 < ?k" by (simp add: bursts_of_def)
  have i: "counters_ok mc" using inv by (simp add: mc_inv_def)
  obtain mc1 where l: "read_loop c now p ?k ?k (pk_addr p) (0, None, mc) = Inr (?k, None, mc1)" "stats_only mc mc1"
    using read_loop_ok [OF c i(1) pr(2) room, where a = "pk_addr p" and helper = None and cnt = ?k and served = 0 and now = now]
    unfolding eq if_P [OF todo] add_0 todo by simp blast
  have a: "getAddr p = Inr (pk_addr p)" "\<not> isWrite (pk_cmd p)" using pr(1) p(2) by (simp_all add: pkt_ready_def getAddr_def rbind_assert)
  note inv1 = mc_inv_stats [OF l(2) inv] and s = stats_onlyD [OF l(2)]
  obtain mc2 where r: "accessAndRespond now p (cf_frontendLatency c) mc1 = Inr mc2" "answers n now True mc1 mc2"
    using accessAndRespond_ok [of n mc1 p now "cf_frontendLatency c"] inv1(1) pr(1,4) port s by (auto simp: mc_inv_def)
  have "addToReadQueue c now p ?k mc = Inr mc2"
    using l(1) a k r(1) by (simp add: addToReadQueue_def rbind_assert)
  moreover have "req_ready c n mc2 p" using req_ready_kept [OF p(1), of mc2] answersD(5,9) [OF r(2)] s by simp
  ultimately show ?thesis using answers_inv [OF r(2) inv1(1)] inv1(2) answersD [OF r(2)] s by simp
qed

lemma addToReadQueue_accepted:
  assumes c: "config_ok c" and inv: "mc_inv c n now mc" and p: "req_ready c n mc p" "isRead (pk_cmd p)"
    and room: "length (mc_readQueue mc) + length (mc_respQueue mc) + length (bursts_of (burstSize c) p) \<le> cf_readBufferSize c"
    and port: "length (pq_transmitList (mc_port mc)) \<le> 100"
  shows "\<exists>mc'. addToReadQueue c now p (length (bursts_of (burstSize c) p)) mc = Inr mc' \<and> mc_inv c n now mc' \<and>
    owed mc' = owed mc + 1 \<and> mc_writeQueue mc' = mc_writeQueue mc \<and> req_ready c n mc' p"
  using addToReadQueue_queued [OF c inv p room] addToReadQueue_forwarded [OF c inv p room _ port]
  by (cases "unforwarded (mc_writeQueue mc) (bursts_of (burstSize c) p) = []") blast+

section \<open>Requests\<close>

text \<open>Read-outs of a request: either it is refused and a retry is remembered, or it is accepted.\<close>

lemma pard_stats_keep:
  assumes "mc_inv c n now mc" "req_ready c n mc p"
  shows "\<exists>mc'. pard_stats p s f mc = Inr mc' \<and> stats_only mc mc' \<and> mc_inv c n now mc' \<and> owed mc' = owed mc \<and> req_ready c n mc' p"
proof -
  obtain mc' where "pard_stats p s f mc = Inr mc'" "stats_only mc mc'"
    using pard_stats_ok assms by (fastforce simp: mc_inv_def req_ready_def tag_ok_def)
  then show ?thesis using mc_inv_stats [OF _ assms(1)] req_ready_stats assms(2) by blast
qed

lemma ldom_stats_keep:
  assumes "mc_inv c n now mc" "req_ready c n mc p"
  shows "\<exists>mc'. ldom_stats p s k mc = Inr mc' \<and> stats_only mc mc' \<and> mc_inv c n now mc' \<and> owed mc' = owed mc \<and> req_ready c n mc' p"
proof -
  obtain mc' where "ldom_stats p s k mc = Inr mc'" "stats_only mc mc'"
    using ldom_stats_ok assms by (fastforce simp: mc_inv_def req_ready_def tag_ok_def)
  then show ?thesis using mc_inv_stats [OF _ assms(1)] req_ready_stats assms(2) by blast
qed

text \<open>The counters updated after an accepted request.\<close>

lemma accounted:
  assumes "mc_inv c n now mc" "req_ready c n mc p"
  shows "\<exists>mc'. rbind (pard_stats p s1 f1 mc) (\<lambda>mc4. rbind (pard_stats p s2 f2 mc4) (\<lambda>mc5.
      rbind (ldom_stats p s3 k mc5) (\<lambda>mc6. Inr (True, mc6)))) = Inr (True, mc') \<and> stats_only mc mc' \<and>
      mc_inv c n now mc' \<and> owed mc' = owed mc"
proof -
  obtain mc1 where 1: "pard_stats p s1 f1 mc = Inr mc1" "stats_only mc mc1" "mc_inv c n now mc1" "owed mc1 = owed mc" "req_ready c n mc1 p"
    using pard_stats_keep [OF assms] by blast
  obtain mc2 where 2: "pard_stats p s2 f2 mc1 = Inr mc2" "stats_only mc1 mc2" "mc_inv c n now mc2" "owed mc2 = owed mc1" "req_ready c n mc2 p"
    using pard_stats_keep [OF 1(3,5)] by blast
  obtain mc3 where 3: "ldom_stats p s3 k mc2 = Inr mc3" "stats_only mc2 mc3" "mc_inv c n now mc3" "owed mc3 = owed mc2"
    using ldom_stats_keep [OF 2(3,5)] by blast
  have "stats_only mc mc3" using stats_only_trans [OF 1(2) stats_only_trans [OF 2(2) 3(2)]] .
  moreover have "owed mc3 = owed mc" using 1(4) 2(4) 3(4) by (simp only:)
  ultimately show ?thesis using 1(1) 2(1) 3(1,3) by (intro exI [of _ mc3]) simp
qed

lemma req_ready_frame:
  "req_ready c n (mc\<lparr>mc_prevArrival := t\<rparr>) p = req_ready c n mc p" "req_ready c n (mc\<lparr>mc_pendingDelete := ps\<rparr>) p = req_ready c n mc p"
  "req_ready c n (mc\<lparr>mc_retryRdReq := b\<rparr>) p = req_ready c n mc p" "req_ready c n (mc\<lparr>mc_retryWrReq := b\<rparr>) p = req_ready c n mc p"
  by (simp_all add: req_ready_def)

text \<open>What the controller does with a request before it looks at the queues.\<close>

definition arrived :: "tick \<Rightarrow> dram_ctrl \<Rightarrow> dram_ctrl \<Rightarrow> bool" where
  "arrived now mc mc' = stats_only (mc\<lparr>mc_pendingDelete := [], mc_prevArrival := now\<rparr>) mc'"

lemma recv_arrived:
  assumes inv: "mc_inv c n now mc" and p: "req_ready c n mc p"
  shows "\<exists>mc1. (if mc_prevArrival (mc\<lparr>mc_pendingDelete := []\<rparr>) \<noteq> 0
               then pard_stats p S_totGap (\<lambda>v. v + of_nat (now - mc_prevArrival (mc\<lparr>mc_pendingDelete := []\<rparr>))) (mc\<lparr>mc_pendingDelete := []\<rparr>)
               else Inr (mc\<lparr>mc_pendingDelete := []\<rparr>)) = Inr mc1 \<and> arrived now mc (mc1\<lparr>mc_prevArrival := now\<rparr>)"
proof -
  let ?m = "mc\<lparr>mc_pendingDelete := []\<rparr>"
  have i: "mc_inv c n now ?m" "req_ready c n ?m p" using inv p by (simp_all add: mc_inv_frame req_ready_frame)
  have 0: "arrived now mc (?m\<lparr>mc_prevArrival := now\<rparr>)"
    unfolding arrived_def using inv by (intro stats_only_refl) (simp add: mc_inv_def counters_ok_def)
  obtain mc1 where 1: "pard_stats p S_totGap (\<lambda>v. v + of_nat (now - mc_prevArrival ?m)) ?m = Inr mc1" "stats_only ?m mc1"
    using pard_stats_keep [OF i] by blast
  obtain r v where "mc1 = ?m\<lparr>mc_cp := r, mc_perLDom := v\<rparr>" "dc_params r = dc_params (mc_cp mc)" "cp_ok r" "ldom_ok v"
    using 1(2) unfolding stats_only_def by auto
  then have 2: "arrived now mc (mc1\<lparr>mc_prevArrival := now\<rparr>)"
    unfolding arrived_def stats_only_def by (intro exI [of _ r] exI [of _ v]) simp
  show ?thesis using 0 1(1) 2 by (cases "mc_prevArrival ?m \<noteq> 0") auto
qed

lemma arrivedD:
  assumes "arrived now mc mc'" "mc_inv c n now mc" "req_ready c n mc p"
  shows "mc_inv c n now mc'" "req_ready c n mc' p" "owed mc' = owed mc" "mc_writeQueue mc' = mc_writeQueue mc"
    "mc_readQueue mc' = mc_readQueue mc" "mc_respQueue mc' = mc_respQueue mc" "mc_port mc' = mc_port mc"
proof -
  let ?m = "mc\<lparr>mc_pendingDelete := [], mc_prevArrival := now\<rparr>"
  have "mc_inv c n now ?m" "req_ready c n ?m p" "owed ?m = owed mc" using assms(2,3) by (simp_all add: mc_inv_frame req_ready_frame owed_frame)
  with mc_inv_stats [of ?m mc'] req_ready_stats [of ?m mc'] assms(1)
  show "mc_inv c n now mc'" "req_ready c n mc' p" "owed mc' = owed mc" by (simp_all add: arrived_def)
  show "mc_writeQueue mc' = mc_writeQueue mc" "mc_readQueue mc' = mc_readQueue mc" "mc_respQueue mc' = mc_respQueue mc" "mc_port mc' = mc_port mc"
    using stats_onlyD [of ?m mc'] assms(1) by (simp_all add: arrived_def)
qed

text \<open>
  A read is refused, and a retry remembered, when its bursts do not all fit; otherwise it is accepted and one
  more answer is owed.
\<close>

lemma req_ready_fields:
  assumes "req_ready c n mc p"
  shows "\<not> memInhibitAsserted p" "getSize p = Inr (pk_size p)" "getAddr p = Inr (pk_addr p)" "pk_size p \<noteq> 0"
    "isRead (pk_cmd p) \<noteq> isWrite (pk_cmd p)"
    "config_ok c \<Longrightarrow> dram_pkt_count (burstSize c) p = Inr (length (bursts_of (burstSize c) p))"
  using assms bursts_of_ok(4) [of "burstSize c" p]
  by (simp_all add: req_ready_def pkt_ready_def getSize_def getAddr_def rbind_assert config_ok_def)

lemma recv_read_eq:
  assumes c: "config_ok c" and inv: "mc_inv c n now mc" and p: "req_ready c n mc p" "isRead (pk_cmd p)"
  shows "\<exists>mc1. arrived now mc mc1 \<and> mc_recvTimingReq c now p mc =
      (if readQueueFull (cf_readBufferSize c) (mc_readQueue mc1) (mc_respQueue mc1) (length (bursts_of (burstSize c) p)) then
         rbind (pard_stats p S_numRdRetry (\<lambda>v. v + 1) (mc1\<lparr>mc_retryRdReq := True\<rparr>)) (\<lambda>mc3. Inr (False, mc3))
       else rbind (addToReadQueue c now p (length (bursts_of (burstSize c) p)) mc1) (\<lambda>mc3.
         rbind (pard_stats p S_readReqs (\<lambda>v. v + 1) mc3) (\<lambda>mc4.
         rbind (pard_stats p S_bytesReadSys (\<lambda>v. v + of_nat (pk_size p)) mc4) (\<lambda>mc5.
         rbind (ldom_stats p L_bytesReadSys (pk_size p) mc5) (\<lambda>mc6. Inr (True, mc6))))))"
proof -
  obtain mc1 where pre: "(if mc_prevArrival (mc\<lparr>mc_pendingDelete := []\<rparr>) \<noteq> 0
               then pard_stats p S_totGap (\<lambda>v. v + of_nat (now - mc_prevArrival (mc\<lparr>mc_pendingDelete := []\<rparr>))) (mc\<lparr>mc_pendingDelete := []\<rparr>)
               else Inr (mc\<lparr>mc_pendingDelete := []\<rparr>)) = Inr mc1" "arrived now mc (mc1\<lparr>mc_prevArrival := now\<rparr>)"
    using recv_arrived [OF inv p(1)] by blast
  note r = req_ready_fields [OF p(1)]
  show ?thesis using pre(2)
    unfolding mc_recvTimingReq_def Let_def pre(1) rbind_Inr r(2,3) r(6) [OF c] if_not_P [OF r(1)] if_P [OF p(2)] rbind_assert if_P [OF r(4)]
    by blast
qed

lemma recv_write_eq:
  assumes c: "config_ok c" and inv: "mc_inv c n now mc" and p: "req_ready c n mc p" "isWrite (pk_cmd p)"
  shows "\<exists>mc1. arrived now mc mc1 \<and> mc_recvTimingReq c now p mc =
      (if writeQueueFull (cf_writeBufferSize c) (mc_writeQueue mc1) (length (bursts_of (burstSize c) p)) then
         rbind (pard_stats p S_numWrRetry (\<lambda>v. v + 1) (mc1\<lparr>mc_retryWrReq := True\<rparr>)) (\<lambda>mc3. Inr (False, mc3))
       else rbind (addToWriteQueue c now p (length (bursts_of (burstSize c) p)) mc1) (\<lambda>mc3.
         rbind (pard_stats p S_writeReqs (\<lambda>v. v + 1) mc3) (\<lambda>mc4.
         rbind (pard_stats p S_bytesWrittenSys (\<lambda>v. v + of_nat (pk_size p)) mc4) (\<lambda>mc5.
         rbind (ldom_stats p L_bytesWrittenSys (pk_size p) mc5) (\<lambda>mc6. Inr (True, mc6))))))"
proof -
  obtain mc1 where pre: "(if mc_prevArrival (mc\<lparr>mc_pendingDelete := []\<rparr>) \<noteq> 0
               then pard_stats p S_totGap (\<lambda>v. v + of_nat (now - mc_prevArrival (mc\<lparr>mc_pendingDelete := []\<rparr>))) (mc\<lparr>mc_pendingDelete := []\<rparr>)
               else Inr (mc\<lparr>mc_pendingDelete := []\<rparr>)) = Inr mc1" "arrived now mc (mc1\<lparr>mc_prevArrival := now\<rparr>)"
    using recv_arrived [OF inv p(1)] by blast
  note r = req_ready_fields [OF p(1)]
  have nr: "\<not> isRead (pk_cmd p)" using r(5) p(2) by simp
  show ?thesis using pre(2)
    unfolding mc_recvTimingReq_def Let_def pre(1) rbind_Inr r(2,3) r(6) [OF c] if_not_P [OF r(1)] if_not_P [OF nr] if_P [OF p(2)]
      rbind_assert if_P [OF r(4)]
    by blast
qed

text \<open>A refused request changes no queue.\<close>

lemma refused:
  assumes "mc_inv c n now mc1" "req_ready c n mc1 p"
  shows "\<exists>mc'. rbind (pard_stats p s f mc1) (\<lambda>mc3. Inr (False, mc3)) = Inr (False, mc') \<and> stats_only mc1 mc' \<and>
    mc_inv c n now mc' \<and> owed mc' = owed mc1"
  using pard_stats_keep [OF assms] by (metis rbind_Inr)

lemma stats_only_retry:
  "stats_only mc mc' \<Longrightarrow> mc_retryRdReq mc' = mc_retryRdReq mc" "stats_only mc mc' \<Longrightarrow> mc_retryWrReq mc' = mc_retryWrReq mc"
  unfolding stats_only_def by auto

lemma mc_recvTimingReq_read:
  assumes c: "config_ok c" and inv: "mc_inv c n now mc" and p: "req_ready c n mc p" "isRead (pk_cmd p)"
    and port: "length (pq_transmitList (mc_port mc)) \<le> 100"
  shows "\<exists>ok mc'. mc_recvTimingReq c now p mc = Inr (ok, mc') \<and> mc_inv c n now mc' \<and>
    owed mc' = owed mc + of_bool ok \<and> mc_writeQueue mc' = mc_writeQueue mc \<and> (ok \<or> mc_retryRdReq mc') \<and>
    (ok \<longleftrightarrow> length (mc_readQueue mc) + length (mc_respQueue mc) + length (bursts_of (burstSize c) p) \<le> cf_readBufferSize c)"
proof -
  let ?k = "length (bursts_of (burstSize c) p)" and ?room = "length (mc_readQueue mc) + length (mc_respQueue mc) + length (bursts_of (burstSize c) p) \<le> cf_readBufferSize c"
  obtain mc1 where ar: "arrived now mc mc1" and e: "mc_recvTimingReq c now p mc =
      (if readQueueFull (cf_readBufferSize c) (mc_readQueue mc1) (mc_respQueue mc1) ?k then
         rbind (pard_stats p S_numRdRetry (\<lambda>v. v + 1) (mc1\<lparr>mc_retryRdReq := True\<rparr>)) (\<lambda>mc3. Inr (False, mc3))
       else rbind (addToReadQueue c now p ?k mc1) (\<lambda>mc3.
         rbind (pard_stats p S_readReqs (\<lambda>v. v + 1) mc3) (\<lambda>mc4.
         rbind (pard_stats p S_bytesReadSys (\<lambda>v. v + of_nat (pk_size p)) mc4) (\<lambda>mc5.
         rbind (ldom_stats p L_bytesReadSys (pk_size p) mc5) (\<lambda>mc6. Inr (True, mc6))))))"
    using recv_read_eq [OF c inv p] by blast
  note a = arrivedD [OF ar inv p(1)]
  have full: "readQueueFull (cf_readBufferSize c) (mc_readQueue mc1) (mc_respQueue mc1) ?k \<longleftrightarrow> \<not> ?room"
    using a by (simp add: readQueueFull_def not_le)
  show ?thesis
  proof (cases ?room)
    case True
    obtain mc2 where q: "addToReadQueue c now p ?k mc1 = Inr mc2" "mc_inv c n now mc2" "owed mc2 = owed mc1 + 1"
      "mc_writeQueue mc2 = mc_writeQueue mc1" "req_ready c n mc2 p"
      using addToReadQueue_accepted [OF c a(1,2) p(2)] True port a by auto
    obtain mc3 where "mc_recvTimingReq c now p mc = Inr (True, mc3)" "stats_only mc2 mc3" "mc_inv c n now mc3" "owed mc3 = owed mc2"
      using accounted [OF q(2,5), where ?s1.0 = S_readReqs and ?f1.0 = "\<lambda>v. v + 1" and ?s2.0 = S_bytesReadSys and ?f2.0 = "\<lambda>v. v + of_nat (pk_size p)"
        and ?s3.0 = L_bytesReadSys and k = "pk_size p"] True full unfolding e q(1) rbind_Inr by auto
    moreover have "mc_writeQueue mc3 = mc_writeQueue mc" using stats_onlyD(3) [OF \<open>stats_only mc2 mc3\<close>] q(4) a(4) by simp
    ultimately show ?thesis using True q(3) a(3) by (intro exI [of _ True] exI [of _ mc3]) simp
  next
    case False
    obtain mc3 where "mc_recvTimingReq c now p mc = Inr (False, mc3)" "stats_only (mc1\<lparr>mc_retryRdReq := True\<rparr>) mc3" "mc_inv c n now mc3"
      "owed mc3 = owed mc1"
      using refused [of c n now "mc1\<lparr>mc_retryRdReq := True\<rparr>" p S_numRdRetry "\<lambda>v. v + 1"] False full a(1,2)
      unfolding e by (auto simp: mc_inv_frame owed_frame req_ready_frame)
    moreover have "mc_writeQueue mc3 = mc_writeQueue mc" "mc_retryRdReq mc3"
      using stats_onlyD(3) [OF \<open>stats_only (mc1\<lparr>mc_retryRdReq := True\<rparr>) mc3\<close>] stats_only_retry(1) [OF \<open>stats_only (mc1\<lparr>mc_retryRdReq := True\<rparr>) mc3\<close>] a(4)
      by simp_all
    ultimately show ?thesis using False a(3) by (intro exI [of _ False] exI [of _ mc3]) simp
  qed
qed

lemma mc_recvTimingReq_write:
  assumes c: "config_ok c" and inv: "mc_inv c n now mc" and p: "req_ready c n mc p" "isWrite (pk_cmd p)"
    and port: "length (pq_transmitList (mc_port mc)) \<le> 100"
  shows "\<exists>ok mc'. mc_recvTimingReq c now p mc = Inr (ok, mc') \<and> mc_inv c n now mc' \<and>
    owed mc' = owed mc + of_bool (ok \<and> needsResponse (pk_cmd p)) \<and> (ok \<or> mc_retryWrReq mc') \<and>
    write_covered (mc_writeQueue mc') = write_covered (mc_writeQueue mc) \<union> (if ok then {unat (pk_addr p)..<pkt_end p} else {}) \<and>
    (ok \<longleftrightarrow> length (mc_writeQueue mc) + length (bursts_of (burstSize c) p) \<le> cf_writeBufferSize c)"
proof -
  let ?k = "length (bursts_of (burstSize c) p)" and ?room = "length (mc_writeQueue mc) + length (bursts_of (burstSize c) p) \<le> cf_writeBufferSize c"
  obtain mc1 where ar: "arrived now mc mc1" and e: "mc_recvTimingReq c now p mc =
      (if writeQueueFull (cf_writeBufferSize c) (mc_writeQueue mc1) ?k then
         rbind (pard_stats p S_numWrRetry (\<lambda>v. v + 1) (mc1\<lparr>mc_retryWrReq := True\<rparr>)) (\<lambda>mc3. Inr (False, mc3))
       else rbind (addToWriteQueue c now p ?k mc1) (\<lambda>mc3.
         rbind (pard_stats p S_writeReqs (\<lambda>v. v + 1) mc3) (\<lambda>mc4.
         rbind (pard_stats p S_bytesWrittenSys (\<lambda>v. v + of_nat (pk_size p)) mc4) (\<lambda>mc5.
         rbind (ldom_stats p L_bytesWrittenSys (pk_size p) mc5) (\<lambda>mc6. Inr (True, mc6))))))"
    using recv_write_eq [OF c inv p] by blast
  note a = arrivedD [OF ar inv p(1)]
  have full: "writeQueueFull (cf_writeBufferSize c) (mc_writeQueue mc1) ?k \<longleftrightarrow> \<not> ?room"
    using a by (simp add: writeQueueFull_def not_le)
  show ?thesis
  proof (cases ?room)
    case True
    obtain mc2 where q: "addToWriteQueue c now p ?k mc1 = Inr mc2" "mc_inv c n now mc2"
      "write_covered (mc_writeQueue mc2) = write_covered (mc_writeQueue mc1) \<union> {unat (pk_addr p)..<pkt_end p}"
      "owed mc2 = owed mc1 + of_bool (needsResponse (pk_cmd p))" "req_ready c n mc2 p"
      using addToWriteQueue_ok [OF c a(1,2) p(2)] True port a by auto
    obtain mc3 where "mc_recvTimingReq c now p mc = Inr (True, mc3)" "stats_only mc2 mc3" "mc_inv c n now mc3" "owed mc3 = owed mc2"
      using accounted [OF q(2,5), where ?s1.0 = S_writeReqs and ?f1.0 = "\<lambda>v. v + 1" and ?s2.0 = S_bytesWrittenSys and ?f2.0 = "\<lambda>v. v + of_nat (pk_size p)"
        and ?s3.0 = L_bytesWrittenSys and k = "pk_size p"] True full unfolding e q(1) rbind_Inr by auto
    moreover have "mc_writeQueue mc3 = mc_writeQueue mc2" using stats_onlyD(3) [OF \<open>stats_only mc2 mc3\<close>] .
    ultimately show ?thesis using True q(3,4) a(3,4) by (intro exI [of _ True] exI [of _ mc3]) simp
  next
    case False
    obtain mc3 where "mc_recvTimingReq c now p mc = Inr (False, mc3)" "stats_only (mc1\<lparr>mc_retryWrReq := True\<rparr>) mc3" "mc_inv c n now mc3"
      "owed mc3 = owed mc1"
      using refused [of c n now "mc1\<lparr>mc_retryWrReq := True\<rparr>" p S_numWrRetry "\<lambda>v. v + 1"] False full a(1,2)
      unfolding e by (auto simp: mc_inv_frame owed_frame req_ready_frame)
    moreover have "mc_writeQueue mc3 = mc_writeQueue mc" "mc_retryWrReq mc3"
      using stats_onlyD(3) [OF \<open>stats_only (mc1\<lparr>mc_retryWrReq := True\<rparr>) mc3\<close>] stats_only_retry(2) [OF \<open>stats_only (mc1\<lparr>mc_retryWrReq := True\<rparr>) mc3\<close>] a(4)
      by simp_all
    ultimately show ?thesis using False a(3) by (intro exI [of _ False] exI [of _ mc3]) simp
  qed
qed

section \<open>Answering reads\<close>

definition next_resp :: "dram_packet list \<Rightarrow> tick option" where
  "next_resp q = (case q of [] \<Rightarrow> None | r # _ \<Rightarrow> Some (dp_readyTime r))"

lemma drop_head_inv:
  assumes "mc_inv c n now mc" "mc_respQueue mc = dp # rest" "helpers_ok hs (mc_readQueue mc @ rest)"
  shows "mc_inv c n now (mc\<lparr>mc_helpers := hs, mc_respQueue := rest, mc_respondEvent := next_resp rest\<rparr>)"
proof -
  have "respond_armed now rest (next_resp rest)"
    using assms(1,2) by (cases rest) (auto simp: mc_inv_def respond_armed_def next_resp_def)
  then show ?thesis using assms by (simp add: mc_inv_def counters_ok_def)
qed

lemma served_refs:
  assumes "mc_inv c n now mc" "mc_respQueue mc = dp # rest"
  shows "helpers_ok (mc_helpers mc) (dp # (mc_readQueue mc @ rest))" "read_ready c n (me_range (mc_mem mc)) dp"
    "owed mc = outstanding (mc_helpers mc) (mc_readQueue mc @ rest) + of_bool (dp_burstHelper dp = None) + length (pq_transmitList (mc_port mc))"
proof -
  have m: "mset (mc_readQueue mc @ dp # rest) = mset (dp # (mc_readQueue mc @ rest))" by simp
  show "helpers_ok (mc_helpers mc) (dp # (mc_readQueue mc @ rest))" using assms helpers_ok_mset [OF m] by (simp add: mc_inv_def)
  show "read_ready c n (me_range (mc_mem mc)) dp" using assms by (simp add: mc_inv_def)
  show "owed mc = outstanding (mc_helpers mc) (mc_readQueue mc @ rest) + of_bool (dp_burstHelper dp = None) + length (pq_transmitList (mc_port mc))"
    using assms(2) outstanding_mset [OF m, of "mc_helpers mc"] by (simp add: owed_def outstanding_def)
qed

text \<open>The head of the response queue is served: a read is answered when its last burst is, and only then.\<close>

definition served :: "dram_config \<Rightarrow> nat \<Rightarrow> tick \<Rightarrow> dram_packet list \<Rightarrow> dram_ctrl \<Rightarrow> dram_ctrl \<Rightarrow> bool" where
  "served c n now rest mc mc' =
     (mc_inv c n now (mc'\<lparr>mc_respQueue := rest, mc_respondEvent := next_resp rest\<rparr>) \<and>
      owed (mc'\<lparr>mc_respQueue := rest\<rparr>) = owed mc \<and> mc_respondEvent mc' = mc_respondEvent mc)"

lemma respond_last:
  assumes inv: "mc_inv c n now mc" and q: "mc_respQueue mc = dp # rest" and a: "answers n now True mc mc1"
    and hs: "helpers_ok hs (mc_readQueue mc @ rest)" and o: "owed mc = outstanding hs (mc_readQueue mc @ rest) + 1 + length (pq_transmitList (mc_port mc))"
  shows "served c n now rest mc (mc1\<lparr>mc_helpers := hs\<rparr>)"
proof -
  note d = answersD [OF a]
  have "mc_inv c n now (mc1\<lparr>mc_helpers := hs, mc_respQueue := rest, mc_respondEvent := next_resp rest\<rparr>)"
    using drop_head_inv [OF answers_inv(1) [OF a inv]] q hs d by simp
  then show ?thesis using o d by (simp add: served_def owed_def)
qed

lemma respond_burst_ok:
  assumes inv: "mc_inv c n now mc" and q: "mc_respQueue mc = dp # rest"
    and port: "length (pq_transmitList (mc_port mc)) \<le> 100"
  shows "\<exists>mc1. respond_burst c now dp mc = Inr mc1 \<and> served c n now rest mc mc1"
proof -
  let ?Q = "mc_readQueue mc @ rest" and ?l = "cf_frontendLatency c + cf_backendLatency c"
  note r = served_refs [OF inv q]
  obtain mc1 where a: "accessAndRespond now (dp_pkt dp) ?l mc = Inr mc1" "answers n now True mc mc1"
    using accessAndRespond_ok [of n mc "dp_pkt dp" now ?l] inv r(2) port by (auto simp: mc_inv_def read_ready_def)
  show ?thesis
  proof (cases "dp_burstHelper dp")
    case None
    then have "served c n now rest mc (mc1\<lparr>mc_helpers := mc_helpers mc\<rparr>)"
      using respond_last [OF inv q a(2) helpers_ok_serve_plain [OF r(1)]] r(3) by simp
    moreover have "mc1\<lparr>mc_helpers := mc_helpers mc\<rparr> = mc1" using answersD(4) [OF a(2)] by simp
    moreover have "respond_burst c now dp mc = Inr mc1" using None a(1) by (simp add: respond_burst_def)
    ultimately show ?thesis by auto
  next
    case (Some h)
    obtain b where b: "h < length (mc_helpers mc)" "mc_helpers mc ! h = Some b"
      "bh_burstsServiced b + 1 = bh_burstCount b \<longleftrightarrow> helper_refs h ?Q = 0"
      "helpers_ok ((mc_helpers mc)[h := served_once (helper_refs h ?Q) b]) ?Q"
      using helpers_ok_serve [OF r(1) Some] by (elim exE conjE) (rule that)
    show ?thesis
    proof (cases "helper_refs h ?Q = 0")
      case True
      have "respond_burst c now dp mc = Inr (mc1\<lparr>mc_helpers := (mc_helpers mc)[h := None]\<rparr>)"
        using Some b(1,2) b(3) [THEN iffD2, OF True] a(1) answersD(4) [OF a(2)] by (simp add: respond_burst_def)
      moreover have "served c n now rest mc (mc1\<lparr>mc_helpers := (mc_helpers mc)[h := None]\<rparr>)"
        using respond_last [OF inv q a(2)] b(4) True r(3) Some outstanding_update(1) [OF b(1,2), of ?Q] by (simp add: served_once_def)
      ultimately show ?thesis by blast
    next
      case False
      let ?hs = "(mc_helpers mc)[h := Some (b\<lparr>bh_burstsServiced := bh_burstsServiced b + 1\<rparr>)]"
      have "respond_burst c now dp mc = Inr (mc\<lparr>mc_helpers := ?hs\<rparr>)"
        using Some b(1,2) b(3) [THEN iffD1] False by (auto simp: respond_burst_def)
      moreover have "helpers_ok ?hs ?Q" using b(4) unfolding served_once_def if_not_P [OF False] .
      then have "served c n now rest mc (mc\<lparr>mc_helpers := ?hs\<rparr>)"
        using drop_head_inv [OF inv q, of ?hs] r(3) Some outstanding_update(2) [OF b(1,2)] by (simp add: served_def owed_def)
      ultimately show ?thesis by blast
    qed
  qed
qed

text \<open>The event is no part of an answer.\<close>

lemma accessAndRespond_event:
  "accessAndRespond now p lat (mc\<lparr>mc_respondEvent := e\<rparr>) = rbind (accessAndRespond now p lat mc) (\<lambda>m. Inr (m\<lparr>mc_respondEvent := e\<rparr>))"
proof (cases "me_access p (mc_mem mc)")
  case (Inr r)
  obtain a b where r: "r = (a, b)" by (cases r)
  let ?a = "a\<lparr>pk_busFirstWordDelay := 0, pk_busLastWordDelay := 0\<rparr>"
  show ?thesis
    by (cases "needsResponse (pk_cmd p)"; cases "isResponse (pk_cmd a)"; cases "schedSendTiming now ?a (now + lat) False (mc_port mc)")
      (simp_all add: accessAndRespond_def mc_schedTimingResp_def sim_assert_def Let_def Inr r)
qed (simp add: accessAndRespond_def)

lemma respond_burst_event:
  "respond_burst c now dp (mc\<lparr>mc_respondEvent := e\<rparr>) = rbind (respond_burst c now dp mc) (\<lambda>m. Inr (m\<lparr>mc_respondEvent := e\<rparr>))"
  by (simp add: respond_burst_def accessAndRespond_event Let_def rbind_def split: option.split sum.split)

text \<open>The event finds a response that is due, and keeps the invariant and the answers owed.\<close>

lemma processRespondEvent_ok:
  assumes inv: "mc_inv c n now mc" and e: "mc_respondEvent mc = Some now"
    and port: "length (pq_transmitList (mc_port mc)) \<le> 100"
  shows "\<exists>mc'. processRespondEvent c now mc = Inr mc' \<and> mc_inv c n now mc' \<and> owed mc' = owed mc \<and>
    mc_respQueue mc' = tl (mc_respQueue mc) \<and> \<not> mc_retryRdReq mc'"
proof -
  obtain dp rest where q: "mc_respQueue mc = dp # rest" using inv e by (cases "mc_respQueue mc") (auto simp: mc_inv_def respond_armed_def)
  obtain mc1 where r: "respond_burst c now dp mc = Inr mc1" "served c n now rest mc mc1"
    using respond_burst_ok [OF inv q port] by blast
  let ?m = "mc1\<lparr>mc_respQueue := rest, mc_respondEvent := next_resp rest\<rparr>"
  have i: "mc_inv c n now ?m" "owed ?m = owed mc" using r(2) by (simp_all add: served_def owed_def)
  have late: "now \<le> dp_readyTime x" if "rest = x # xs" for x xs
    using i(1) that by (simp add: mc_inv_def respond_armed_def next_resp_def)
  let ?d = "if rest = [] \<and> mc_writeQueue mc1 = [] \<and> mc_readQueue mc1 = [] \<and> mc_drainManager mc1 then signalDrainDone ?m else ?m"
  let ?f = "if mc_retryRdReq ?d then sendRetry (?d\<lparr>mc_retryRdReq := False\<rparr>) else ?d"
  have swap: "mc1\<lparr>mc_respondEvent := e, mc_respQueue := xs\<rparr> = mc1\<lparr>mc_respQueue := xs, mc_respondEvent := e\<rparr>" for e xs by simp
  have "processRespondEvent c now mc = Inr ?f"
    using q r(1) late
    by (simp add: processRespondEvent_def swap Let_def respond_burst_event rbind_assert next_resp_def split: list.split)
  moreover have "mc_inv c n now ?f \<and> owed ?f = owed mc" using i by (auto simp: mc_inv_frame owed_frame)
  moreover have "mc_respQueue ?f = tl (mc_respQueue mc)" "\<not> mc_retryRdReq ?f" using q by (simp_all add: sendRetry_def signalDrainDone_def)
  ultimately show ?thesis by blast
qed

end
