(* ===== verification/Dram_Access.thy ===== *)
theory Dram_Access
  imports Dram_Answers
begin

text \<open>
  The access side of the memory controller: one burst on the bus (\<^verbatim>\<open>doDRAMAccess\<close>), the request loop
  (\<^verbatim>\<open>processNextReqEvent\<close>), refresh, power states, the constructor and start-up, with the invariant of the banks and
  of the bus and the proof that a turn of the request loop keeps both.
\<close>

section \<open>Ticks and events\<close>

text \<open>Ticks are unsigned 64-bit numbers; a difference below zero wraps.\<close>

definition tick_sub :: "tick \<Rightarrow> tick \<Rightarrow> tick" where
  "tick_sub a b = (if b \<le> a then a - b else a + 2 ^ 64 - b)"

text \<open>\<^verbatim>\<open>schedule\<close> of the event queue refuses ticks in the past and events that are scheduled already.\<close>

definition sched_ev :: "tick \<Rightarrow> tick option \<Rightarrow> tick \<Rightarrow> tick option result" where
  "sched_ev now e when = rbind (sim_assert (when \<ge> now)) (\<lambda>_. rbind (sim_assert (e = None)) (\<lambda>_. Inr (Some when)))"

section \<open>One burst\<close>

definition pard_stats_dp :: "dram_packet \<Rightarrow> dram_stat \<Rightarrow> (u64 \<Rightarrow> u64) \<Rightarrow> dram_ctrl \<Rightarrow> dram_ctrl result" where
  "pard_stats_dp dp s f mc =
     rbind (pard_stat_upd (QOSTAG_TO_LDOMID (dp_qosTag dp)) s f (mc_cp mc)) (\<lambda>r. Inr (mc\<lparr>mc_cp := r\<rparr>))"

text \<open>The search of the adaptive page policies for row hits and bank conflicts in the rest of the queue.\<close>

fun adaptive_scan :: "page_policy \<Rightarrow> dram_packet \<Rightarrow> bool \<Rightarrow> bool \<Rightarrow> dram_packet list \<Rightarrow> bool \<times> bool" where
  "adaptive_scan pol dp hits conflict [] = (hits, conflict)"
| "adaptive_scan pol dp hits conflict (p # ps) =
     (if hits \<and> (conflict \<or> pol = page_close_adaptive) then (hits, conflict)
      else
        let same_rank_bank = (dp_rank dp = dp_rank p \<and> dp_bank dp = dp_bank p); same_row = (dp_row dp = dp_row p) in
        adaptive_scan pol dp (hits \<or> same_rank_bank \<and> same_row) (conflict \<or> same_rank_bank \<and> \<not> same_row) ps)"

definition auto_precharge :: "dram_config \<Rightarrow> dram_packet \<Rightarrow> bank \<Rightarrow> dram_packet list \<Rightarrow> bool" where
  "auto_precharge c dp b queue =
     (let ap = (cf_pageMgmt c = page_close \<or> bk_rowAccesses b = cf_maxAccessesPerRow c) in
      if \<not> ap \<and> (cf_pageMgmt c = page_open_adaptive \<or> cf_pageMgmt c = page_close_adaptive) then
        case adaptive_scan (cf_pageMgmt c) dp False False (tl queue) of (got_more_hits, got_bank_conflict) \<Rightarrow>
          \<not> got_more_hits \<and> (got_bank_conflict \<or> cf_pageMgmt c = page_close_adaptive)
      else ap)"

text \<open>
  Opening the row: nothing on a hit, otherwise a precharge of the row buffer if it holds another row and an
  activation. The result is whether the row was open, the earliest tick of the column command, and the banks.
\<close>

definition open_row :: "dram_config \<Rightarrow> tick \<Rightarrow> dram_packet \<Rightarrow> dram_state \<Rightarrow> (bool \<times> tick \<times> dram_state) result" where
  "open_row c now dp s =
     (let rank = unat (dp_rank dp); bank = unat (dp_bank dp); tm = cf_timing c in
      rbind (get_bank s rank bank) (\<lambda>b.
      rbind (vec_get (bk_openRow b) (dp_rowbuf dp)) (\<lambda>opened.
      if opened = ucast (dp_row dp) then Inr (True, max (bk_colAllowedAt b) now, s)
      else
        rbind (if opened \<noteq> NO_ROW then prechargeBank tm rank bank (dp_rowbuf dp) (max (bk_preAllowedAt b) now) s else Inr s) (\<lambda>s1.
        rbind (get_bank s1 rank bank) (\<lambda>b1.
        rbind (activateBank (cf_geom c) tm (max (bk_actAllowedAt b1) now) rank bank (dp_row dp) (dp_rowbuf dp) s1) (\<lambda>s2.
        rbind (get_bank s2 rank bank) (\<lambda>b2. Inr (False, bk_colAllowedAt b2, s2))))))))"

definition account_burst :: "dram_config \<Rightarrow> dram_packet \<Rightarrow> bool \<Rightarrow> tick \<Rightarrow> dram_ctrl \<Rightarrow> dram_ctrl result" where
  "account_burst c dp hit cmd_at mc =
     (let tag = dp_qosTag dp; B = dg_burstSize (cf_geom c);
          lat = tick_sub (dp_readyTime dp) (dp_entryTime dp); qlat = tick_sub cmd_at (dp_entryTime dp) in
      if dp_isRead dp then
        rbind (if hit then rbind (pard_stats_dp dp S_readRowHits (\<lambda>v. v + 1) (mc\<lparr>mc_readsThisTime := mc_readsThisTime mc + 1\<rparr>))
                 (ldom_add tag L_readRowHits 1) else Inr (mc\<lparr>mc_readsThisTime := mc_readsThisTime mc + 1\<rparr>)) (\<lambda>mc1.
        rbind (pard_stats_dp dp S_bytesReadDRAM (\<lambda>v. v + of_nat B) mc1) (\<lambda>mc2.
        rbind (pard_stats_dp dp S_totMemAccLat (\<lambda>v. v + of_nat lat) mc2) (\<lambda>mc3.
        rbind (pard_stats_dp dp S_totBusLat (\<lambda>v. v + of_nat (cf_tBURST c)) mc3) (\<lambda>mc4.
        rbind (pard_stats_dp dp S_totQLat (\<lambda>v. v + of_nat qlat) mc4) (\<lambda>mc5.
        rbind (ldom_add tag L_totMemAccLat lat mc5) (ldom_add tag L_totQLat qlat))))))
      else
        rbind (if hit then rbind (pard_stats_dp dp S_writeRowHits (\<lambda>v. v + 1) (mc\<lparr>mc_writesThisTime := mc_writesThisTime mc + 1\<rparr>))
                 (ldom_add tag L_writeRowHits 1) else Inr (mc\<lparr>mc_writesThisTime := mc_writesThisTime mc + 1\<rparr>)) (\<lambda>mc1.
          pard_stats_dp dp S_bytesWritten (\<lambda>v. v + of_nat B) mc1))"

definition doDRAMAccess :: "dram_config \<Rightarrow> tick \<Rightarrow> dram_packet \<Rightarrow> dram_ctrl \<Rightarrow> (dram_packet \<times> dram_ctrl) result" where
  "doDRAMAccess c now dp mc =
     (let rank = unat (dp_rank dp); bank = unat (dp_bank dp); tm = cf_timing c in
      rbind (open_row c now dp (mc_dram mc)) (\<lambda>(hit, cmd0, s1).
        let cmd_at = max cmd0 (tick_sub (mc_busBusyUntil mc) (cf_tCL c));
            ready = cmd_at + cf_tCL c + cf_tBURST c; dp1 = dp\<lparr>dp_readyTime := ready\<rparr> in
      rbind (sim_assert (tick_sub ready (mc_busBusyUntil mc) \<ge> cf_tBURST c)) (\<lambda>_.
      rbind (get_bank s1 rank bank) (\<lambda>b.
        let b1 = b\<lparr>bk_colAllowedAt := cmd_at + cf_tBURST c,
                   bk_preAllowedAt := max (bk_preAllowedAt b) (if dp_isRead dp then cmd_at + cf_tRTP c else ready + cf_tWR c),
                   bk_bytesAccessed := bk_bytesAccessed b + dg_burstSize (cf_geom c), bk_rowAccesses := bk_rowAccesses b + 1\<rparr>;
            s2 = put_bank rank bank b1 s1 in
      rbind (if auto_precharge c dp b1 (if dp_isRead dp then mc_readQueue mc else mc_writeQueue mc)
             then prechargeBank tm rank bank (dp_rowbuf dp) (max now (bk_preAllowedAt b1)) s2 else Inr s2) (\<lambda>s3.
      rbind (account_burst c dp1 hit cmd_at
               (mc\<lparr>mc_dram := s3, mc_busBusyUntil := ready,
                   mc_nextReqTime := tick_sub ready (dt_tRP tm + dt_tRCD tm + cf_tCL c)\<rparr>)) (\<lambda>mc1. Inr (dp1, mc1)))))))"

section \<open>The next request\<close>

text \<open>The first part of \<^verbatim>\<open>processNextReqEvent\<close>: a turn-around of the bus is over.\<close>

definition bus_turned :: "dram_ctrl \<Rightarrow> dram_ctrl" where
  "bus_turned mc =
     (case mc_busState mc of
        BUS_READ_TO_WRITE \<Rightarrow> mc\<lparr>mc_readsThisTime := 0, mc_busState := BUS_WRITE\<rparr>
      | BUS_WRITE_TO_READ \<Rightarrow> mc\<lparr>mc_writesThisTime := 0, mc_busState := BUS_READ\<rparr>
      | _ \<Rightarrow> mc)"

definition turn_bus :: "dram_config \<Rightarrow> bus_state \<Rightarrow> tick \<Rightarrow> dram_ctrl \<Rightarrow> dram_ctrl" where
  "turn_bus c st bubble mc =
     (let busy = mc_busBusyUntil mc + bubble in
      mc\<lparr>mc_busState := st, mc_busBusyUntil := busy,
         mc_nextReqTime := tick_sub busy (dt_tRP (cf_timing c) + dt_tRCD (cf_timing c) + cf_tCL c)\<rparr>)"

text \<open>Inserting a finished read into the response queue.\<close>

definition push_response :: "tick \<Rightarrow> dram_packet \<Rightarrow> dram_ctrl \<Rightarrow> dram_ctrl result" where
  "push_response now dp mc =
     rbind (if mc_respQueue mc = [] then sched_ev now (mc_respondEvent mc) (dp_readyTime dp)
            else
              rbind (sim_assert (dp_readyTime (last (mc_respQueue mc)) \<le> dp_readyTime dp)) (\<lambda>_.
              rbind (sim_assert (mc_respondEvent mc \<noteq> None)) (\<lambda>_. Inr (mc_respondEvent mc)))) (\<lambda>e.
       Inr (mc\<lparr>mc_respondEvent := e, mc_respQueue := mc_respQueue mc @ [dp]\<rparr>))"

text \<open>A turn of the bus for reads; the flag says whether the loop goes on, as opposed to the early return.\<close>

definition next_read :: "dram_config \<Rightarrow> tick \<Rightarrow> dram_ctrl \<Rightarrow> (bool \<times> dram_ctrl) result" where
  "next_read c now mc =
     (if mc_readQueue mc = [] then
        if mc_writeQueue mc \<noteq> [] \<and> (mc_drainManager mc \<or> length (mc_writeQueue mc) > cf_writeLowThreshold c)
        then Inr (True, turn_bus c BUS_READ_TO_WRITE (cf_tRTW c) mc)
        else Inr (False, if mc_respQueue mc = [] \<and> mc_drainManager mc then signalDrainDone mc else mc)
      else
        rbind (chooseNext (cf_memSchedPolicy c) (mc_cp mc) (dt_tRP (cf_timing c)) now (ds_banks (mc_dram mc)) (mc_readQueue mc)) (\<lambda>q.
        rbind (doDRAMAccess c now (hd q) (mc\<lparr>mc_readQueue := q\<rparr>)) (\<lambda>(dp, mc1).
          let mc2 = mc1\<lparr>mc_readQueue := tl (mc_readQueue mc1)\<rparr> in
        rbind (sim_assert (dp_size dp \<le> dg_burstSize (cf_geom c))) (\<lambda>_.
        rbind (sim_assert (dp_readyTime dp \<ge> now)) (\<lambda>_.
        rbind (push_response now dp mc2) (\<lambda>mc3.
          Inr (True, if length (mc_writeQueue mc3) > cf_writeHighThreshold c
                     then turn_bus c BUS_READ_TO_WRITE (cf_tRTW c) mc3 else mc3)))))))"

definition next_write :: "dram_config \<Rightarrow> tick \<Rightarrow> dram_ctrl \<Rightarrow> dram_ctrl result" where
  "next_write c now mc =
     rbind (chooseNext (cf_memSchedPolicy c) (mc_cp mc) (dt_tRP (cf_timing c)) now (ds_banks (mc_dram mc)) (mc_writeQueue mc)) (\<lambda>q.
     rbind (sim_assert (dp_size (hd q) \<le> dg_burstSize (cf_geom c))) (\<lambda>_.
     rbind (doDRAMAccess c now (hd q) (mc\<lparr>mc_writeQueue := q\<rparr>)) (\<lambda>(dp, mc1).
       let mc2 = mc1\<lparr>mc_writeQueue := tl (mc_writeQueue mc1)\<rparr> in
       Inr (if mc_writeQueue mc2 = [] \<or>
               length (mc_writeQueue mc2) + cf_minWritesPerSwitch c < cf_writeLowThreshold c \<and> \<not> mc_drainManager mc2 \<or>
               mc_readQueue mc2 \<noteq> [] \<and> mc_writesThisTime mc2 \<ge> cf_minWritesPerSwitch c
            then turn_bus c BUS_WRITE_TO_READ (cf_tWTR c + cf_tCL c) mc2 else mc2))))"

definition processNextReqEvent :: "dram_config \<Rightarrow> tick \<Rightarrow> dram_ctrl \<Rightarrow> dram_ctrl result" where
  "processNextReqEvent c now mc0 =
     (let mc = bus_turned (mc0\<lparr>mc_nextReqEvent := None\<rparr>) in
      if mc_refreshState mc \<noteq> REF_IDLE then
        if mc_refreshState mc = REF_DRAIN then
          rbind (sched_ev now (mc_refreshEvent mc) now) (\<lambda>e. Inr (mc\<lparr>mc_refreshState := REF_PRE, mc_refreshEvent := e\<rparr>))
        else Inr mc
      else
        rbind (if mc_busState mc = BUS_READ then next_read c now mc
               else rbind (next_write c now mc) (\<lambda>mc1. Inr (True, mc1))) (\<lambda>(go_on, mc2).
        if \<not> go_on then Inr mc2
        else
          rbind (sched_ev now (mc_nextReqEvent mc2) (max (mc_nextReqTime mc2) now)) (\<lambda>e.
            let mc3 = mc2\<lparr>mc_nextReqEvent := e\<rparr> in
            Inr (if mc_retryWrReq mc3 \<and> length (mc_writeQueue mc3) < cf_writeBufferSize c
                 then sendRetry (mc3\<lparr>mc_retryWrReq := False\<rparr>) else mc3))))"

section \<open>Power states\<close>

definition schedulePowerEvent :: "tick \<Rightarrow> power_state \<Rightarrow> tick \<Rightarrow> dram_ctrl \<Rightarrow> dram_ctrl result" where
  "schedulePowerEvent now pwr_state t mc =
     rbind (sim_assert (t \<ge> now)) (\<lambda>_.
       if mc_powerEvent mc = None then Inr (mc\<lparr>mc_pwrStateTrans := pwr_state, mc_powerEvent := Some t\<rparr>)
       else Inl Panic)"

definition processActivateEvent :: "tick \<Rightarrow> dram_ctrl \<Rightarrow> dram_ctrl result" where
  "processActivateEvent now mc0 =
     (let mc = mc0\<lparr>mc_dram := (mc_dram mc0)\<lparr>ds_activateEvent := None\<rparr>\<rparr> in
      if mc_pwrState mc \<noteq> PWR_ACT then schedulePowerEvent now PWR_ACT now mc else Inr mc)"

definition processPrechargeEvent :: "tick \<Rightarrow> dram_ctrl \<Rightarrow> dram_ctrl result" where
  "processPrechargeEvent now mc0 =
     (let mc = mc0\<lparr>mc_dram := (mc_dram mc0)\<lparr>ds_prechargeEvent := None\<rparr>\<rparr> in
      if ds_numBanksActive (mc_dram mc) = 0 then schedulePowerEvent now PWR_IDLE now mc else Inr mc)"

section \<open>Refresh\<close>

text \<open>
  The loop over the row buffers of a bank; the flag is \<^verbatim>\<open>all_bank_precharged\<close>.
\<close>

fun precharge_bufs :: "dram_timing \<Rightarrow> nat \<Rightarrow> nat \<Rightarrow> tick \<Rightarrow> nat list \<Rightarrow> bool \<times> dram_state \<Rightarrow> (bool \<times> dram_state) result" where
  "precharge_bufs tm rank bank pre_at [] st = Inr st"
| "precharge_bufs tm rank bank pre_at (rb # rbs) (closed, s) =
     rbind (get_bank s rank bank) (\<lambda>b.
     rbind (vec_get (bk_openRow b) rb) (\<lambda>opened.
     if opened \<noteq> NO_ROW then
       rbind (prechargeBank tm rank bank rb (max (bk_preAllowedAt b) pre_at) s) (\<lambda>s1.
       rbind (get_bank s1 rank bank) (\<lambda>b1.
         precharge_bufs tm rank bank pre_at rbs (False, put_bank rank bank (b1\<lparr>bk_preAllowedAt := bk_actAllowedAt b1\<rparr>) s1)))
     else precharge_bufs tm rank bank pre_at rbs (closed, s)))"

definition precharge_one :: "dram_timing \<Rightarrow> tick \<Rightarrow> nat \<times> nat \<Rightarrow> dram_state \<Rightarrow> dram_state result" where
  "precharge_one tm pre_at = (\<lambda>(rank, bank) s.
     rbind (precharge_bufs tm rank bank pre_at [0..<ROW_BUFFER_COUNT] (True, s)) (\<lambda>(closed, s1).
       if closed then
         rbind (get_bank s1 rank bank) (\<lambda>b.
           Inr (put_bank rank bank (b\<lparr>bk_actAllowedAt := max (bk_actAllowedAt b) (pre_at + dt_tRP tm),
                                      bk_preAllowedAt := max (bk_preAllowedAt b) pre_at\<rparr>) s1))
       else Inr s1))"

fun precharge_banks :: "dram_timing \<Rightarrow> tick \<Rightarrow> (nat \<times> nat) list \<Rightarrow> dram_state \<Rightarrow> dram_state result" where
  "precharge_banks tm pre_at [] s = Inr s"
| "precharge_banks tm pre_at (rb # rbs) s = rbind (precharge_one tm pre_at rb s) (\<lambda>s1. precharge_banks tm pre_at rbs s1)"

definition bank_indices :: "dram_geometry \<Rightarrow> (nat \<times> nat) list" where
  "bank_indices g = List.product [0..<dg_ranksPerChannel g] [0..<dg_banksPerRank g]"

fun latest_pre :: "dram_state \<Rightarrow> (nat \<times> nat) list \<Rightarrow> tick \<Rightarrow> tick result" where
  "latest_pre s [] pre_at = Inr pre_at"
| "latest_pre s ((rank, bank) # rbs) pre_at = rbind (get_bank s rank bank) (\<lambda>b. latest_pre s rbs (max (bk_preAllowedAt b) pre_at))"

definition precharge_all :: "dram_config \<Rightarrow> tick \<Rightarrow> dram_state \<Rightarrow> dram_state result" where
  "precharge_all c now s =
     rbind (latest_pre s (bank_indices (cf_geom c)) now) (\<lambda>pre_at.
       precharge_banks (cf_timing c) pre_at (bank_indices (cf_geom c)) s)"

definition refresh_banks :: "tick \<Rightarrow> dram_state \<Rightarrow> dram_state" where
  "refresh_banks t s = s\<lparr>ds_banks := map (map (\<lambda>b. b\<lparr>bk_actAllowedAt := t\<rparr>)) (ds_banks s)\<rparr>"

text \<open>Closing all rows, and the refresh itself.\<close>

definition refresh_pre :: "dram_config \<Rightarrow> tick \<Rightarrow> dram_ctrl \<Rightarrow> dram_ctrl result" where
  "refresh_pre c now mc =
     rbind (if mc_pwrState mc \<noteq> PWR_IDLE
            then rbind (precharge_all c now (mc_dram mc)) (\<lambda>s. Inr (mc\<lparr>mc_dram := s\<rparr>))
            else schedulePowerEvent now PWR_REF now mc) (\<lambda>mc1.
       let mc2 = mc1\<lparr>mc_refreshState := REF_RUN\<rparr> in
     rbind (sim_assert (ds_numBanksActive (mc_dram mc2) = 0)) (\<lambda>_. Inr mc2))"

definition refresh_run :: "dram_config \<Rightarrow> tick \<Rightarrow> dram_ctrl \<Rightarrow> dram_ctrl result" where
  "refresh_run c now mc =
     rbind (sim_assert (ds_numBanksActive (mc_dram mc) = 0)) (\<lambda>_.
     rbind (sim_assert (mc_pwrState mc = PWR_REF)) (\<lambda>_.
       let ref_done_at = now + cf_tRFC c; mc1 = mc\<lparr>mc_dram := refresh_banks ref_done_at (mc_dram mc)\<rparr> in
       if mc_refreshDueAt mc1 + cf_tREFI c < ref_done_at then Inl Fatal
       else
         rbind (sched_ev now (mc_refreshEvent mc1) (tick_sub (mc_refreshDueAt mc1 + cf_tREFI c) (dt_tRP (cf_timing c)))) (\<lambda>e.
         rbind (sim_assert (mc_powerEvent mc1 = None)) (\<lambda>_.
           schedulePowerEvent now PWR_IDLE ref_done_at (mc1\<lparr>mc_refreshEvent := e\<rparr>)))))"

definition refresh_loop :: "dram_config \<Rightarrow> tick \<Rightarrow> dram_ctrl \<Rightarrow> dram_ctrl result" where
  "refresh_loop c now mc =
     (let mc1 = (if mc_refreshState mc = REF_IDLE then mc\<lparr>mc_refreshDueAt := now, mc_refreshState := REF_DRAIN\<rparr> else mc) in
      if mc_refreshState mc1 = REF_DRAIN \<and> mc_nextReqEvent mc1 \<noteq> None then Inr mc1
      else
        let mc2 = (if mc_refreshState mc1 = REF_DRAIN then mc1\<lparr>mc_refreshState := REF_PRE\<rparr> else mc1) in
        if mc_refreshState mc2 = REF_PRE then refresh_pre c now mc2
        else if mc_refreshState mc2 = REF_RUN then refresh_run c now mc2
        else Inr mc2)"

definition processRefreshEvent :: "dram_config \<Rightarrow> tick \<Rightarrow> dram_ctrl \<Rightarrow> dram_ctrl result" where
  "processRefreshEvent c now mc = refresh_loop c now (mc\<lparr>mc_refreshEvent := None\<rparr>)"

definition processPowerEvent :: "dram_config \<Rightarrow> tick \<Rightarrow> dram_ctrl \<Rightarrow> dram_ctrl result" where
  "processPowerEvent c now mc0 =
     (let prev_state = mc_pwrState mc0;
          mc = mc0\<lparr>mc_powerEvent := None, mc_pwrState := mc_pwrStateTrans mc0, mc_pwrStateTick := now\<rparr> in
      rbind (if mc_pwrState mc = PWR_IDLE then
               if prev_state = PWR_REF then
                 let mc1 = mc\<lparr>mc_refreshState := REF_IDLE\<rparr> in
                 rbind (sched_ev now (mc_nextReqEvent mc1) now) (\<lambda>e. Inr (mc1\<lparr>mc_nextReqEvent := e\<rparr>))
               else
                 rbind (sim_assert (prev_state = PWR_ACT)) (\<lambda>_.
                 if mc_refreshState mc = REF_RUN then
                   rbind (sim_assert (mc_powerEvent mc = None)) (\<lambda>_. Inr (mc\<lparr>mc_pwrState := PWR_REF\<rparr>))
                 else Inr mc)
             else Inr mc) (\<lambda>mc2.
        if mc_pwrState mc2 = PWR_REF then
          rbind (sim_assert (mc_refreshState mc2 = REF_RUN)) (\<lambda>_. refresh_loop c now mc2)
        else Inr mc2))"

section \<open>Construction\<close>

definition ar_interleaved :: "addr_range \<Rightarrow> bool" where "ar_interleaved r = (ar_intlvBits r \<noteq> 0)"

definition ar_granularity :: "addr_range \<Rightarrow> u64" where
  "ar_granularity r = push_bit (nat (uint (ar_intlvHighBit r) - uint (ar_intlvBits r) + 1)) 1"

definition ar_stripes :: "addr_range \<Rightarrow> u32" where "ar_stripes r = ucast (push_bit (unat (ar_intlvBits r)) 1 :: u64)"

record dram_params =
  pr_device_bus_width :: u32
  pr_burst_length :: u32
  pr_device_rowbuffer_size :: u32
  pr_devices_per_rank :: u32
  pr_ranks_per_channel :: u32
  pr_banks_per_rank :: u32
  pr_channels :: u32
  pr_read_buffer_size :: nat
  pr_write_buffer_size :: nat
  pr_write_high_thresh_perc :: nat
  pr_write_low_thresh_perc :: nat
  pr_min_writes_per_switch :: nat
  pr_timing :: dram_timing
  pr_tWTR :: tick
  pr_tRTW :: tick
  pr_tBURST :: tick
  pr_tCL :: tick
  pr_tWR :: tick
  pr_tRTP :: tick
  pr_tRFC :: tick
  pr_tREFI :: tick
  pr_mem_sched_policy :: sched_policy
  pr_addr_mapping :: addr_mapping
  pr_page_policy :: page_policy
  pr_max_accesses_per_row :: nat
  pr_static_frontend_latency :: tick
  pr_static_backend_latency :: tick

definition pr_burstSize :: "dram_params \<Rightarrow> u32" where
  "pr_burstSize p = (pr_devices_per_rank p * pr_burst_length p * pr_device_bus_width p) div 8"

definition pr_rowBufferSize :: "dram_params \<Rightarrow> u32" where
  "pr_rowBufferSize p = pr_devices_per_rank p * pr_device_rowbuffer_size p"

text \<open>The checks on an interleaved range; the cache line size is that of the system, which may not be set yet.\<close>

definition check_interleaving :: "dram_params \<Rightarrow> addr_range \<Rightarrow> nat option \<Rightarrow> unit result" where
  "check_interleaving p rng system =
     (if \<not> ar_interleaved rng then Inr ()
      else if pr_channels p \<noteq> ar_stripes rng then Inl Fatal
      else if pr_addr_mapping p = RoRaBaChCo
      then if ucast (pr_rowBufferSize p) \<noteq> ar_granularity rng then Inl Fatal else Inr ()
      else case system of None \<Rightarrow> Inl BadAccess
        | Some line \<Rightarrow> if of_nat line \<noteq> ar_granularity rng then Inl Fatal else Inr ())"

definition dram_state0 :: "nat \<Rightarrow> nat \<Rightarrow> nat \<Rightarrow> dram_state" where
  "dram_state0 ranks banks limit =
     \<lparr>ds_banks = replicate ranks (replicate banks Bank), ds_actTicks = replicate ranks (replicate limit 0), ds_numBanksActive = 0,
      ds_activateEvent = None, ds_prechargeEvent = None\<rparr>"

definition DRAMCtrl :: "dram_params \<Rightarrow> addr_range \<Rightarrow> nat option \<Rightarrow> string \<Rightarrow> (dram_config \<times> dram_ctrl) result" where
  "DRAMCtrl p rng system name =
     rbind (AbstractMemory rng) (\<lambda>m.
     if pr_burstSize p = 0 then Inl BadAccess
     else if pr_write_low_thresh_perc p \<ge> pr_write_high_thresh_perc p then Inl Fatal
     else
       rbind (ceilLog2 (ar_size rng)) (\<lambda>l.
         let capacity = push_bit l 1 :: u64; rows = pr_rowBufferSize p * pr_banks_per_rank p * pr_ranks_per_channel p in
         if rows = 0 then Inl BadAccess
         else
           let rowsPerBank = ucast (capacity div ucast rows) :: u32;
               ranks = unat (pr_ranks_per_channel p); banks = unat (pr_banks_per_rank p) in
           rbind (check_interleaving p rng system) (\<lambda>_.
           if pr_tREFI p \<le> dt_tRP (pr_timing p) \<or> pr_tREFI p \<le> pr_tRFC p then Inl Fatal
           else Inr
             (\<lparr>cf_geom = \<lparr>dg_burstSize = unat (pr_burstSize p), dg_columnsPerRowBuffer = unat (pr_rowBufferSize p div pr_burstSize p),
                          dg_channels = unat (pr_channels p), dg_banksPerRank = banks, dg_ranksPerChannel = ranks,
                          dg_rowsPerBank = unat rowsPerBank, dg_addrMapping = pr_addr_mapping p\<rparr>,
               cf_timing = pr_timing p, cf_tCL = pr_tCL p, cf_tBURST = pr_tBURST p, cf_tWR = pr_tWR p, cf_tRTP = pr_tRTP p,
               cf_tRFC = pr_tRFC p, cf_tREFI = pr_tREFI p, cf_tWTR = pr_tWTR p, cf_tRTW = pr_tRTW p,
               cf_readBufferSize = pr_read_buffer_size p, cf_writeBufferSize = pr_write_buffer_size p,
               cf_writeHighThreshold = pr_write_buffer_size p * pr_write_high_thresh_perc p div 100,
               cf_writeLowThreshold = pr_write_buffer_size p * pr_write_low_thresh_perc p div 100,
               cf_minWritesPerSwitch = pr_min_writes_per_switch p, cf_memSchedPolicy = pr_mem_sched_policy p,
               cf_pageMgmt = pr_page_policy p, cf_maxAccessesPerRow = pr_max_accesses_per_row p,
               cf_frontendLatency = pr_static_frontend_latency p, cf_backendLatency = pr_static_backend_latency p\<rparr>,
              \<lparr>mc_cp = \<lparr>dc_params = replicate (3 * NUM_PARAM_ROWS) 0, dc_stats = StatsTable (length DRAMCtrlStats) 32\<rparr>,
               mc_mem = m, mc_port = PacketQueue name, mc_dram = dram_state0 ranks banks (dt_activationLimit (pr_timing p)),
               mc_readQueue = [], mc_writeQueue = [], mc_respQueue = [], mc_helpers = [], mc_perLDom = (\<lambda>_. []),
               mc_retryRdReq = False, mc_retryWrReq = False, mc_busState = BUS_READ, mc_writesThisTime = 0, mc_readsThisTime = 0,
               mc_busBusyUntil = 0, mc_nextReqTime = 0, mc_prevArrival = 0, mc_refreshDueAt = 0, mc_refreshState = REF_IDLE,
               mc_pwrState = PWR_IDLE, mc_pwrStateTrans = PWR_IDLE, mc_pwrStateTick = 0, mc_nextReqEvent = None,
               mc_respondEvent = None, mc_refreshEvent = None, mc_powerEvent = None, mc_drainManager = False,
               mc_pendingDelete = [], mc_retries = 0, mc_drainDone = 0\<rparr>))))"

definition mc_regStats :: "nat \<Rightarrow> dram_ctrl \<Rightarrow> dram_ctrl" where
  "mc_regStats maxMasters mc = mc\<lparr>mc_mem := me_regStats maxMasters (mc_mem mc), mc_perLDom := (\<lambda>_. replicate 4 0)\<rparr>"

definition mc_startup :: "dram_config \<Rightarrow> tick \<Rightarrow> dram_ctrl \<Rightarrow> dram_ctrl result" where
  "mc_startup c now mc =
     (let mc1 = mc\<lparr>mc_pwrStateTick := now, mc_busBusyUntil := now + dt_tRP (cf_timing c) + dt_tRCD (cf_timing c) + cf_tCL c\<rparr> in
      rbind (sched_ev now (mc_refreshEvent mc1) (tick_sub (now + cf_tREFI c) (dt_tRP (cf_timing c)))) (\<lambda>e.
        Inr (mc1\<lparr>mc_refreshEvent := e\<rparr>)))"

section \<open>Effect of the bank commands\<close>

definition delayed :: "tick \<Rightarrow> bank \<Rightarrow> bank" where
  "delayed d b = b\<lparr>bk_actAllowedAt := max d (bk_actAllowedAt b)\<rparr>"

definition activated :: "dram_timing \<Rightarrow> tick \<Rightarrow> u16 \<Rightarrow> nat \<Rightarrow> bank \<Rightarrow> bank" where
  "activated tm t row rowbuf b =
     b\<lparr>bk_openRow := (bk_openRow b)[rowbuf := ucast row], bk_bytesAccessed := 0, bk_rowAccesses := 0,
       bk_numRowsActive := bk_numRowsActive b + 1, bk_preAllowedAt := t + dt_tRAS tm, bk_colAllowedAt := t + dt_tRCD tm\<rparr>"

definition precharged :: "dram_timing \<Rightarrow> tick \<Rightarrow> nat \<Rightarrow> bank \<Rightarrow> bank" where
  "precharged tm pre_at rowbuf b =
     b\<lparr>bk_openRow := (bk_openRow b)[rowbuf := NO_ROW], bk_preAllowedAt := pre_at,
       bk_actAllowedAt := max (bk_actAllowedAt b) (pre_at + dt_tRP tm), bk_numRowsActive := bk_numRowsActive b - 1\<rparr>"

lemma delayed_delayed: "delayed d (delayed e b) = delayed (max d e) b"
  by (simp add: delayed_def max.assoc)

lemma delayed_simps [simp]:
  "bk_openRow (delayed d b) = bk_openRow b" "bk_colAllowedAt (delayed d b) = bk_colAllowedAt b"
  "bk_preAllowedAt (delayed d b) = bk_preAllowedAt b" "bk_actAllowedAt (delayed d b) = max d (bk_actAllowedAt b)"
  "bk_numRowsActive (delayed d b) = bk_numRowsActive b"
  by (simp_all add: delayed_def)

lemma activateBank_effect:
  assumes "activateBank g tm t rank bank row rowbuf s = Inr s'" "rank < length (ds_banks s)"
  shows "\<exists>d ts. ds_banks s' = (ds_banks s)[rank := map (delayed d) ((ds_banks s ! rank)[bank := activated tm t row rowbuf (ds_banks s ! rank ! bank)])] \<and>
    ds_actTicks s' = (ds_actTicks s)[rank := ts] \<and> t + dt_tRRD tm \<le> d \<and>
    (if ds_actTicks s ! rank = [] then ts = []
     else ts = t # butlast (ds_actTicks s ! rank) \<and> (in_window t (last ts) (dt_tXAW tm) \<longrightarrow> last ts + dt_tXAW tm \<le> d))"
proof -
  let ?b = "activated tm t row rowbuf (ds_banks s ! rank ! bank)" let ?ts = "ds_actTicks s ! rank"
  let ?n = "if bk_numRowsActive (ds_banks s ! rank ! bank) + 1 = 1 then ds_numBanksActive s + 1 else ds_numBanksActive s"
  have s': "s' =
    (let s1 = delay_rank rank (t + dt_tRRD tm) (put_bank rank bank ?b (s\<lparr>ds_numBanksActive := ?n\<rparr>)) in
     if ?ts = [] then s1
     else let ticks' = t # butlast ?ts; s2 = s1\<lparr>ds_actTicks := (ds_actTicks s1)[rank := ticks']\<rparr>;
             s3 = (if in_window t (last ticks') (dt_tXAW tm) then delay_rank rank (last ticks' + dt_tXAW tm) s2 else s2)
         in s3\<lparr>ds_activateEvent := (case ds_activateEvent s3 of None \<Rightarrow> Some t | Some w \<Rightarrow> Some (if w > t then t else w))\<rparr>)"
    using assms(1)
    by (auto simp: activateBank_def rbind_eq_Inr_iff Let_def get_bank_def vec_get_def sim_assert_def activated_def split: if_splits)
  let ?rk = "(ds_banks s ! rank)[bank := ?b]"
  have d: "ds_banks (delay_rank rank e x) = (ds_banks x)[rank := map (delayed e) (ds_banks x ! rank)]"
    "ds_actTicks (delay_rank rank e x) = ds_actTicks x" for e x
    by (simp_all add: delay_rank_def delayed_def [abs_def])
  have same: "(ds_actTicks s)[rank := []] = ds_actTicks s" if "?ts = []" using that by (metis list_update_id)
  show ?thesis
  proof (cases "?ts \<noteq> [] \<and> in_window t (last (t # butlast ?ts)) (dt_tXAW tm)")
    case True
    then show ?thesis using s' assms(2)
      by (intro exI [of _ "max (last (t # butlast ?ts) + dt_tXAW tm) (t + dt_tRRD tm)"] exI [of _ "t # butlast ?ts"])
        (simp add: d put_bank_def delayed_delayed Let_def comp_def)
  next
    case False
    then show ?thesis using s' assms(2)
      by (intro exI [of _ "t + dt_tRRD tm"] exI [of _ "if ?ts = [] then [] else t # butlast ?ts"])
        (auto simp: d put_bank_def Let_def same)
  qed
qed

lemma prechargeBank_effect:
  assumes "prechargeBank tm rank bank rowbuf pre_at s = Inr s'"
  shows "ds_banks s' = (ds_banks s)[rank := (ds_banks s ! rank)[bank := precharged tm pre_at rowbuf (ds_banks s ! rank ! bank)]]"
    "ds_actTicks s' = ds_actTicks s"
  using assms
  by (auto simp: prechargeBank_def rbind_eq_Inr_iff Let_def get_bank_def vec_get_def sim_assert_def precharged_def put_bank_def
      split: if_splits)

section \<open>Activation windows\<close>

text \<open>
  The recorded activations of a rank are in descending order, and no bank of the rank may activate before the latest
  of them, nor within \<^verbatim>\<open>tXAW\<close> of the oldest.
\<close>

definition rank_ok :: "dram_timing \<Rightarrow> tick list \<Rightarrow> bank list \<Rightarrow> bool" where
  "rank_ok tm ts rk =
     (sorted_wrt (\<ge>) ts \<and>
      (ts \<noteq> [] \<longrightarrow> (\<forall>b \<in> set rk. hd ts \<le> bk_actAllowedAt b \<and> (last ts \<noteq> 0 \<longrightarrow> last ts + dt_tXAW tm \<le> bk_actAllowedAt b))))"

definition acts_ok :: "dram_timing \<Rightarrow> dram_state \<Rightarrow> bool" where
  "acts_ok tm s = (\<forall>rank < length (ds_banks s). rank_ok tm (ds_actTicks s ! rank) (ds_banks s ! rank))"

lemma rank_ok_window:
  assumes "rank_ok tm ts rk" "b \<in> set rk" "bk_actAllowedAt b \<le> t" "ts \<noteq> []"
  shows "\<not> in_window t (last ts) (dt_tXAW tm)"
  using assms by (force simp: rank_ok_def in_window_def)

lemma rank_ok_mono:
  assumes "rank_ok tm ts rk" "list_all2 (\<lambda>b b'. bk_actAllowedAt b \<le> bk_actAllowedAt b') rk rk'"
  shows "rank_ok tm ts rk'"
proof -
  have "\<exists>b \<in> set rk. bk_actAllowedAt b \<le> bk_actAllowedAt b'" if "b' \<in> set rk'" for b'
    using assms(2) that by (fastforce simp: list_all2_conv_all_nth in_set_conv_nth)
  then show ?thesis using assms(1) unfolding rank_ok_def by (meson le_trans)
qed

lemma rank_ok_activate:
  assumes "rank_ok tm ts rk" "bank < length rk" "bk_actAllowedAt (rk ! bank) \<le> t" "t + dt_tRRD tm \<le> d"
    and "ts \<noteq> []" "in_window t (last (t # butlast ts)) (dt_tXAW tm) \<longrightarrow> last (t # butlast ts) + dt_tXAW tm \<le> d"
  shows "rank_ok tm (t # butlast ts) (map (delayed d) rk')"
proof -
  have "rk ! bank \<in> set rk" using assms(2) by simp
  then have "hd ts \<le> bk_actAllowedAt (rk ! bank)" using assms(1,5) by (simp add: rank_ok_def)
  then have "hd ts \<le> t" using assms(3) by simp
  then have top: "\<forall>x \<in> set ts. x \<le> t" using assms(1,5) by (cases ts) (auto simp: rank_ok_def)
  have s: "sorted_wrt (\<ge>) (t # butlast ts)"
    using assms(1) top in_set_butlastD [of _ ts] by (auto simp: rank_ok_def butlast_conv_take intro: sorted_wrt_take)
  have "last (t # butlast ts) \<le> t" using top in_set_butlastD [of _ ts] last_in_set [of "butlast ts"] by (auto simp: last.simps)
  then have "last (t # butlast ts) \<noteq> 0 \<longrightarrow> last (t # butlast ts) + dt_tXAW tm \<le> d"
    using assms(4,6) by (auto simp: in_window_def)
  then show ?thesis using s assms(4) by (auto simp: rank_ok_def max_def)
qed

section \<open>Opening a row\<close>

definition bank_at :: "dram_state \<Rightarrow> dram_packet \<Rightarrow> bank" where
  "bank_at s dp = ds_banks s ! unat (dp_rank dp) ! unat (dp_bank dp)"

definition banks_ok :: "dram_config \<Rightarrow> dram_state \<Rightarrow> bool" where
  "banks_ok c s = (dram_wf (cf_geom c) (cf_timing c) s \<and> acts_ok (cf_timing c) s)"

lemma acts_ok_bank:
  assumes "acts_ok tm s" "rank < length (ds_banks s)" "bk_actAllowedAt (ds_banks s ! rank ! bank) \<le> bk_actAllowedAt b"
    and "ds_banks s' = (ds_banks s)[rank := (ds_banks s ! rank)[bank := b]]" "ds_actTicks s' = ds_actTicks s"
  shows "acts_ok tm s'"
proof -
  have l: "list_all2 (\<lambda>b b'. bk_actAllowedAt b \<le> bk_actAllowedAt b') (ds_banks s ! rank) ((ds_banks s ! rank)[bank := b])"
    unfolding list_all2_conv_all_nth
  proof (intro conjI allI impI)
    fix i assume "i < length (ds_banks s ! rank)"
    then show "bk_actAllowedAt (ds_banks s ! rank ! i) \<le> bk_actAllowedAt ((ds_banks s ! rank)[bank := b] ! i)"
      using assms(3) by (cases "i = bank") simp_all
  qed simp
  have ok: "rank_ok tm (ds_actTicks s ! k) (ds_banks s ! k)" if "k < length (ds_banks s)" for k
    using assms(1) that by (simp add: acts_ok_def)
  show ?thesis unfolding acts_ok_def assms(4,5)
  proof (intro allI impI)
    fix k assume "k < length ((ds_banks s)[rank := (ds_banks s ! rank)[bank := b]])"
    then show "rank_ok tm (ds_actTicks s ! k) ((ds_banks s)[rank := (ds_banks s ! rank)[bank := b]] ! k)"
      using rank_ok_mono [OF ok [OF assms(2)] l] ok [of k] by (cases "k = rank") simp_all
  qed
qed

lemma banks_ok_range:
  assumes "banks_ok c s" "dp_wf c dp"
  shows "unat (dp_rank dp) < length (ds_banks s)" "unat (dp_bank dp) < length (ds_banks s ! unat (dp_rank dp))"
    "get_bank s (unat (dp_rank dp)) (unat (dp_bank dp)) = Inr (bank_at s dp)" "bank_wf (bank_at s dp)"
    "vec_get (bk_openRow (bank_at s dp)) (dp_rowbuf dp) = Inr (bk_openRow (bank_at s dp) ! dp_rowbuf dp)"
  using assms dram_wf_bank [of "cf_geom c" "cf_timing c" s "unat (dp_rank dp)" "unat (dp_bank dp)"]
  by (auto simp: banks_ok_def dp_wf_def bank_at_def bank_wf_def)

lemma prechargeBank_banks:
  assumes "banks_ok c s" "dp_wf c dp" "bk_openRow (bank_at s dp) ! dp_rowbuf dp \<noteq> NO_ROW"
  shows "\<exists>s'. prechargeBank (cf_timing c) (unat (dp_rank dp)) (unat (dp_bank dp)) (dp_rowbuf dp) t s = Inr s' \<and> banks_ok c s' \<and>
    bank_at s' dp = precharged (cf_timing c) t (dp_rowbuf dp) (bank_at s dp) \<and>
    ds_banks s' = (ds_banks s)[unat (dp_rank dp) := (ds_banks s ! unat (dp_rank dp))[unat (dp_bank dp) := bank_at s' dp]]"
proof -
  note r = banks_ok_range [OF assms(1,2)]
  obtain s' where s': "prechargeBank (cf_timing c) (unat (dp_rank dp)) (unat (dp_bank dp)) (dp_rowbuf dp) t s = Inr s'"
    "dram_wf (cf_geom c) (cf_timing c) s'"
    using prechargeBank_ok [of "cf_geom c" "cf_timing c" s "unat (dp_rank dp)" "unat (dp_bank dp)" "dp_rowbuf dp" t] assms
    by (auto simp: banks_ok_def dp_wf_def bank_at_def)
  note e = prechargeBank_effect [OF s'(1), folded bank_at_def]
  have b: "bank_at s' dp = precharged (cf_timing c) t (dp_rowbuf dp) (bank_at s dp)"
    using r(1,2) by (simp add: bank_at_def e)
  have "acts_ok (cf_timing c) s'"
    using acts_ok_bank [OF _ r(1) _ e] assms(1) by (auto simp: banks_ok_def precharged_def bank_at_def)
  with s' b e show ?thesis by (simp add: banks_ok_def)
qed

lemma acts_ok_activate:
  assumes "acts_ok tm s" "rank < length (ds_banks s)" "bank < length (ds_banks s ! rank)" "rank < length (ds_actTicks s)"
    and "bk_actAllowedAt (ds_banks s ! rank ! bank) \<le> t" "activateBank g tm t rank bank row rowbuf s = Inr s'"
  shows "acts_ok tm s'"
proof -
  let ?ts = "ds_actTicks s ! rank" let ?rk = "(ds_banks s ! rank)[bank := activated tm t row rowbuf (ds_banks s ! rank ! bank)]"
  obtain d ts where e: "ds_banks s' = (ds_banks s)[rank := map (delayed d) ?rk]" "ds_actTicks s' = (ds_actTicks s)[rank := ts]"
    "t + dt_tRRD tm \<le> d" "if ?ts = [] then ts = []
     else ts = t # butlast ?ts \<and> (in_window t (last ts) (dt_tXAW tm) \<longrightarrow> last ts + dt_tXAW tm \<le> d)"
    using activateBank_effect [OF assms(6,2)] by blast
  have ok: "rank_ok tm ?ts (ds_banks s ! rank)" using assms(1,2) by (simp add: acts_ok_def)
  have "rank_ok tm ts (map (delayed d) ?rk)"
  proof (cases "?ts = []")
    case True then show ?thesis using e(4) by (simp add: rank_ok_def)
  next
    case False
    then have t: "ts = t # butlast ?ts" "in_window t (last ts) (dt_tXAW tm) \<longrightarrow> last ts + dt_tXAW tm \<le> d" using e(4) unfolding if_not_P [OF False] by blast+
    show ?thesis unfolding t(1) using rank_ok_activate [OF ok assms(3,5) e(3) False t(2) [unfolded t(1)]] .
  qed
  moreover have "rank_ok tm (ds_actTicks s ! k) (ds_banks s ! k)" if "k < length (ds_banks s)" for k
    using assms(1) that by (simp add: acts_ok_def)
  ultimately show ?thesis unfolding acts_ok_def e(1,2) using assms(2,4) by (metis length_list_update nth_list_update)
qed

lemma activateBank_banks:
  assumes "banks_ok c s" "dp_wf c dp" "bk_openRow (bank_at s dp) ! dp_rowbuf dp = NO_ROW" "bk_actAllowedAt (bank_at s dp) \<le> t"
  shows "\<exists>s'. activateBank (cf_geom c) (cf_timing c) t (unat (dp_rank dp)) (unat (dp_bank dp)) (dp_row dp) (dp_rowbuf dp) s = Inr s' \<and>
    banks_ok c s' \<and> bk_colAllowedAt (bank_at s' dp) = t + dt_tRCD (cf_timing c) \<and>
    bk_preAllowedAt (bank_at s' dp) = t + dt_tRAS (cf_timing c) \<and> bk_openRow (bank_at s' dp) ! dp_rowbuf dp = ucast (dp_row dp)"
proof -
  let ?r = "unat (dp_rank dp)" and ?k = "unat (dp_bank dp)" and ?tm = "cf_timing c"
  note r = banks_ok_range [OF assms(1,2)]
  have ok: "acts_ok ?tm s" "dram_wf (cf_geom c) ?tm s" using assms(1) by (simp_all add: banks_ok_def)
  have rk: "rank_ok ?tm (ds_actTicks s ! ?r) (ds_banks s ! ?r)" using ok(1) r(1) by (simp add: acts_ok_def)
  have "bank_at s dp \<in> set (ds_banks s ! ?r)" using r(2) by (simp add: bank_at_def)
  then have "\<not> in_window t (last (ds_actTicks s ! ?r)) (dt_tXAW ?tm)" if "ds_actTicks s ! ?r \<noteq> []"
    using rank_ok_window [OF rk _ assms(4) that] by blast
  then obtain s' where s': "activateBank (cf_geom c) ?tm t ?r ?k (dp_row dp) (dp_rowbuf dp) s = Inr s'" "dram_wf (cf_geom c) ?tm s'"
    using activateBank_ok [OF ok(2), of ?r ?k "dp_rowbuf dp" t "dp_row dp"] assms(2,3) by (auto simp: dp_wf_def bank_at_def)
  obtain d where d: "ds_banks s' = (ds_banks s)[?r := map (delayed d) ((ds_banks s ! ?r)[?k := activated ?tm t (dp_row dp) (dp_rowbuf dp) (ds_banks s ! ?r ! ?k)])]"
    using activateBank_effect [OF s'(1) r(1)] by blast
  have b: "bank_at s' dp = delayed d (activated ?tm t (dp_row dp) (dp_rowbuf dp) (bank_at s dp))"
    using r(1,2) by (simp add: bank_at_def d)
  have "?r < length (ds_actTicks s)" using ok(2) assms(2) by (simp add: dram_wf_def dp_wf_def)
  then have "acts_ok ?tm s'" using acts_ok_activate [OF ok(1) r(1,2) _ _ s'(1)] assms(4) by (simp add: bank_at_def)
  moreover have "dp_rowbuf dp < length (bk_openRow (bank_at s dp))" using r(4) assms(2) by (simp add: bank_wf_def dp_wf_def)
  ultimately show ?thesis using s' b by (simp add: banks_ok_def activated_def)
qed

text \<open>The row is open after \<open>open_row\<close>, and the column command waits for it.\<close>

lemma open_row_ok:
  assumes "banks_ok c s" "dp_wf c dp"
  shows "\<exists>hit cmd s'. open_row c now dp s = Inr (hit, cmd, s') \<and> banks_ok c s' \<and> now \<le> cmd \<and> bk_colAllowedAt (bank_at s' dp) \<le> cmd \<and>
    bk_openRow (bank_at s' dp) ! dp_rowbuf dp = ucast (dp_row dp) \<and> (\<not> hit \<longrightarrow> now + dt_tRCD (cf_timing c) \<le> cmd) \<and>
    (hit \<longleftrightarrow> bk_openRow (bank_at s dp) ! dp_rowbuf dp = ucast (dp_row dp))"
proof -
  let ?r = "unat (dp_rank dp)" and ?k = "unat (dp_bank dp)" and ?tm = "cf_timing c"
  note r = banks_ok_range [OF assms]
  show ?thesis
  proof (cases "bk_openRow (bank_at s dp) ! dp_rowbuf dp = ucast (dp_row dp)")
    case True
    then show ?thesis
      using r assms(1) by (intro exI [of _ True] exI [of _ "max (bk_colAllowedAt (bank_at s dp)) now"] exI [of _ s])
        (simp add: open_row_def Let_def)
  next
    case False
    obtain s1 where 1: "(if bk_openRow (bank_at s dp) ! dp_rowbuf dp \<noteq> NO_ROW
        then prechargeBank ?tm ?r ?k (dp_rowbuf dp) (max (bk_preAllowedAt (bank_at s dp)) now) s else Inr s) = Inr s1"
      "banks_ok c s1" "bk_openRow (bank_at s1 dp) ! dp_rowbuf dp = NO_ROW"
    proof (cases "bk_openRow (bank_at s dp) ! dp_rowbuf dp = NO_ROW")
      case True with that [of s] assms(1) show thesis by simp
    next
      case False
      obtain s1 where "prechargeBank ?tm ?r ?k (dp_rowbuf dp) (max (bk_preAllowedAt (bank_at s dp)) now) s = Inr s1" "banks_ok c s1"
        "bank_at s1 dp = precharged ?tm (max (bk_preAllowedAt (bank_at s dp)) now) (dp_rowbuf dp) (bank_at s dp)"
        using prechargeBank_banks [OF assms False] by blast
      moreover have "dp_rowbuf dp < length (bk_openRow (bank_at s dp))" using r(4) assms(2) by (simp add: bank_wf_def dp_wf_def)
      ultimately show thesis using that [of s1] False by (simp add: precharged_def)
    qed
    note r1 = banks_ok_range [OF 1(2) assms(2)]
    let ?t = "max (bk_actAllowedAt (bank_at s1 dp)) now"
    obtain s2 where 2: "activateBank (cf_geom c) ?tm ?t ?r ?k (dp_row dp) (dp_rowbuf dp) s1 = Inr s2" "banks_ok c s2"
      "bk_colAllowedAt (bank_at s2 dp) = ?t + dt_tRCD ?tm" "bk_openRow (bank_at s2 dp) ! dp_rowbuf dp = ucast (dp_row dp)"
      using activateBank_banks [OF 1(2) assms(2) 1(3) max.cobounded1] by blast
    note r2 = banks_ok_range [OF 2(2) assms(2)]
    have "open_row c now dp s = Inr (False, ?t + dt_tRCD ?tm, s2)"
      using False 2(3) unfolding open_row_def Let_def r(3,5) rbind_Inr if_not_P [OF False] 1(1) r1(3) 2(1) r2(3) by simp
    then show ?thesis using 2(2-4) False by (intro exI [of _ False] exI [of _ "?t + dt_tRCD ?tm"] exI [of _ s2]) simp
  qed
qed

section \<open>Accounting of a burst\<close>

definition stat_step :: "(dram_ctrl \<Rightarrow> dram_ctrl result) \<Rightarrow> bool" where
  "stat_step f = (\<forall>mc. counters_ok mc \<longrightarrow> (\<exists>mc'. f mc = Inr mc' \<and> stats_only mc mc'))"

lemma stat_step_bind: "stat_step f \<Longrightarrow> stat_step g \<Longrightarrow> stat_step (\<lambda>mc. rbind (f mc) g)"
  unfolding stat_step_def by (metis rbind_Inr stats_onlyD(1) stats_only_trans)

lemma stat_step_id: "stat_step Inr"
  by (simp add: stat_step_def stats_only_refl)

lemma stat_step_if: "stat_step f \<Longrightarrow> stat_step g \<Longrightarrow> stat_step (\<lambda>mc. if b then f mc else g mc)"
  by (simp add: stat_step_def)

lemma stat_step_dp: "stat_step (pard_stats_dp dp s f)"
  unfolding stat_step_def
proof (intro allI impI)
  fix mc assume ok: "counters_ok mc"
  then obtain r where r: "pard_stat_upd (QOSTAG_TO_LDOMID (dp_qosTag dp)) s f (mc_cp mc) = Inr r" "cp_ok r" "dc_params r = dc_params (mc_cp mc)"
    using pard_stat_upd_ok [of "mc_cp mc"] unfolding counters_ok_def by blast
  have "stats_only mc (mc\<lparr>mc_cp := r\<rparr>)"
    unfolding stats_only_def using r ok by (intro exI [of _ r] exI [of _ "mc_perLDom mc"]) (simp add: counters_ok_def)
  with r(1) show "\<exists>mc'. pard_stats_dp dp s f mc = Inr mc' \<and> stats_only mc mc'" by (simp add: pard_stats_dp_def)
qed

lemma stat_step_ldom: "unat (QOSTAG_TO_LDOMID tag) < 4 \<Longrightarrow> stat_step (ldom_add tag s n)"
  unfolding stat_step_def using ldom_add_ok by blast

lemmas stat_steps = stat_step_bind stat_step_id stat_step_if stat_step_dp stat_step_ldom

lemma account_burst_ok:
  assumes "counters_ok mc" "dp_wf c dp"
  shows "\<exists>n w mc'. account_burst c dp hit cmd_at mc = Inr mc' \<and> stats_only (mc\<lparr>mc_readsThisTime := n, mc_writesThisTime := w\<rparr>) mc'"
proof -
  have d: "unat (QOSTAG_TO_LDOMID (dp_qosTag dp)) < 4" using assms(2) by (simp add: dp_wf_def)
  have k: "counters_ok (mc\<lparr>mc_readsThisTime := n, mc_writesThisTime := w\<rparr>)" for n w using assms(1) by (simp add: counters_ok_def)
  show ?thesis
  proof (cases "dp_isRead dp")
    case True
    let ?m = "mc\<lparr>mc_readsThisTime := mc_readsThisTime mc + 1, mc_writesThisTime := mc_writesThisTime mc\<rparr>"
    let ?f = "\<lambda>mc. rbind (if hit then rbind (pard_stats_dp dp S_readRowHits (\<lambda>v. v + 1) mc) (ldom_add (dp_qosTag dp) L_readRowHits 1) else Inr mc) (\<lambda>mc1.
        rbind (pard_stats_dp dp S_bytesReadDRAM (\<lambda>v. v + of_nat (dg_burstSize (cf_geom c))) mc1) (\<lambda>mc2.
        rbind (pard_stats_dp dp S_totMemAccLat (\<lambda>v. v + of_nat (tick_sub (dp_readyTime dp) (dp_entryTime dp))) mc2) (\<lambda>mc3.
        rbind (pard_stats_dp dp S_totBusLat (\<lambda>v. v + of_nat (cf_tBURST c)) mc3) (\<lambda>mc4.
        rbind (pard_stats_dp dp S_totQLat (\<lambda>v. v + of_nat (tick_sub cmd_at (dp_entryTime dp))) mc4) (\<lambda>mc5.
        rbind (ldom_add (dp_qosTag dp) L_totMemAccLat (tick_sub (dp_readyTime dp) (dp_entryTime dp)) mc5)
          (ldom_add (dp_qosTag dp) L_totQLat (tick_sub cmd_at (dp_entryTime dp))))))))"
    have "stat_step ?f" by (intro stat_steps d)
    then obtain mc' where "?f ?m = Inr mc'" "stats_only ?m mc'" using k unfolding stat_step_def by blast
    moreover have "account_burst c dp hit cmd_at mc = ?f ?m" using True by (simp add: account_burst_def Let_def)
    ultimately show ?thesis
      by (intro exI [of _ "mc_readsThisTime mc + 1"] exI [of _ "mc_writesThisTime mc"] exI [of _ mc'] conjI) (simp only:, assumption)
  next
    case False
    let ?m = "mc\<lparr>mc_readsThisTime := mc_readsThisTime mc, mc_writesThisTime := mc_writesThisTime mc + 1\<rparr>"
    let ?f = "\<lambda>mc. rbind (if hit then rbind (pard_stats_dp dp S_writeRowHits (\<lambda>v. v + 1) mc) (ldom_add (dp_qosTag dp) L_writeRowHits 1) else Inr mc)
        (\<lambda>mc1. pard_stats_dp dp S_bytesWritten (\<lambda>v. v + of_nat (dg_burstSize (cf_geom c))) mc1)"
    have "stat_step ?f" by (intro stat_steps d)
    then obtain mc' where "?f ?m = Inr mc'" "stats_only ?m mc'" using k unfolding stat_step_def by blast
    moreover have "account_burst c dp hit cmd_at mc = ?f ?m" using False by (simp add: account_burst_def Let_def)
    ultimately show ?thesis
      by (intro exI [of _ "mc_readsThisTime mc"] exI [of _ "mc_writesThisTime mc + 1"] exI [of _ mc'] conjI) (simp only:, assumption)
  qed
qed

section \<open>One burst on the bus\<close>

text \<open>What an access to the device changes of the controller.\<close>

definition accessed :: "dram_ctrl \<Rightarrow> dram_ctrl \<Rightarrow> bool" where
  "accessed mc mc' =
     (\<exists>r s v n w t u. mc' = mc\<lparr>mc_cp := r, mc_dram := s, mc_perLDom := v, mc_readsThisTime := n, mc_writesThisTime := w,
        mc_busBusyUntil := t, mc_nextReqTime := u\<rparr> \<and> dc_params r = dc_params (mc_cp mc) \<and> cp_ok r \<and> ldom_ok v)"

lemma accessedD:
  assumes "accessed mc mc'"
  shows "mc_readQueue mc' = mc_readQueue mc" "mc_writeQueue mc' = mc_writeQueue mc" "mc_respQueue mc' = mc_respQueue mc"
    "mc_helpers mc' = mc_helpers mc" "mc_mem mc' = mc_mem mc" "mc_port mc' = mc_port mc" "mc_respondEvent mc' = mc_respondEvent mc"
    "mc_nextReqEvent mc' = mc_nextReqEvent mc" "mc_busState mc' = mc_busState mc" "counters_ok mc'"
    "dc_params (mc_cp mc') = dc_params (mc_cp mc)" "mc_drainManager mc' = mc_drainManager mc" "mc_retryWrReq mc' = mc_retryWrReq mc"
    "mc_refreshState mc' = mc_refreshState mc" "mc_retryRdReq mc' = mc_retryRdReq mc" "mc_refreshEvent mc' = mc_refreshEvent mc"
  using assms unfolding accessed_def counters_ok_def by auto

lemma banks_ok_put_at:
  assumes "banks_ok c s" "rank < dg_ranksPerChannel (cf_geom c)" "bank < dg_banksPerRank (cf_geom c)"
    and "bk_openRow b = bk_openRow (ds_banks s ! rank ! bank)" "bk_numRowsActive b = bk_numRowsActive (ds_banks s ! rank ! bank)"
    and "bk_actAllowedAt (ds_banks s ! rank ! bank) \<le> bk_actAllowedAt b"
  shows "banks_ok c (put_bank rank bank b s)"
proof -
  have ok: "acts_ok (cf_timing c) s" "dram_wf (cf_geom c) (cf_timing c) s" using assms(1) by (simp_all add: banks_ok_def)
  note D = dram_wf_bank [OF ok(2) assms(2,3)]
  have "bank_wf b" using D(2) assms(4,5) by (simp add: bank_wf_def open_rows_def)
  then have "dram_wf (cf_geom c) (cf_timing c) (put_bank rank bank b (s\<lparr>ds_numBanksActive := ds_numBanksActive s\<rparr>))"
    using put_bank_wf [OF ok(2) assms(2,3), of b "ds_numBanksActive s"] assms(5) by simp
  moreover have "acts_ok (cf_timing c) (put_bank rank bank b s)"
    using acts_ok_bank [OF ok(1) D(3), of bank b "put_bank rank bank b s"] assms(6) by (simp add: put_bank_def)
  ultimately show ?thesis by (simp add: banks_ok_def)
qed

lemma banks_ok_put:
  assumes "banks_ok c s" "dp_wf c dp" "bk_openRow b = bk_openRow (bank_at s dp)" "bk_numRowsActive b = bk_numRowsActive (bank_at s dp)"
    and "bk_actAllowedAt (bank_at s dp) \<le> bk_actAllowedAt b"
  shows "banks_ok c (put_bank (unat (dp_rank dp)) (unat (dp_bank dp)) b s)"
    "bank_at (put_bank (unat (dp_rank dp)) (unat (dp_bank dp)) b s) dp = b"
proof -
  show "banks_ok c (put_bank (unat (dp_rank dp)) (unat (dp_bank dp)) b s)"
    using banks_ok_put_at [OF assms(1), of "unat (dp_rank dp)" "unat (dp_bank dp)" b] assms(2-5) by (simp add: dp_wf_def bank_at_def)
  show "bank_at (put_bank (unat (dp_rank dp)) (unat (dp_bank dp)) b s) dp = b"
    using banks_ok_range(1,2) [OF assms(1,2)] by (simp add: bank_at_def put_bank_def)
qed

lemma doDRAMAccess_ok:
  assumes ok: "counters_ok mc" "banks_ok c (mc_dram mc)" "dp_wf c dp" and bus: "cf_tCL c \<le> mc_busBusyUntil mc"
  shows "\<exists>t mc'. doDRAMAccess c now dp mc = Inr (dp\<lparr>dp_readyTime := t\<rparr>, mc') \<and> accessed mc mc' \<and> banks_ok c (mc_dram mc') \<and>
    mc_busBusyUntil mc + cf_tBURST c \<le> t \<and> now + cf_tCL c + cf_tBURST c \<le> t \<and> mc_busBusyUntil mc' = t \<and>
    mc_nextReqTime mc' = tick_sub t (dt_tRP (cf_timing c) + dt_tRCD (cf_timing c) + cf_tCL c)"
proof -
  let ?r = "unat (dp_rank dp)" and ?k = "unat (dp_bank dp)" and ?tm = "cf_timing c" and ?busy = "mc_busBusyUntil mc"
  obtain hit cmd0 s1 where o: "open_row c now dp (mc_dram mc) = Inr (hit, cmd0, s1)" "banks_ok c s1" "now \<le> cmd0"
    "bk_openRow (bank_at s1 dp) ! dp_rowbuf dp = ucast (dp_row dp)"
    using open_row_ok [OF ok(2,3), of now] by blast
  note r = banks_ok_range [OF o(2) ok(3)]
  define cmd where "cmd = max cmd0 (tick_sub ?busy (cf_tCL c))"
  define t where "t = cmd + cf_tCL c + cf_tBURST c"
  let ?b = "bank_at s1 dp"
  define b1 where "b1 = ?b\<lparr>bk_colAllowedAt := cmd + cf_tBURST c,
                   bk_preAllowedAt := max (bk_preAllowedAt ?b) (if dp_isRead dp then cmd + cf_tRTP c else t + cf_tWR c),
                   bk_bytesAccessed := bk_bytesAccessed ?b + dg_burstSize (cf_geom c), bk_rowAccesses := bk_rowAccesses ?b + 1\<rparr>"
  have "?busy - cf_tCL c \<le> cmd" using bus by (simp add: cmd_def tick_sub_def)
  then have t: "?busy + cf_tBURST c \<le> t" "now + cf_tCL c + cf_tBURST c \<le> t" using bus o(3) by (simp_all add: t_def cmd_def)
  then have free: "cf_tBURST c \<le> tick_sub t ?busy" by (simp add: tick_sub_def)
  have put: "banks_ok c (put_bank ?r ?k b1 s1)" "bank_at (put_bank ?r ?k b1 s1) dp = b1"
    using banks_ok_put [OF o(2) ok(3), of b1] by (simp_all add: b1_def)
  have "bk_openRow (bank_at (put_bank ?r ?k b1 s1) dp) ! dp_rowbuf dp \<noteq> NO_ROW"
    using o(4) put(2) ucast_row_not_NO_ROW by (simp add: b1_def)
  then obtain s3 where s3: "(if auto_precharge c dp b1 (if dp_isRead dp then mc_readQueue mc else mc_writeQueue mc)
      then prechargeBank ?tm ?r ?k (dp_rowbuf dp) (max now (bk_preAllowedAt b1)) (put_bank ?r ?k b1 s1)
      else Inr (put_bank ?r ?k b1 s1)) = Inr s3" "banks_ok c s3"
    using prechargeBank_banks [OF put(1) ok(3)] put(1) by (metis (full_types))
  let ?m = "mc\<lparr>mc_dram := s3, mc_busBusyUntil := t, mc_nextReqTime := tick_sub t (dt_tRP ?tm + dt_tRCD ?tm + cf_tCL c)\<rparr>"
  have "counters_ok ?m" "dp_wf c (dp\<lparr>dp_readyTime := t\<rparr>)" using ok by (simp_all add: counters_ok_def dp_wf_def)
  then obtain n w mc' where a: "account_burst c (dp\<lparr>dp_readyTime := t\<rparr>) hit cmd ?m = Inr mc'"
    "stats_only (?m\<lparr>mc_readsThisTime := n, mc_writesThisTime := w\<rparr>) mc'"
    using account_burst_ok by blast
  have e: "doDRAMAccess c now dp mc = Inr (dp\<lparr>dp_readyTime := t\<rparr>, mc')"
    unfolding doDRAMAccess_def Let_def o(1) rbind_Inr prod.case cmd_def [symmetric] t_def [symmetric] rbind_assert if_P [OF free] r(3) b1_def [symmetric]
      s3(1) a(1) ..
  obtain q v where q: "mc' = ?m\<lparr>mc_readsThisTime := n, mc_writesThisTime := w, mc_cp := q, mc_perLDom := v\<rparr>" "dc_params q = dc_params (mc_cp mc)" "cp_ok q" "ldom_ok v"
    using a(2) unfolding stats_only_def by auto
  have "accessed mc mc'" unfolding accessed_def
    using q by (intro exI [of _ q] exI [of _ s3] exI [of _ v] exI [of _ n] exI [of _ w] exI [of _ t] exI [of _ "tick_sub t (dt_tRP ?tm + dt_tRCD ?tm + cf_tCL c)"]) simp
  then show ?thesis using e q(1) s3(2) t by (intro exI [of _ t] exI [of _ mc']) simp
qed

lemma chooseNext_ok:
  assumes "banks_ok c s" "cp_ok r" "list_all (dp_wf c) q" "q \<noteq> []"
  shows "\<exists>q'. chooseNext pol r tRP now (ds_banks s) q = Inr q' \<and> mset q' = mset q \<and> q' \<noteq> []"
proof -
  have "request_wf r (ds_banks s) dp" if "dp \<in> set q" for dp
  proof -
    have w: "dp_wf c dp" using assms(3) that by (simp add: list_all_iff)
    note b = banks_ok_range [OF assms(1) w]
    show ?thesis using b w assms(2) by (simp add: request_wf_def dp_wf_def bank_wf_def bank_at_def cp_ok_def dram_cp_wf_def NUM_PARAM_ROWS_def)
  qed
  then have wf: "list_all (request_wf r (ds_banks s)) q" by (simp add: list_all_iff)
  obtain k where k: "k < length q" "reorderQueue r tRP now (ds_banks s) q = Inr (move_front k q)"
    using reorderQueue_total [OF wf assms(4)] by blast
  have "mset (move_front k q) = mset q" by (rule mset_move_front [OF k(1)])
  moreover have "move_front k q \<noteq> []" by (simp add: move_front_def)
  ultimately show ?thesis
    using assms(4) k(2) by (cases pol) (auto simp: chooseNext_def rbind_assert)
qed

section \<open>Serving a read\<close>

lemma helpers_ok_ready: "helpers_ok hs (dp\<lparr>dp_readyTime := t\<rparr> # q) = helpers_ok hs (dp # q)"
proof -
  have "shared_packets (dp\<lparr>dp_readyTime := t\<rparr> # q) = shared_packets (dp # q)" by (simp add: shared_packets_def)
  then show ?thesis by (simp add: helpers_ok_def)
qed

lemma outstanding_ready: "outstanding hs (dp\<lparr>dp_readyTime := t\<rparr> # q) = outstanding hs (dp # q)"
  by (simp add: outstanding_def)

text \<open>A burst moves from the read queue to the end of the response queue.\<close>

lemma read_served:
  assumes inv: "mc_inv c n now mc"
    and same: "counters_ok mc'" "mc_mem mc' = mc_mem mc" "mc_port mc' = mc_port mc" "mc_writeQueue mc' = mc_writeQueue mc" "mc_helpers mc' = mc_helpers mc"
    and moved: "mset (mc_readQueue mc) = mset (dp # mc_readQueue mc')" "mc_respQueue mc' = mc_respQueue mc @ [dp\<lparr>dp_readyTime := t\<rparr>]"
    and order: "list_all (\<lambda>x. dp_readyTime x \<le> t) (mc_respQueue mc)" "respond_armed now (mc_respQueue mc') (mc_respondEvent mc')"
  shows "mc_inv c n now mc'" "owed mc' = owed mc"
proof -
  let ?dp = "dp\<lparr>dp_readyTime := t\<rparr>" let ?q = "mc_readQueue mc' @ mc_respQueue mc"
  have m: "mset (mc_readQueue mc @ mc_respQueue mc) = mset (dp # ?q)" "mset (mc_readQueue mc' @ mc_respQueue mc') = mset (?dp # ?q)"
    using moved by simp_all
  have l: "length (mc_readQueue mc) = Suc (length (mc_readQueue mc'))" using moved(1) by (metis length_Cons size_mset)
  have s: "set (mc_readQueue mc) = insert dp (set (mc_readQueue mc'))" using arg_cong [OF moved(1), of set_mset] by simp
  have h: "helpers_ok (mc_helpers mc) (mc_readQueue mc' @ mc_respQueue mc')"
    using inv helpers_ok_mset [OF m(1), of "mc_helpers mc"] helpers_ok_mset [OF m(2), of "mc_helpers mc"] by (simp add: mc_inv_def helpers_ok_ready)
  have "read_ready c n (me_range (mc_mem mc)) dp" "list_all (read_ready c n (me_range (mc_mem mc))) ?q"
    using inv s by (auto simp: mc_inv_def list_all_iff)
  then have r: "list_all (read_ready c n (me_range (mc_mem mc))) (mc_readQueue mc' @ mc_respQueue mc')"
    using moved(2) by (simp add: read_ready_def dp_wf_def)
  have o: "sorted (map dp_readyTime (mc_respQueue mc'))"
    using inv order(1) moved(2) by (auto simp: mc_inv_def sorted_append list_all_iff)
  show "mc_inv c n now mc'"
    using inv same order(2) l h r o arg_cong [OF moved(2), of length] by (simp add: mc_inv_def)
  show "owed mc' = owed mc"
    using same outstanding_mset [OF m(1), of "mc_helpers mc"] outstanding_mset [OF m(2), of "mc_helpers mc"] by (simp add: owed_def outstanding_ready)
qed

lemma push_response_ok:
  assumes "respond_armed now (mc_respQueue mc) (mc_respondEvent mc)" "now \<le> dp_readyTime dp"
    and "list_all (\<lambda>x. dp_readyTime x \<le> dp_readyTime dp) (mc_respQueue mc)"
  shows "\<exists>e. push_response now dp mc = Inr (mc\<lparr>mc_respondEvent := e, mc_respQueue := mc_respQueue mc @ [dp]\<rparr>) \<and>
    respond_armed now (mc_respQueue mc @ [dp]) e"
proof (cases "mc_respQueue mc = []")
  case True
  then show ?thesis using assms(1,2)
    by (intro exI [of _ "Some (dp_readyTime dp)"]) (simp add: push_response_def sched_ev_def rbind_assert respond_armed_def)
next
  case False
  then have "dp_readyTime (last (mc_respQueue mc)) \<le> dp_readyTime dp" using assms(3) by (simp add: list_all_iff)
  moreover obtain x xs where x: "mc_respQueue mc = x # xs" using False by (cases "mc_respQueue mc") auto
  ultimately show ?thesis using assms(1)
    by (intro exI [of _ "mc_respondEvent mc"]) (simp add: push_response_def rbind_assert respond_armed_def)
qed

section \<open>The request loop\<close>

text \<open>
  The state of the bus between two events: the banks are well-formed, the bus is busy at least until the earliest
  column command after start-up can use it, no response is later than the last burst on the bus, the bus is
  turned to writes only with a write to serve, and a draining refresh has handed over to the request loop.
\<close>

definition bus_lead :: "dram_config \<Rightarrow> tick" where
  "bus_lead c = dt_tRP (cf_timing c) + dt_tRCD (cf_timing c) + cf_tCL c"

definition bus_inv :: "dram_config \<Rightarrow> dram_ctrl \<Rightarrow> bool" where
  "bus_inv c mc =
     (banks_ok c (mc_dram mc) \<and> bus_lead c \<le> mc_busBusyUntil mc \<and>
      list_all (\<lambda>dp. dp_readyTime dp \<le> mc_busBusyUntil mc) (mc_respQueue mc) \<and>
      (mc_busState mc \<in> {BUS_WRITE, BUS_READ_TO_WRITE} \<longrightarrow> mc_writeQueue mc \<noteq> []) \<and>
      (mc_refreshState mc = REF_DRAIN \<longrightarrow> mc_refreshEvent mc = None))"

text \<open>What a turn of the request loop leaves alone.\<close>

definition turn_frame :: "dram_ctrl \<Rightarrow> dram_ctrl \<Rightarrow> bool" where
  "turn_frame mc mc' =
     (mc_nextReqEvent mc' = mc_nextReqEvent mc \<and> mc_refreshState mc' = mc_refreshState mc \<and> mc_refreshEvent mc' = mc_refreshEvent mc \<and>
      mc_port mc' = mc_port mc \<and> mc_mem mc' = mc_mem mc \<and> mc_busBusyUntil mc \<le> mc_busBusyUntil mc')"

lemma turn_bus_simps:
  "mc_inv c n now (turn_bus c st d mc) = mc_inv c n now mc" "owed (turn_bus c st d mc) = owed mc"
  "mc_readQueue (turn_bus c st d mc) = mc_readQueue mc" "mc_writeQueue (turn_bus c st d mc) = mc_writeQueue mc"
  "mc_respQueue (turn_bus c st d mc) = mc_respQueue mc" "mc_busState (turn_bus c st d mc) = st"
  "mc_busBusyUntil (turn_bus c st d mc) = mc_busBusyUntil mc + d" "turn_frame mc (turn_bus c st d mc)"
  by (simp_all add: turn_bus_def mc_inv_def counters_ok_def owed_def turn_frame_def Let_def)

lemma turn_frame_trans: "turn_frame a b \<Longrightarrow> turn_frame b d \<Longrightarrow> turn_frame a d"
  by (simp add: turn_frame_def)

lemma bus_inv_turn:
  assumes "bus_inv c mc" "st \<in> {BUS_WRITE, BUS_READ_TO_WRITE} \<longrightarrow> mc_writeQueue mc \<noteq> []"
  shows "bus_inv c (turn_bus c st d mc)"
  using assms by (auto simp: bus_inv_def turn_bus_def Let_def list_all_iff)

lemma next_read_served:
  assumes inv: "mc_inv c n now mc" and bus: "bus_inv c mc" "mc_busState mc = BUS_READ" and ne: "mc_readQueue mc \<noteq> []"
  shows "\<exists>dp t mc'. next_read c now mc = Inr (True, mc') \<and> mc_inv c n now mc' \<and> bus_inv c mc' \<and> owed mc' = owed mc \<and> turn_frame mc mc' \<and>
    mset (mc_readQueue mc) = mset (dp # mc_readQueue mc') \<and> mc_respQueue mc' = mc_respQueue mc @ [dp\<lparr>dp_readyTime := t\<rparr>] \<and>
    mc_writeQueue mc' = mc_writeQueue mc \<and> mc_busBusyUntil mc + cf_tBURST c \<le> t \<and> now + cf_tCL c + cf_tBURST c \<le> t"
proof -
  have b: "banks_ok c (mc_dram mc)" "cf_tCL c \<le> mc_busBusyUntil mc" "counters_ok mc" "list_all (read_ready c n (me_range (mc_mem mc))) (mc_readQueue mc)"
    using inv bus by (simp_all add: bus_inv_def bus_lead_def mc_inv_def)
  then have "list_all (dp_wf c) (mc_readQueue mc)" "cp_ok (mc_cp mc)" by (simp_all add: list_all_iff read_ready_def counters_ok_def)
  then obtain q' where q': "chooseNext (cf_memSchedPolicy c) (mc_cp mc) (dt_tRP (cf_timing c)) now (ds_banks (mc_dram mc)) (mc_readQueue mc) = Inr q'"
    "mset q' = mset (mc_readQueue mc)" "q' \<noteq> []"
    using chooseNext_ok [OF b(1)] ne by metis
  then obtain dp q where q: "q' = dp # q" by (cases q') simp_all
  have dp: "dp \<in> set (mc_readQueue mc)" using arg_cong [OF q'(2), of set_mset] q by auto
  then have w: "dp_wf c dp" "dp_size dp \<le> burstSize c" using b(4) by (auto simp: list_all_iff read_ready_def)
  define m where "m = mc\<lparr>mc_readQueue := dp # q\<rparr>"
  have m: "counters_ok m" "mc_dram m = mc_dram mc" "mc_busBusyUntil m = mc_busBusyUntil mc" "mc_respQueue m = mc_respQueue mc"
    using b(3) by (simp_all add: m_def counters_ok_def)
  obtain t mc1 where a: "doDRAMAccess c now dp m = Inr (dp\<lparr>dp_readyTime := t\<rparr>, mc1)" "accessed m mc1" "banks_ok c (mc_dram mc1)"
    "mc_busBusyUntil mc + cf_tBURST c \<le> t" "now + cf_tCL c + cf_tBURST c \<le> t" "mc_busBusyUntil mc1 = t"
    using doDRAMAccess_ok [OF m(1) _ w(1), of now] b(1,2) unfolding m(2,3) by blast
  note d = accessedD [OF a(2), unfolded m_def, simplified]
  define mc2 where "mc2 = mc1\<lparr>mc_readQueue := q\<rparr>"
  let ?dp = "dp\<lparr>dp_readyTime := t\<rparr>"
  have r: "list_all (\<lambda>x. dp_readyTime x \<le> t) (mc_respQueue mc)"
    using bus(1) a(4) by (auto simp: bus_inv_def list_all_iff)
  have p: "respond_armed now (mc_respQueue mc2) (mc_respondEvent mc2)" "mc_respQueue mc2 = mc_respQueue mc"
    "list_all (\<lambda>x. dp_readyTime x \<le> dp_readyTime ?dp) (mc_respQueue mc2)" "now \<le> dp_readyTime ?dp"
    using inv d r a(5) by (simp_all add: mc_inv_def mc2_def)
  obtain e where e: "push_response now ?dp mc2 = Inr (mc2\<lparr>mc_respondEvent := e, mc_respQueue := mc_respQueue mc @ [?dp]\<rparr>)"
    "respond_armed now (mc_respQueue mc @ [?dp]) e"
    using push_response_ok [OF p(1,4,3)] unfolding p(2) by blast
  define mc3 where "mc3 = mc2\<lparr>mc_respondEvent := e, mc_respQueue := mc_respQueue mc @ [?dp]\<rparr>"
  have i: "mc_inv c n now mc3" "owed mc3 = owed mc"
    using read_served [OF inv, of mc3 dp t] d q q' e(2) r by (simp_all add: counters_ok_def mc3_def mc2_def)
  have bi: "bus_inv c mc3" using bus a d r by (simp add: bus_inv_def bus_lead_def mc3_def mc2_def)
  have f: "turn_frame mc mc3" "mc_readQueue mc3 = q" "mc_respQueue mc3 = mc_respQueue mc @ [?dp]" "mc_writeQueue mc3 = mc_writeQueue mc"
    using a(4,6) d by (simp_all add: turn_frame_def mc3_def mc2_def)
  let ?mc' = "if length (mc_writeQueue mc3) > cf_writeHighThreshold c then turn_bus c BUS_READ_TO_WRITE (cf_tRTW c) mc3 else mc3"
  have "next_read c now mc = Inr (True, ?mc')"
    using ne q' q a(1,5) d(1) w(2) e(1) by (simp add: next_read_def Let_def rbind_assert m_def mc2_def mc3_def)
  moreover have "mc_inv c n now ?mc' \<and> bus_inv c ?mc' \<and> owed ?mc' = owed mc \<and> turn_frame mc ?mc' \<and> mc_readQueue ?mc' = q \<and>
      mc_respQueue ?mc' = mc_respQueue mc @ [?dp] \<and> mc_writeQueue ?mc' = mc_writeQueue mc"
  proof (cases "length (mc_writeQueue mc3) > cf_writeHighThreshold c")
    case True
    then have "mc_writeQueue mc3 \<noteq> []" by auto
    then show ?thesis using True i bi d(2) turn_frame_trans [OF f(1) turn_bus_simps(8)] f bus_inv_turn [OF bi, of BUS_READ_TO_WRITE "cf_tRTW c"] by (simp add: turn_bus_simps)
  next
    case False then show ?thesis using i bi f by simp
  qed
  ultimately show ?thesis using q' q a(4,5)
    by (intro exI [of _ dp] exI [of _ t] exI [of _ ?mc']) simp
qed

lemma writes_ok_remove: "writes_ok c ws \<Longrightarrow> mset ws = mset (dp # ws') \<Longrightarrow> writes_ok c ws' \<and> dp_wf c dp \<and> dp_size dp \<le> burstSize c"
proof -
  assume w: "writes_ok c ws" and m: "mset ws = mset (dp # ws')"
  have "set ws = insert dp (set ws')" using arg_cong [OF m, of set_mset] by simp
  then show ?thesis using w by (auto simp: writes_ok_def list_all_iff write_wf_def)
qed

lemma next_write_served:
  assumes inv: "mc_inv c n now mc" and bus: "bus_inv c mc" "mc_busState mc = BUS_WRITE"
  shows "\<exists>dp mc'. next_write c now mc = Inr mc' \<and> mc_inv c n now mc' \<and> bus_inv c mc' \<and> owed mc' = owed mc \<and> turn_frame mc mc' \<and>
    mset (mc_writeQueue mc) = mset (dp # mc_writeQueue mc') \<and> mc_readQueue mc' = mc_readQueue mc \<and> mc_respQueue mc' = mc_respQueue mc \<and>
    mc_busBusyUntil mc + cf_tBURST c \<le> mc_busBusyUntil mc'"
proof -
  have b: "banks_ok c (mc_dram mc)" "cf_tCL c \<le> mc_busBusyUntil mc" "counters_ok mc" "writes_ok c (mc_writeQueue mc)" "mc_writeQueue mc \<noteq> []"
    using inv bus by (simp_all add: bus_inv_def bus_lead_def mc_inv_def)
  then have "list_all (dp_wf c) (mc_writeQueue mc)" "cp_ok (mc_cp mc)" by (simp_all add: writes_ok_def counters_ok_def)
  then obtain q' where q': "chooseNext (cf_memSchedPolicy c) (mc_cp mc) (dt_tRP (cf_timing c)) now (ds_banks (mc_dram mc)) (mc_writeQueue mc) = Inr q'"
    "mset q' = mset (mc_writeQueue mc)" "q' \<noteq> []"
    using chooseNext_ok [OF b(1)] b(5) by metis
  then obtain dp q where q: "q' = dp # q" by (cases q') simp_all
  have w: "writes_ok c q" "dp_wf c dp" "dp_size dp \<le> burstSize c" using writes_ok_remove [OF b(4)] q' q by metis+
  have l: "length (mc_writeQueue mc) = Suc (length q)" using q'(2) q by (metis length_Cons size_mset)
  define m where "m = mc\<lparr>mc_writeQueue := dp # q\<rparr>"
  have m: "counters_ok m" "mc_dram m = mc_dram mc" "mc_busBusyUntil m = mc_busBusyUntil mc" using b(3) by (simp_all add: m_def counters_ok_def)
  obtain t mc1 where a: "doDRAMAccess c now dp m = Inr (dp\<lparr>dp_readyTime := t\<rparr>, mc1)" "accessed m mc1" "banks_ok c (mc_dram mc1)"
    "mc_busBusyUntil mc + cf_tBURST c \<le> t" "mc_busBusyUntil mc1 = t"
    using doDRAMAccess_ok [OF m(1) _ w(2), of now] b(1,2) unfolding m(2,3) by blast
  note d = accessedD [OF a(2), unfolded m_def, simplified]
  define mc2 where "mc2 = mc1\<lparr>mc_writeQueue := q\<rparr>"
  have i: "mc_inv c n now mc2" "owed mc2 = owed mc" using inv d w(1) l by (simp_all add: mc_inv_def counters_ok_def mc2_def owed_def)
  have r: "list_all (\<lambda>x. dp_readyTime x \<le> t) (mc_respQueue mc)" using bus(1) a(4) by (auto simp: bus_inv_def list_all_iff)
  then have bi: "bus_inv c (mc2\<lparr>mc_busState := st\<rparr>)" if "st = BUS_WRITE_TO_READ \<or> q \<noteq> []" for st
    using that bus a d by (auto simp: bus_inv_def bus_lead_def mc2_def)
  have f: "turn_frame mc mc2" "mc_readQueue mc2 = mc_readQueue mc" "mc_respQueue mc2 = mc_respQueue mc" "mc_writeQueue mc2 = q"
    "mc_busBusyUntil mc2 = t" "mc_busState mc2 = BUS_WRITE"
    using a d bus(2) by (simp_all add: turn_frame_def mc2_def)
  let ?turn = "mc_writeQueue mc2 = [] \<or> length (mc_writeQueue mc2) + cf_minWritesPerSwitch c < cf_writeLowThreshold c \<and> \<not> mc_drainManager mc2 \<or>
               mc_readQueue mc2 \<noteq> [] \<and> mc_writesThisTime mc2 \<ge> cf_minWritesPerSwitch c"
  let ?mc' = "if ?turn then turn_bus c BUS_WRITE_TO_READ (cf_tWTR c + cf_tCL c) mc2 else mc2"
  have "next_write c now mc = Inr ?mc'"
    using q' q a(1) d(2) w(3) by (simp add: next_write_def Let_def rbind_assert m_def mc2_def)
  moreover have "mc_inv c n now ?mc' \<and> bus_inv c ?mc' \<and> owed ?mc' = owed mc \<and> turn_frame mc ?mc' \<and> mc_writeQueue ?mc' = q \<and>
      mc_readQueue ?mc' = mc_readQueue mc \<and> mc_respQueue ?mc' = mc_respQueue mc \<and> t \<le> mc_busBusyUntil ?mc'"
  proof (cases ?turn)
    case True
    have "turn_bus c BUS_WRITE_TO_READ k mc2 = turn_bus c BUS_WRITE_TO_READ k (mc2\<lparr>mc_busState := BUS_WRITE_TO_READ\<rparr>)" for k
      by (simp add: turn_bus_def Let_def)
    then have "bus_inv c (turn_bus c BUS_WRITE_TO_READ (cf_tWTR c + cf_tCL c) mc2)"
      using bus_inv_turn [OF bi [of BUS_WRITE_TO_READ], of BUS_WRITE_TO_READ "cf_tWTR c + cf_tCL c"] by simp
    then show ?thesis unfolding if_P [OF True] using i f turn_frame_trans [OF f(1) turn_bus_simps(8)] by (simp add: turn_bus_simps)
  next
    case False
    then have "bus_inv c (mc2\<lparr>mc_busState := BUS_WRITE\<rparr>)" using bi [of BUS_WRITE] f(4) by blast
    moreover have "mc2\<lparr>mc_busState := BUS_WRITE\<rparr> = mc2" using f(6) by simp
    ultimately show ?thesis unfolding if_not_P [OF False] using i f by simp
  qed
  ultimately show ?thesis using q' q a(4) by (intro exI [of _ dp] exI [of _ ?mc']) simp
qed

text \<open>With no read to serve the loop turns to the writes or stops.\<close>

lemma next_read_idle:
  assumes inv: "mc_inv c n now mc" and bus: "bus_inv c mc" "mc_busState mc = BUS_READ" and e: "mc_readQueue mc = []"
  shows "\<exists>go_on mc'. next_read c now mc = Inr (go_on, mc') \<and> mc_inv c n now mc' \<and> bus_inv c mc' \<and> owed mc' = owed mc \<and> turn_frame mc mc' \<and>
    mc_readQueue mc' = [] \<and> mc_writeQueue mc' = mc_writeQueue mc \<and> mc_respQueue mc' = mc_respQueue mc \<and>
    (go_on \<longrightarrow> mc_busState mc' = BUS_READ_TO_WRITE) \<and>
    (\<not> go_on \<longrightarrow> length (mc_writeQueue mc) \<le> cf_writeLowThreshold c \<and> (mc_drainManager mc \<longrightarrow> mc_writeQueue mc = []))"
proof (cases "mc_writeQueue mc \<noteq> [] \<and> (mc_drainManager mc \<or> length (mc_writeQueue mc) > cf_writeLowThreshold c)")
  case True
  then show ?thesis
    using e inv bus_inv_turn [OF bus(1), of BUS_READ_TO_WRITE "cf_tRTW c"]
    by (intro exI [of _ True] exI [of _ "turn_bus c BUS_READ_TO_WRITE (cf_tRTW c) mc"]) (simp add: next_read_def turn_bus_simps)
next
  case False
  let ?mc' = "if mc_respQueue mc = [] \<and> mc_drainManager mc then signalDrainDone mc else mc"
  have n: "next_read c now mc = Inr (False, ?mc')" using e unfolding next_read_def if_P [OF e] if_not_P [OF False] by simp
  have k: "mc_inv c n now ?mc'" "owed ?mc' = owed mc" using inv by (simp_all add: mc_inv_frame owed_frame)
  have "bus_inv c ?mc'" "turn_frame mc ?mc'" "mc_readQueue ?mc' = []" "mc_writeQueue ?mc' = mc_writeQueue mc" "mc_respQueue ?mc' = mc_respQueue mc"
    using bus e by (simp_all add: bus_inv_def turn_frame_def signalDrainDone_def)
  moreover have "length (mc_writeQueue mc) \<le> cf_writeLowThreshold c \<and> (mc_drainManager mc \<longrightarrow> mc_writeQueue mc = [])"
    using False by (cases "mc_writeQueue mc") auto
  ultimately show ?thesis using n k by (intro exI [of _ False] exI [of _ ?mc'] conjI) simp_all
qed

definition served_read :: "dram_config \<Rightarrow> dram_ctrl \<Rightarrow> dram_ctrl \<Rightarrow> bool" where
  "served_read c mc mc' =
     (\<exists>dp t. mset (mc_readQueue mc) = mset (dp # mc_readQueue mc') \<and> mc_respQueue mc' = mc_respQueue mc @ [dp\<lparr>dp_readyTime := t\<rparr>] \<and>
        mc_writeQueue mc' = mc_writeQueue mc \<and> mc_busBusyUntil mc + cf_tBURST c \<le> t \<and> t \<le> mc_busBusyUntil mc')"

definition served_write :: "dram_config \<Rightarrow> dram_ctrl \<Rightarrow> dram_ctrl \<Rightarrow> bool" where
  "served_write c mc mc' =
     (\<exists>dp. mset (mc_writeQueue mc) = mset (dp # mc_writeQueue mc') \<and> mc_readQueue mc' = mc_readQueue mc \<and>
        mc_respQueue mc' = mc_respQueue mc \<and> mc_busBusyUntil mc + cf_tBURST c \<le> mc_busBusyUntil mc')"

definition same_queues :: "dram_ctrl \<Rightarrow> dram_ctrl \<Rightarrow> bool" where
  "same_queues mc mc' =
     (mc_readQueue mc' = mc_readQueue mc \<and> mc_writeQueue mc' = mc_writeQueue mc \<and> mc_respQueue mc' = mc_respQueue mc)"

text \<open>The outcome of a turn of the request loop.\<close>

definition req_turn :: "dram_config \<Rightarrow> dram_ctrl \<Rightarrow> dram_ctrl \<Rightarrow> bool" where
  "req_turn c mc mc' =
     (mc_port mc' = mc_port mc \<and> (if mc_refreshState mc \<noteq> REF_IDLE then same_queues mc mc' \<and> mc_refreshState mc' \<noteq> REF_DRAIN \<and>
          (mc_refreshState mc = REF_DRAIN \<longrightarrow> mc_refreshEvent mc' \<noteq> None)
      else if mc_busState mc \<in> {BUS_WRITE, BUS_READ_TO_WRITE} then served_write c mc mc' \<and> mc_nextReqEvent mc' \<noteq> None
      else if mc_readQueue mc \<noteq> [] then served_read c mc mc' \<and> mc_nextReqEvent mc' \<noteq> None
      else same_queues mc mc' \<and>
          (mc_nextReqEvent mc' = None \<longrightarrow> length (mc_writeQueue mc) \<le> cf_writeLowThreshold c \<and> (mc_drainManager mc \<longrightarrow> mc_writeQueue mc = [])) \<and>
          (mc_nextReqEvent mc' \<noteq> None \<longrightarrow> mc_busState mc' = BUS_READ_TO_WRITE)))"

definition retry_writes :: "dram_config \<Rightarrow> dram_ctrl \<Rightarrow> dram_ctrl" where
  "retry_writes c mc =
     (if mc_retryWrReq mc \<and> length (mc_writeQueue mc) < cf_writeBufferSize c then sendRetry (mc\<lparr>mc_retryWrReq := False\<rparr>) else mc)"

lemma retry_writes_simps:
  "mc_inv c n now (retry_writes c mc) = mc_inv c n now mc" "owed (retry_writes c mc) = owed mc" "bus_inv c (retry_writes c mc) = bus_inv c mc"
  "mc_readQueue (retry_writes c mc) = mc_readQueue mc" "mc_writeQueue (retry_writes c mc) = mc_writeQueue mc"
  "mc_respQueue (retry_writes c mc) = mc_respQueue mc" "mc_busBusyUntil (retry_writes c mc) = mc_busBusyUntil mc"
  "mc_nextReqEvent (retry_writes c mc) = mc_nextReqEvent mc" "mc_busState (retry_writes c mc) = mc_busState mc"
  "mc_port (retry_writes c mc) = mc_port mc"
  by (simp_all add: retry_writes_def mc_inv_frame owed_frame) (simp_all add: bus_inv_def sendRetry_def)

lemma bus_inv_next: "bus_inv c (mc\<lparr>mc_nextReqEvent := e\<rparr>) = bus_inv c mc"
  by (simp add: bus_inv_def)

lemma bus_turned_simps:
  "mc_inv c n now (bus_turned mc) = mc_inv c n now mc" "owed (bus_turned mc) = owed mc" "bus_inv c mc \<Longrightarrow> bus_inv c (bus_turned mc)"
  "mc_readQueue (bus_turned mc) = mc_readQueue mc" "mc_writeQueue (bus_turned mc) = mc_writeQueue mc"
  "mc_respQueue (bus_turned mc) = mc_respQueue mc" "mc_busBusyUntil (bus_turned mc) = mc_busBusyUntil mc"
  "mc_nextReqEvent (bus_turned mc) = mc_nextReqEvent mc" "mc_refreshState (bus_turned mc) = mc_refreshState mc"
  "mc_refreshEvent (bus_turned mc) = mc_refreshEvent mc" "mc_drainManager (bus_turned mc) = mc_drainManager mc"
  "mc_port (bus_turned mc) = mc_port mc"
  "mc_busState (bus_turned mc) = (if mc_busState mc \<in> {BUS_WRITE, BUS_READ_TO_WRITE} then BUS_WRITE else BUS_READ)"
  by (cases "mc_busState mc"; simp add: bus_turned_def mc_inv_def counters_ok_def owed_def bus_inv_def)+

text \<open>The end of a turn: the next one is scheduled, and a write may be retried.\<close>

lemma reschedule_ok:
  assumes "mc_nextReqEvent mc = None"
  shows "rbind (sched_ev now (mc_nextReqEvent mc) (max (mc_nextReqTime mc) now)) (\<lambda>e.
      let mc3 = mc\<lparr>mc_nextReqEvent := e\<rparr> in
      Inr (if mc_retryWrReq mc3 \<and> length (mc_writeQueue mc3) < cf_writeBufferSize c then sendRetry (mc3\<lparr>mc_retryWrReq := False\<rparr>) else mc3))
    = Inr (retry_writes c (mc\<lparr>mc_nextReqEvent := Some (max (mc_nextReqTime mc) now)\<rparr>))"
  using assms by (simp add: sched_ev_def rbind_assert retry_writes_def Let_def)

lemma processNextReqEvent_refresh:
  assumes inv: "mc_inv c n now mc" and bus: "bus_inv c mc" and r: "mc_refreshState mc \<noteq> REF_IDLE"
  shows "\<exists>mc'. processNextReqEvent c now mc = Inr mc' \<and> mc_inv c n now mc' \<and> bus_inv c mc' \<and> owed mc' = owed mc \<and>
    mc_busBusyUntil mc' = mc_busBusyUntil mc \<and> req_turn c mc mc'"
proof -
  define m where "m = bus_turned (mc\<lparr>mc_nextReqEvent := None\<rparr>)"
  have m: "mc_inv c n now m" "bus_inv c m" "owed m = owed mc" "same_queues mc m" "mc_busBusyUntil m = mc_busBusyUntil mc" "mc_refreshState m = mc_refreshState mc"
    "mc_port m = mc_port mc"
    using inv bus by (simp_all add: m_def bus_turned_simps mc_inv_frame owed_frame bus_inv_next same_queues_def)
  show ?thesis
  proof (cases "mc_refreshState mc = REF_DRAIN")
    case True
    then have e: "mc_refreshEvent m = None" using m(2,6) by (simp add: bus_inv_def)
    let ?mc' = "m\<lparr>mc_refreshState := REF_PRE, mc_refreshEvent := Some now\<rparr>"
    have "processNextReqEvent c now mc = Inr ?mc'"
      using True e m(6) by (simp add: processNextReqEvent_def m_def [symmetric] sched_ev_def rbind_assert Let_def)
    moreover have "mc_inv c n now ?mc'" "owed ?mc' = owed mc" using m(1,3) by (simp_all add: mc_inv_def counters_ok_def owed_def)
    moreover have "bus_inv c ?mc'" "req_turn c mc ?mc'" "mc_busBusyUntil ?mc' = mc_busBusyUntil mc"
      using m True by (simp_all add: bus_inv_def req_turn_def same_queues_def)
    ultimately show ?thesis by blast
  next
    case False
    then have "processNextReqEvent c now mc = Inr m" using r m(6) by (simp add: processNextReqEvent_def m_def [symmetric] Let_def)
    moreover have "req_turn c mc m" using False r m(4,6,7) by (simp add: req_turn_def)
    ultimately show ?thesis using m by blast
  qed
qed

definition turn_start :: "dram_ctrl \<Rightarrow> dram_ctrl" where
  "turn_start mc = bus_turned (mc\<lparr>mc_nextReqEvent := None\<rparr>)"

definition turn_end :: "dram_config \<Rightarrow> tick \<Rightarrow> dram_ctrl \<Rightarrow> dram_ctrl" where
  "turn_end c now mc = retry_writes c (mc\<lparr>mc_nextReqEvent := Some (max (mc_nextReqTime mc) now)\<rparr>)"

lemma turn_start_simps:
  "mc_inv c n now (turn_start mc) = mc_inv c n now mc" "bus_inv c mc \<Longrightarrow> bus_inv c (turn_start mc)" "owed (turn_start mc) = owed mc"
  "mc_nextReqEvent (turn_start mc) = None" "mc_readQueue (turn_start mc) = mc_readQueue mc" "mc_writeQueue (turn_start mc) = mc_writeQueue mc"
  "mc_respQueue (turn_start mc) = mc_respQueue mc" "mc_busBusyUntil (turn_start mc) = mc_busBusyUntil mc"
  "mc_drainManager (turn_start mc) = mc_drainManager mc" "mc_refreshState (turn_start mc) = mc_refreshState mc"
  "mc_port (turn_start mc) = mc_port mc"
  "mc_busState (turn_start mc) = (if mc_busState mc \<in> {BUS_WRITE, BUS_READ_TO_WRITE} then BUS_WRITE else BUS_READ)"
  unfolding turn_start_def by (simp_all add: bus_turned_simps mc_inv_frame owed_frame bus_inv_next)

lemma turn_end_simps:
  "mc_inv c n now (turn_end c t mc) = mc_inv c n now mc" "bus_inv c (turn_end c t mc) = bus_inv c mc" "owed (turn_end c t mc) = owed mc"
  "mc_nextReqEvent (turn_end c t mc) \<noteq> None" "mc_readQueue (turn_end c t mc) = mc_readQueue mc" "mc_writeQueue (turn_end c t mc) = mc_writeQueue mc"
  "mc_respQueue (turn_end c t mc) = mc_respQueue mc" "mc_busBusyUntil (turn_end c t mc) = mc_busBusyUntil mc" "mc_busState (turn_end c t mc) = mc_busState mc"
  "mc_port (turn_end c t mc) = mc_port mc"
  unfolding turn_end_def by (simp_all add: retry_writes_simps mc_inv_frame owed_frame bus_inv_next)

lemma processNextReqEvent_turn:
  assumes "mc_refreshState mc = REF_IDLE"
    and "(if mc_busState (turn_start mc) = BUS_READ then next_read c now (turn_start mc)
          else rbind (next_write c now (turn_start mc)) (\<lambda>mc1. Inr (True, mc1))) = Inr (go_on, x)"
    and "turn_frame (turn_start mc) x"
  shows "processNextReqEvent c now mc = Inr (if go_on then turn_end c now x else x)"
proof -
  have n: "mc_nextReqEvent x = None" using assms(3) by (simp add: turn_frame_def turn_start_simps)
  have "mc_refreshState (turn_start mc) = REF_IDLE" using assms(1) by (simp add: turn_start_simps)
  then have "processNextReqEvent c now mc = (if \<not> go_on then Inr x else
      rbind (sched_ev now (mc_nextReqEvent x) (max (mc_nextReqTime x) now)) (\<lambda>e. let mc3 = x\<lparr>mc_nextReqEvent := e\<rparr> in
        Inr (if mc_retryWrReq mc3 \<and> length (mc_writeQueue mc3) < cf_writeBufferSize c then sendRetry (mc3\<lparr>mc_retryWrReq := False\<rparr>) else mc3)))"
    unfolding processNextReqEvent_def Let_def turn_start_def [symmetric] assms(2) rbind_Inr prod.case by simp
  then show ?thesis using reschedule_ok [OF n, of now c] by (simp add: turn_end_def)
qed

lemma write_turn:
  assumes inv: "mc_inv c n now mc" "bus_inv c mc" "mc_refreshState mc = REF_IDLE" and w: "mc_busState mc \<in> {BUS_WRITE, BUS_READ_TO_WRITE}"
  shows "\<exists>mc'. processNextReqEvent c now mc = Inr mc' \<and> mc_inv c n now mc' \<and> bus_inv c mc' \<and> owed mc' = owed mc \<and>
    mc_busBusyUntil mc \<le> mc_busBusyUntil mc' \<and> req_turn c mc mc'"
proof -
  let ?m = "turn_start mc"
  have m: "mc_inv c n now ?m" "bus_inv c ?m" "mc_busState ?m = BUS_WRITE" using inv w unfolding turn_start_simps by (auto intro: turn_start_simps)
  obtain dp x where x: "next_write c now ?m = Inr x" "mc_inv c n now x" "bus_inv c x" "owed x = owed ?m" "turn_frame ?m x"
    "mset (mc_writeQueue ?m) = mset (dp # mc_writeQueue x)" "mc_readQueue x = mc_readQueue ?m" "mc_respQueue x = mc_respQueue ?m"
    "mc_busBusyUntil ?m + cf_tBURST c \<le> mc_busBusyUntil x"
    using next_write_served [OF m] by blast
  have "processNextReqEvent c now mc = Inr (turn_end c now x)"
    using processNextReqEvent_turn [OF inv(3) _ x(5), where go_on = True] m(3) x(1) by simp
  moreover have "served_write c mc (turn_end c now x)"
    unfolding served_write_def turn_end_simps using x by (intro exI [of _ dp]) (simp add: turn_start_simps)
  ultimately show ?thesis using x w inv(3)
    by (intro exI [of _ "turn_end c now x"]) (simp add: req_turn_def turn_end_simps turn_start_simps turn_frame_def)
qed

lemma read_turn:
  assumes inv: "mc_inv c n now mc" "bus_inv c mc" "mc_refreshState mc = REF_IDLE"
    and w: "mc_busState mc \<notin> {BUS_WRITE, BUS_READ_TO_WRITE}" "mc_readQueue mc \<noteq> []"
  shows "\<exists>mc'. processNextReqEvent c now mc = Inr mc' \<and> mc_inv c n now mc' \<and> bus_inv c mc' \<and> owed mc' = owed mc \<and>
    mc_busBusyUntil mc \<le> mc_busBusyUntil mc' \<and> req_turn c mc mc'"
proof -
  let ?m = "turn_start mc"
  have m: "mc_inv c n now ?m" "bus_inv c ?m" "mc_busState ?m = BUS_READ" "mc_readQueue ?m \<noteq> []"
    using inv w unfolding turn_start_simps by (auto intro: turn_start_simps)
  obtain dp t x where x: "next_read c now ?m = Inr (True, x)" "mc_inv c n now x" "bus_inv c x" "owed x = owed ?m" "turn_frame ?m x"
    "mset (mc_readQueue ?m) = mset (dp # mc_readQueue x)" "mc_respQueue x = mc_respQueue ?m @ [dp\<lparr>dp_readyTime := t\<rparr>]"
    "mc_writeQueue x = mc_writeQueue ?m" "mc_busBusyUntil ?m + cf_tBURST c \<le> t"
    using next_read_served [OF m] by blast
  have t: "t \<le> mc_busBusyUntil x" using x(3,7) by (simp add: bus_inv_def)
  have "processNextReqEvent c now mc = Inr (turn_end c now x)"
    using processNextReqEvent_turn [OF inv(3) _ x(5), where go_on = True] m(3) x(1) by simp
  moreover have "served_read c mc (turn_end c now x)"
    unfolding served_read_def turn_end_simps using x t by (intro exI [of _ dp] exI [of _ t]) (simp add: turn_start_simps)
  ultimately show ?thesis using x w inv(3) t
    by (intro exI [of _ "turn_end c now x"]) (simp add: req_turn_def turn_end_simps turn_start_simps turn_frame_def)
qed

lemma idle_turn:
  assumes inv: "mc_inv c n now mc" "bus_inv c mc" "mc_refreshState mc = REF_IDLE"
    and w: "mc_busState mc \<notin> {BUS_WRITE, BUS_READ_TO_WRITE}" "mc_readQueue mc = []"
  shows "\<exists>mc'. processNextReqEvent c now mc = Inr mc' \<and> mc_inv c n now mc' \<and> bus_inv c mc' \<and> owed mc' = owed mc \<and>
    mc_busBusyUntil mc \<le> mc_busBusyUntil mc' \<and> req_turn c mc mc'"
proof -
  let ?m = "turn_start mc"
  have m: "mc_inv c n now ?m" "bus_inv c ?m" "mc_busState ?m = BUS_READ" "mc_readQueue ?m = []"
    using inv w unfolding turn_start_simps by (auto intro: turn_start_simps)
  obtain go_on x where x: "next_read c now ?m = Inr (go_on, x)" "mc_inv c n now x" "bus_inv c x" "owed x = owed ?m" "turn_frame ?m x"
    "mc_readQueue x = []" "mc_writeQueue x = mc_writeQueue ?m" "mc_respQueue x = mc_respQueue ?m" "go_on \<longrightarrow> mc_busState x = BUS_READ_TO_WRITE"
    "\<not> go_on \<longrightarrow> length (mc_writeQueue ?m) \<le> cf_writeLowThreshold c \<and> (mc_drainManager ?m \<longrightarrow> mc_writeQueue ?m = [])"
    using next_read_idle [OF m] by blast
  have n: "mc_nextReqEvent x = None" "mc_busBusyUntil mc \<le> mc_busBusyUntil x" "mc_port x = mc_port mc" using x(5) by (simp_all add: turn_frame_def turn_start_simps)
  let ?r = "if go_on then turn_end c now x else x"
  have p: "processNextReqEvent c now mc = Inr ?r"
    using processNextReqEvent_turn [OF inv(3) _ x(5), where go_on = go_on] m(3) x(1) by simp
  have r: "mc_inv c n now ?r" "bus_inv c ?r" "owed ?r = owed mc" "mc_busBusyUntil mc \<le> mc_busBusyUntil ?r" "same_queues mc ?r"
    using x n w by (simp_all add: turn_end_simps turn_start_simps same_queues_def)
  have "req_turn c mc ?r"
    using r(5) w inv(3) x(9,10) n by (cases go_on) (simp_all add: req_turn_def turn_end_simps turn_start_simps)
  then show ?thesis using p r by (intro exI [of _ ?r]) blast
qed

lemma processNextReqEvent_ok:
  assumes "mc_inv c n now mc" "bus_inv c mc"
  shows "\<exists>mc'. processNextReqEvent c now mc = Inr mc' \<and> mc_inv c n now mc' \<and> bus_inv c mc' \<and> owed mc' = owed mc \<and>
    mc_busBusyUntil mc \<le> mc_busBusyUntil mc' \<and> req_turn c mc mc'"
  using write_turn [OF assms] read_turn [OF assms] idle_turn [OF assms] processNextReqEvent_refresh [OF assms] by (metis order_refl)

end
