(* ===== verification/Dram_Runs.thy ===== *)
theory Dram_Runs
  imports Dram_Access
begin

text \<open>
  Runs of the memory controller: requests and responses leave the bus alone, a refresh closes every row, and every
  state reachable by requests, turns of the request loop, responses, sends and refreshes satisfies the invariants;
  the constructed controller is such a state.
\<close>

section \<open>Requests and responses leave the bus alone\<close>

definition bus_frame :: "dram_ctrl \<Rightarrow> dram_ctrl \<Rightarrow> bool" where
  "bus_frame mc mc' =
     (mc_dram mc' = mc_dram mc \<and> mc_busBusyUntil mc' = mc_busBusyUntil mc \<and> mc_busState mc' = mc_busState mc \<and>
      mc_respQueue mc' = mc_respQueue mc \<and> mc_refreshState mc' = mc_refreshState mc \<and> mc_refreshEvent mc' = mc_refreshEvent mc \<and>
      (mc_writeQueue mc \<noteq> [] \<longrightarrow> mc_writeQueue mc' \<noteq> []) \<and>
      (length (pq_transmitList (mc_port mc)) \<le> 101 \<longrightarrow> length (pq_transmitList (mc_port mc')) \<le> 101))"

lemma bus_frame_refl: "bus_frame mc mc"
  by (simp add: bus_frame_def)

lemma bus_frame_trans: "bus_frame a b \<Longrightarrow> bus_frame b d \<Longrightarrow> bus_frame a d"
  by (simp add: bus_frame_def)

lemma bus_frame_inv: "bus_frame mc mc' \<Longrightarrow> bus_inv c mc \<Longrightarrow> bus_inv c mc'"
  by (auto simp: bus_frame_def bus_inv_def)

text \<open>The frame as a condition on computations: whatever they return, the state in it is framed.\<close>

definition framed :: "dram_ctrl \<Rightarrow> ('a \<Rightarrow> dram_ctrl) \<Rightarrow> 'a result \<Rightarrow> bool" where
  "framed mc f r = (\<forall>x. r = Inr x \<longrightarrow> bus_frame mc (f x))"

lemma framed_Inr: "bus_frame mc (f x) \<Longrightarrow> framed mc f (Inr x)"
  by (simp add: framed_def)

lemma framed_Inl: "framed mc f (Inl e)"
  by (simp add: framed_def)

lemma framed_bind:
  assumes "framed mc g r" "\<And>x. bus_frame mc (g x) \<Longrightarrow> framed mc f (k x)"
  shows "framed mc f (rbind r k)"
  using assms by (cases r) (simp_all add: framed_def)

lemma framed_guard: "(\<And>x. framed mc f (k x)) \<Longrightarrow> framed mc f (rbind r k)"
  by (cases r) (simp_all add: framed_def)

lemmas framed_guards =
  framed_guard [where r = "sim_assert b" for b] framed_guard [where r = "decodeAddr now g r p a sz rd" for now g r p a sz rd]
  framed_guard [where r = "getAddr p" for p] framed_guard [where r = "getSize p" for p] framed_guard [where r = "dram_pkt_count B p" for B p]

lemma framed_if: "framed mc f r \<Longrightarrow> framed mc f s \<Longrightarrow> framed mc f (if b then r else s)"
  by simp

lemma framed_from: "bus_frame mc mc1 \<Longrightarrow> framed mc1 f r \<Longrightarrow> framed mc f r"
  unfolding framed_def using bus_frame_trans by blast

lemma framed_pard_stats: "bus_frame mc mc1 \<Longrightarrow> framed mc (\<lambda>x. x) (pard_stats p s f mc1)"
  by (rule framed_from, assumption) (auto simp: framed_def pard_stats_def rbind_eq_Inr_iff bus_frame_def split: if_splits)

lemma framed_ldom_stats: "bus_frame mc mc1 \<Longrightarrow> framed mc (\<lambda>x. x) (ldom_stats p s k mc1)"
  by (rule framed_from, assumption) (auto simp: framed_def ldom_stats_def ldom_add_def rbind_eq_Inr_iff bus_frame_def)

lemma schedSendTiming_bound:
  assumes "schedSendTiming now p t snoop q = Inr q'"
  shows "length (pq_transmitList q') \<le> 101"
proof -
  have e: "length (pq_transmitList r') = length (pq_transmitList r)" if "schedSendEvent w r = Inr r'" for w r r'
    using that by (auto simp: schedSendEvent_def rbind_eq_Inr_iff split: if_splits option.splits)
  show ?thesis using assms schedSendTiming_len [OF assms]
    by (auto simp: schedSendTiming_def rbind_assert Let_def rbind_eq_Inr_iff transmit_insert_stable dest!: e split: if_splits)
qed

lemma framed_respond: "bus_frame mc mc1 \<Longrightarrow> framed mc (\<lambda>x. x) (accessAndRespond now p lat mc1)"
  by (rule framed_from, assumption)
    (auto simp: framed_def accessAndRespond_def mc_schedTimingResp_def rbind_eq_Inr_iff bus_frame_def Let_def
      dest!: schedSendTiming_bound split: if_splits prod.splits)

lemma framed_set_serviced: "bus_frame mc mc1 \<Longrightarrow> framed mc (\<lambda>x. x) (set_serviced h k mc1)"
  by (rule framed_from, assumption)
    (auto simp: framed_def set_serviced_def rbind_eq_Inr_iff bus_frame_def split: option.splits)

lemma bus_frame_update:
  "bus_frame mc mc1 \<Longrightarrow> bus_frame mc (kick_nextReq now mc1)" "bus_frame mc mc1 \<Longrightarrow> bus_frame mc (mc1\<lparr>mc_helpers := hs\<rparr>)"
  "bus_frame mc mc1 \<Longrightarrow> bus_frame mc (mc1\<lparr>mc_readQueue := q\<rparr>)" "bus_frame mc mc1 \<Longrightarrow> bus_frame mc (mc1\<lparr>mc_pendingDelete := ps\<rparr>)"
  "bus_frame mc mc1 \<Longrightarrow> bus_frame mc (mc1\<lparr>mc_prevArrival := t\<rparr>)" "bus_frame mc mc1 \<Longrightarrow> bus_frame mc (mc1\<lparr>mc_retryRdReq := b\<rparr>)"
  "bus_frame mc mc1 \<Longrightarrow> bus_frame mc (mc1\<lparr>mc_retryWrReq := b\<rparr>)"
  "bus_frame mc mc1 \<Longrightarrow> ws \<noteq> [] \<Longrightarrow> bus_frame mc (mc1\<lparr>mc_writeQueue := ws\<rparr>)"
  by (simp_all add: bus_frame_def kick_nextReq_def)

lemma merge_write_some: "merge_write B a sz ws = Some ws' \<Longrightarrow> ws' \<noteq> []"
  by (cases ws) (auto split: option.splits)

lemma framed_write_burst: "bus_frame mc mc1 \<Longrightarrow> framed mc (\<lambda>x. x) (write_burst c now p a mc1)"
  unfolding write_burst_def Let_def
  by (intro framed_bind [OF framed_pard_stats] framed_bind [OF framed_ldom_stats])
    (auto split: option.splits dest!: merge_write_some
      intro!: framed_guards framed_pard_stats framed_bind [OF framed_pard_stats] framed_ldom_stats bus_frame_update)

lemma framed_write_loop: "bus_frame mc mc1 \<Longrightarrow> framed mc (\<lambda>x. x) (write_loop c now p k a mc1)"
  by (induction k arbitrary: a mc1) (simp_all add: framed_Inr framed_bind [OF framed_write_burst])

lemma framed_read_burst: "bus_frame mc mc1 \<Longrightarrow> framed mc (\<lambda>(_, _, x). x) (read_burst c now p k a (cnt, helper, mc1))"
  unfolding read_burst_def Let_def prod.case
  by (intro framed_bind [OF framed_pard_stats] framed_bind [OF framed_ldom_stats])
    (auto split: prod.splits intro!: framed_guards framed_bind [OF framed_pard_stats] framed_bind [OF framed_ldom_stats] framed_Inr bus_frame_update)

lemma framed_read_loop: "bus_frame mc mc1 \<Longrightarrow> framed mc (\<lambda>(_, _, x). x) (read_loop c now p k j a (cnt, helper, mc1))"
proof (induction j arbitrary: a cnt helper mc1)
  case (Suc j)
  show ?case unfolding read_loop.simps
    by (rule framed_bind [OF framed_read_burst [OF Suc.prems]]) (use Suc.IH in \<open>auto split: prod.splits\<close>)
qed (simp add: framed_Inr)

lemma framed_addToReadQueue: "bus_frame mc mc1 \<Longrightarrow> framed mc (\<lambda>x. x) (addToReadQueue c now p k mc1)"
  unfolding addToReadQueue_def
  by (intro framed_guards, rule framed_bind [OF framed_read_loop])
    (auto intro!: framed_respond framed_bind [OF framed_set_serviced] framed_Inr bus_frame_update)

lemma framed_addToWriteQueue: "bus_frame mc mc1 \<Longrightarrow> framed mc (\<lambda>x. x) (addToWriteQueue c now p k mc1)"
  unfolding addToWriteQueue_def
  by (intro framed_guards, rule framed_bind [OF framed_write_loop])
    (auto intro!: framed_bind [OF framed_respond] framed_Inr bus_frame_update)

lemmas framed_intros = framed_bind [OF framed_pard_stats] framed_bind [OF framed_ldom_stats] framed_bind [OF framed_respond]
  framed_bind [OF framed_addToReadQueue] framed_bind [OF framed_addToWriteQueue]

lemma framed_recvTimingReq: "framed mc snd (mc_recvTimingReq c now p mc)"
proof -
  let ?m = "mc\<lparr>mc_pendingDelete := []\<rparr>"
  have g: "framed mc (\<lambda>x. x) (if mc_prevArrival ?m \<noteq> 0 then pard_stats p S_totGap (\<lambda>v. v + of_nat (now - mc_prevArrival ?m)) ?m else Inr ?m)"
    by (intro framed_if framed_pard_stats framed_Inr bus_frame_update bus_frame_refl)
  show ?thesis unfolding mc_recvTimingReq_def Let_def
    by (intro framed_if framed_Inr framed_bind [OF g] framed_guards)
      (auto intro!: framed_if framed_Inr framed_guards framed_intros bus_frame_update bus_frame_refl)
qed

lemma framed_respond_burst: "framed mc (\<lambda>x. x) (respond_burst c now dp mc)"
  unfolding respond_burst_def Let_def
  by (auto split: option.splits intro!: framed_respond framed_bind [OF framed_respond] framed_guard [where r = "vec_get hs h" for hs h]
      framed_Inr framed_Inl bus_frame_update bus_frame_refl)

lemma bus_inv_frame:
  "bus_inv c (sendRetry mc) = bus_inv c mc" "bus_inv c (signalDrainDone mc) = bus_inv c mc" "bus_inv c (mc\<lparr>mc_respondEvent := e\<rparr>) = bus_inv c mc"
  "bus_inv c (mc\<lparr>mc_retryRdReq := b\<rparr>) = bus_inv c mc" "bus_inv c (mc\<lparr>mc_port := q\<rparr>) = bus_inv c mc"
  by (simp_all add: bus_inv_def sendRetry_def signalDrainDone_def)

lemma port_frame: "mc_port (sendRetry mc) = mc_port mc" "mc_port (signalDrainDone mc) = mc_port mc"
  by (simp_all add: sendRetry_def signalDrainDone_def)

lemma processRespondEvent_bus:
  assumes "processRespondEvent c now mc = Inr mc'" "bus_inv c mc" "length (pq_transmitList (mc_port mc)) \<le> 101"
  shows "bus_inv c mc' \<and> length (pq_transmitList (mc_port mc')) \<le> 101"
proof -
  let ?m = "mc\<lparr>mc_respondEvent := None\<rparr>"
  obtain dp rest where q: "mc_respQueue mc = dp # rest" using assms(1) by (cases "mc_respQueue mc") (simp_all add: processRespondEvent_def)
  then obtain mc1 where 1: "respond_burst c now dp ?m = Inr mc1" using assms(1) by (auto simp: processRespondEvent_def Let_def rbind_eq_Inr_iff)
  have f: "bus_frame ?m mc1" using framed_respond_burst [of ?m c now dp] 1 by (simp add: framed_def)
  have "bus_inv c ?m" using assms(2) by (simp add: bus_inv_def)
  then have "bus_inv c mc1" "mc_respQueue mc1 = dp # rest" using bus_frame_inv [OF f] f q by (simp_all add: bus_frame_def)
  then have b: "bus_inv c (mc1\<lparr>mc_respQueue := rest\<rparr>)" by (simp add: bus_inv_def)
  have l: "length (pq_transmitList (mc_port mc1)) \<le> 101" using f assms(3) by (simp add: bus_frame_def)
  show ?thesis using assms(1) 1 q b l
    by (cases rest) (auto simp: processRespondEvent_def Let_def rbind_eq_Inr_iff bus_inv_frame port_frame)
qed

section \<open>Closing all rows\<close>

definition idle_bank :: "tick \<Rightarrow> bank \<Rightarrow> bool" where
  "idle_bank t b = ((\<forall>rb < ROW_BUFFER_COUNT. bk_openRow b ! rb = NO_ROW) \<and> t \<le> bk_actAllowedAt b)"

text \<open>One bank of the device is replaced, which may activate no earlier than before.\<close>

definition bank_replaced :: "nat \<Rightarrow> nat \<Rightarrow> bank \<Rightarrow> dram_state \<Rightarrow> dram_state \<Rightarrow> bool" where
  "bank_replaced rank bank b s s' =
     (ds_banks s' = (ds_banks s)[rank := (ds_banks s ! rank)[bank := b]] \<and> bk_actAllowedAt (ds_banks s ! rank ! bank) \<le> bk_actAllowedAt b)"

lemma bank_replaced_trans:
  assumes "bank_replaced rank bank b s s1" "bank_replaced rank bank b' s1 s2" "rank < length (ds_banks s)" "bank < length (ds_banks s ! rank)"
  shows "bank_replaced rank bank b' s s2"
  using assms by (simp add: bank_replaced_def)

lemma bank_replaced_nth:
  assumes "bank_replaced rank bank b s s'" "rank < length (ds_banks s)" "bank < length (ds_banks s ! rank)"
  shows "ds_banks s' ! rank ! bank = b"
  using assms by (simp add: bank_replaced_def)

lemma bank_replaced_put:
  "bk_actAllowedAt (ds_banks s ! rank ! bank) \<le> bk_actAllowedAt b \<Longrightarrow> bank_replaced rank bank b s (put_bank rank bank b s)"
  by (simp add: bank_replaced_def put_bank_def)

text \<open>Closing one open row, as the refresh does it.\<close>

lemma precharge_row:
  assumes "banks_ok c s" "rank < dg_ranksPerChannel (cf_geom c)" "bank < dg_banksPerRank (cf_geom c)" "rb < ROW_BUFFER_COUNT"
    and "bk_openRow (ds_banks s ! rank ! bank) ! rb \<noteq> NO_ROW"
  shows "\<exists>s1 s2 b. prechargeBank (cf_timing c) rank bank rb t s = Inr s1 \<and> get_bank s1 rank bank = Inr b \<and>
    s2 = put_bank rank bank (b\<lparr>bk_preAllowedAt := bk_actAllowedAt b\<rparr>) s1 \<and> banks_ok c s2 \<and>
    bank_replaced rank bank (b\<lparr>bk_preAllowedAt := bk_actAllowedAt b\<rparr>) s s2 \<and> t + dt_tRP (cf_timing c) \<le> bk_actAllowedAt b \<and>
    bk_openRow b = (bk_openRow (ds_banks s ! rank ! bank))[rb := NO_ROW]"
proof -
  let ?b = "precharged (cf_timing c) t rb (ds_banks s ! rank ! bank)"
  have ok: "acts_ok (cf_timing c) s" "dram_wf (cf_geom c) (cf_timing c) s" using assms(1) by (simp_all add: banks_ok_def)
  note D = dram_wf_bank [OF ok(2) assms(2,3)]
  obtain s1 where s1: "prechargeBank (cf_timing c) rank bank rb t s = Inr s1" "dram_wf (cf_geom c) (cf_timing c) s1"
    using prechargeBank_ok [OF ok(2) assms(2-5)] by blast
  note e = prechargeBank_effect [OF s1(1)]
  have le: "bk_actAllowedAt (ds_banks s ! rank ! bank) \<le> bk_actAllowedAt ?b" by (simp add: precharged_def)
  have b1: "banks_ok c s1" using acts_ok_bank [OF ok(1) D(3) le e] s1(2) by (simp add: banks_ok_def)
  have r1: "bank_replaced rank bank ?b s s1" using e(1) le by (simp add: bank_replaced_def)
  have n1: "ds_banks s1 ! rank ! bank = ?b" by (rule bank_replaced_nth [OF r1 D(3,4)])
  have g: "get_bank s1 rank bank = Inr ?b" using dram_wf_bank(1) [OF s1(2) assms(2,3)] n1 by simp
  let ?b' = "?b\<lparr>bk_preAllowedAt := bk_actAllowedAt ?b\<rparr>"
  have "banks_ok c (put_bank rank bank ?b' s1)" "bank_replaced rank bank ?b' s1 (put_bank rank bank ?b' s1)"
    using banks_ok_put_at [OF b1 assms(2,3), of ?b'] bank_replaced_put [of s1 rank bank ?b'] unfolding n1 by simp_all
  moreover have "t + dt_tRP (cf_timing c) \<le> bk_actAllowedAt ?b" "bk_openRow ?b = (bk_openRow (ds_banks s ! rank ! bank))[rb := NO_ROW]"
    by (simp_all add: precharged_def)
  ultimately show ?thesis using s1(1) g bank_replaced_trans [OF r1 _ D(3,4)]
    by (intro exI [of _ s1] exI [of _ "put_bank rank bank ?b' s1"] exI [of _ ?b]) blast
qed

lemma precharge_bufs_ok:
  assumes "banks_ok c s" "rank < dg_ranksPerChannel (cf_geom c)" "bank < dg_banksPerRank (cf_geom c)" "set rbs \<subseteq> {..<ROW_BUFFER_COUNT}"
  shows "\<exists>closed' s' b. precharge_bufs (cf_timing c) rank bank pre_at rbs (closed, s) = Inr (closed', s') \<and> banks_ok c s' \<and>
    bank_replaced rank bank b s s' \<and> (\<forall>rb < ROW_BUFFER_COUNT. rb \<in> set rbs \<or> bk_openRow (ds_banks s ! rank ! bank) ! rb = NO_ROW \<longrightarrow> bk_openRow b ! rb = NO_ROW) \<and>
    (closed' \<or> \<not> closed \<or> pre_at + dt_tRP (cf_timing c) \<le> bk_actAllowedAt b)"
  using assms
proof (induction rbs arbitrary: s closed)
  case Nil
  note D = dram_wf_bank [of "cf_geom c" "cf_timing c" s, OF _ Nil.prems(2,3)]
  then have "bank_replaced rank bank (ds_banks s ! rank ! bank) s s" by (simp add: bank_replaced_def)
  then show ?case using Nil.prems(1) by (intro exI [of _ closed] exI [of _ s] exI [of _ "ds_banks s ! rank ! bank"]) simp
next
  case (Cons rb rbs)
  have wf: "dram_wf (cf_geom c) (cf_timing c) s" using Cons.prems(1) by (simp add: banks_ok_def)
  note D = dram_wf_bank [OF wf Cons.prems(2,3)]
  have rb: "rb < ROW_BUFFER_COUNT" "set rbs \<subseteq> {..<ROW_BUFFER_COUNT}" using Cons.prems(4) by auto
  have g: "vec_get (bk_openRow (ds_banks s ! rank ! bank)) rb = Inr (bk_openRow (ds_banks s ! rank ! bank) ! rb)"
    using D(2) rb(1) by (simp add: bank_wf_def)
  show ?case
  proof (cases "bk_openRow (ds_banks s ! rank ! bank) ! rb = NO_ROW")
    case True
    have e: "precharge_bufs (cf_timing c) rank bank pre_at (rb # rbs) (closed, s) = precharge_bufs (cf_timing c) rank bank pre_at rbs (closed, s)"
      using D(1) g True by simp
    have m: "(r \<in> set (rb # rbs) \<or> bk_openRow (ds_banks s ! rank ! bank) ! r = NO_ROW) = (r \<in> set rbs \<or> bk_openRow (ds_banks s ! rank ! bank) ! r = NO_ROW)" for r
      using True by auto
    show ?thesis unfolding e m by (rule Cons.IH [OF Cons.prems(1-3) rb(2)])
  next
    case False
    let ?t = "max (bk_preAllowedAt (ds_banks s ! rank ! bank)) pre_at"
    obtain s1 s2 b1 where 1: "prechargeBank (cf_timing c) rank bank rb ?t s = Inr s1" "get_bank s1 rank bank = Inr b1"
      "s2 = put_bank rank bank (b1\<lparr>bk_preAllowedAt := bk_actAllowedAt b1\<rparr>) s1" "banks_ok c s2"
      "bank_replaced rank bank (b1\<lparr>bk_preAllowedAt := bk_actAllowedAt b1\<rparr>) s s2" "?t + dt_tRP (cf_timing c) \<le> bk_actAllowedAt b1"
      "bk_openRow b1 = (bk_openRow (ds_banks s ! rank ! bank))[rb := NO_ROW]"
      using precharge_row [OF Cons.prems(1-3) rb(1) False] by blast
    obtain closed' s' b where 2: "precharge_bufs (cf_timing c) rank bank pre_at rbs (False, s2) = Inr (closed', s')" "banks_ok c s'"
      "bank_replaced rank bank b s2 s'"
      "\<forall>r < ROW_BUFFER_COUNT. r \<in> set rbs \<or> bk_openRow (ds_banks s2 ! rank ! bank) ! r = NO_ROW \<longrightarrow> bk_openRow b ! r = NO_ROW"
      using Cons.IH [OF 1(4) Cons.prems(2,3) rb(2), of False] by blast
    have n2: "ds_banks s2 ! rank ! bank = b1\<lparr>bk_preAllowedAt := bk_actAllowedAt b1\<rparr>" by (rule bank_replaced_nth [OF 1(5) D(3,4)])
    have l: "rb < length (bk_openRow (ds_banks s ! rank ! bank))" using D(2) rb(1) by (simp add: bank_wf_def)
    have o: "bk_openRow b ! r = NO_ROW" if "r < ROW_BUFFER_COUNT" "r \<in> set (rb # rbs) \<or> bk_openRow (ds_banks s ! rank ! bank) ! r = NO_ROW" for r
    proof -
      have "r \<in> set rbs \<or> bk_openRow (ds_banks s2 ! rank ! bank) ! r = NO_ROW" using that(2) 1(7) l unfolding n2 by (cases "r = rb") auto
      then show ?thesis using 2(4) that(1) by blast
    qed
    have "precharge_bufs (cf_timing c) rank bank pre_at (rb # rbs) (closed, s) = Inr (closed', s')"
      using False D(1) g 1(1-3) 2(1) by simp
    moreover have "bk_actAllowedAt b1 \<le> bk_actAllowedAt b" using 2(3) unfolding bank_replaced_def n2 by simp
    then have "pre_at + dt_tRP (cf_timing c) \<le> bk_actAllowedAt b" using 1(6) max.cobounded2 [of pre_at] by linarith
    ultimately show ?thesis using 2(2) bank_replaced_trans [OF 1(5) 2(3) D(3,4)] o
      by (intro exI [of _ closed'] exI [of _ s'] exI [of _ b]) blast
  qed
qed

lemma precharge_one_ok:
  assumes "banks_ok c s" "rank < dg_ranksPerChannel (cf_geom c)" "bank < dg_banksPerRank (cf_geom c)"
  shows "\<exists>s' b. precharge_one (cf_timing c) pre_at (rank, bank) s = Inr s' \<and> banks_ok c s' \<and> bank_replaced rank bank b s s' \<and>
    idle_bank (pre_at + dt_tRP (cf_timing c)) b"
proof -
  let ?tm = "cf_timing c"
  obtain closed s1 b where 1: "precharge_bufs ?tm rank bank pre_at [0..<ROW_BUFFER_COUNT] (True, s) = Inr (closed, s1)" "banks_ok c s1"
    "bank_replaced rank bank b s s1" "\<forall>rb < ROW_BUFFER_COUNT. bk_openRow b ! rb = NO_ROW" "closed \<or> pre_at + dt_tRP ?tm \<le> bk_actAllowedAt b"
    using precharge_bufs_ok [OF assms, of "[0..<ROW_BUFFER_COUNT]" pre_at True] by (auto simp: lessThan_atLeast0)
  show ?thesis
  proof (cases closed)
    case False
    then show ?thesis using 1 by (intro exI [of _ s1] exI [of _ b]) (simp add: precharge_one_def idle_bank_def)
  next
    case True
    have D: "rank < length (ds_banks s)" "bank < length (ds_banks s ! rank)" "get_bank s1 rank bank = Inr (ds_banks s1 ! rank ! bank)"
      using assms 1(2) dram_wf_bank [of "cf_geom c" ?tm _ rank bank] by (simp_all add: banks_ok_def)
    have n: "ds_banks s1 ! rank ! bank = b" by (rule bank_replaced_nth [OF 1(3) D(1,2)])
    let ?b = "b\<lparr>bk_actAllowedAt := max (bk_actAllowedAt b) (pre_at + dt_tRP ?tm), bk_preAllowedAt := max (bk_preAllowedAt b) pre_at\<rparr>"
    have "banks_ok c (put_bank rank bank ?b s1)" "bank_replaced rank bank ?b s1 (put_bank rank bank ?b s1)"
      using banks_ok_put_at [OF 1(2) assms(2,3), of ?b] bank_replaced_put [of s1 rank bank ?b] unfolding n by simp_all
    moreover have "precharge_one ?tm pre_at (rank, bank) s = Inr (put_bank rank bank ?b s1)"
      using 1(1) True D(3) n by (simp add: precharge_one_def)
    moreover have "idle_bank (pre_at + dt_tRP ?tm) ?b" using 1(4) by (simp add: idle_bank_def)
    ultimately show ?thesis using bank_replaced_trans [OF 1(3) _ D(1,2)] by blast
  qed
qed

lemma precharge_banks_ok:
  assumes "banks_ok c s" "\<forall>(rank, bank) \<in> set idx. rank < dg_ranksPerChannel (cf_geom c) \<and> bank < dg_banksPerRank (cf_geom c)"
  shows "\<exists>s'. precharge_banks (cf_timing c) pre_at idx s = Inr s' \<and> banks_ok c s' \<and>
    (\<forall>rank bank. (rank, bank) \<in> set idx \<or> rank < dg_ranksPerChannel (cf_geom c) \<and> bank < dg_banksPerRank (cf_geom c) \<and>
        idle_bank (pre_at + dt_tRP (cf_timing c)) (ds_banks s ! rank ! bank) \<longrightarrow>
      idle_bank (pre_at + dt_tRP (cf_timing c)) (ds_banks s' ! rank ! bank))"
  using assms
proof (induction idx arbitrary: s)
  case Nil then show ?case by simp
next
  case (Cons i idx)
  let ?idle = "idle_bank (pre_at + dt_tRP (cf_timing c))"
  obtain rank bank where i: "i = (rank, bank)" by force
  have r: "rank < dg_ranksPerChannel (cf_geom c)" "bank < dg_banksPerRank (cf_geom c)" using Cons.prems(2) i by auto
  obtain s1 b where 1: "precharge_one (cf_timing c) pre_at (rank, bank) s = Inr s1" "banks_ok c s1" "bank_replaced rank bank b s s1" "?idle b"
    using precharge_one_ok [OF Cons.prems(1) r] by blast
  have wf: "dram_wf (cf_geom c) (cf_timing c) s" using Cons.prems(1) by (simp add: banks_ok_def)
  note D = dram_wf_bank [OF wf r]
  have step: "?idle (ds_banks s1 ! r' ! k)" if "(r', k) = (rank, bank) \<or> r' < dg_ranksPerChannel (cf_geom c) \<and> k < dg_banksPerRank (cf_geom c) \<and> ?idle (ds_banks s ! r' ! k)" for r' k
    using that 1(3,4) D(3,4) by (cases "r' = rank"; cases "k = bank") (auto simp: bank_replaced_def)
  obtain s' where 2: "precharge_banks (cf_timing c) pre_at idx s1 = Inr s'" "banks_ok c s'"
    "\<forall>r' k. (r', k) \<in> set idx \<or> r' < dg_ranksPerChannel (cf_geom c) \<and> k < dg_banksPerRank (cf_geom c) \<and> ?idle (ds_banks s1 ! r' ! k) \<longrightarrow> ?idle (ds_banks s' ! r' ! k)"
    using Cons.IH [OF 1(2)] Cons.prems(2) by auto
  have "precharge_banks (cf_timing c) pre_at (i # idx) s = Inr s'" using 1(1) 2(1) i by simp
  moreover have "?idle (ds_banks s' ! r' ! k)"
    if "(r', k) \<in> set (i # idx) \<or> r' < dg_ranksPerChannel (cf_geom c) \<and> k < dg_banksPerRank (cf_geom c) \<and> ?idle (ds_banks s ! r' ! k)" for r' k
    using 2(3) step [of r' k] that r i by auto
  ultimately show ?case using 2(2) by blast
qed

lemma latest_pre_ok:
  assumes "banks_ok c s" "\<forall>(rank, bank) \<in> set idx. rank < dg_ranksPerChannel (cf_geom c) \<and> bank < dg_banksPerRank (cf_geom c)"
  shows "\<exists>t. latest_pre s idx pre_at = Inr t \<and> pre_at \<le> t \<and> (\<forall>(rank, bank) \<in> set idx. bk_preAllowedAt (ds_banks s ! rank ! bank) \<le> t)"
  using assms(2)
proof (induction idx arbitrary: pre_at)
  case (Cons i idx)
  obtain rank bank where i: "i = (rank, bank)" by force
  have g: "get_bank s rank bank = Inr (ds_banks s ! rank ! bank)"
    using assms(1) Cons.prems i dram_wf_bank(1) [of "cf_geom c" "cf_timing c" s rank bank] by (simp add: banks_ok_def)
  obtain t where "latest_pre s idx (max (bk_preAllowedAt (ds_banks s ! rank ! bank)) pre_at) = Inr t" "max (bk_preAllowedAt (ds_banks s ! rank ! bank)) pre_at \<le> t"
    "\<forall>(rank, bank) \<in> set idx. bk_preAllowedAt (ds_banks s ! rank ! bank) \<le> t"
    using Cons.IH [of "max (bk_preAllowedAt (ds_banks s ! rank ! bank)) pre_at"] Cons.prems by auto
  then show ?case using i g by auto
qed simp

lemma no_active_banks:
  assumes "dram_wf g tm s" "\<And>rank bank. rank < dg_ranksPerChannel g \<Longrightarrow> bank < dg_banksPerRank g \<Longrightarrow> idle_bank t (ds_banks s ! rank ! bank)"
  shows "ds_numBanksActive s = 0"
proof -
  have "active_in_rank (ds_banks s ! rank) = 0" if "rank < length (ds_banks s)" for rank
  proof -
    have r: "rank < dg_ranksPerChannel g" "length (ds_banks s ! rank) = dg_banksPerRank g"
      using assms(1) that by (simp_all add: dram_wf_def list_all_length)
    have "bk_numRowsActive (ds_banks s ! rank ! bank) = 0" if "bank < dg_banksPerRank g" for bank
    proof -
      have b: "bank_wf (ds_banks s ! rank ! bank)" "idle_bank t (ds_banks s ! rank ! bank)"
        using dram_wf_bank(2) [OF assms(1) r(1) that] assms(2) [OF r(1) that] by simp_all
      then show ?thesis by (auto simp: bank_wf_def open_rows_def idle_bank_def filter_empty_conv in_set_conv_nth)
    qed
    then show ?thesis using r(2) by (auto simp: active_in_rank_def filter_empty_conv in_set_conv_nth)
  qed
  then have "sum_list (map active_in_rank (ds_banks s)) = 0" by (auto simp: in_set_conv_nth)
  then show ?thesis using assms(1) by (simp add: dram_wf_def)
qed

lemma precharge_all_ok:
  assumes "banks_ok c s"
  shows "\<exists>s' t. precharge_all c now s = Inr s' \<and> banks_ok c s' \<and> ds_numBanksActive s' = 0 \<and> now + dt_tRP (cf_timing c) \<le> t \<and>
    (\<forall>rank < dg_ranksPerChannel (cf_geom c). \<forall>bank < dg_banksPerRank (cf_geom c).
       idle_bank t (ds_banks s' ! rank ! bank) \<and> bk_preAllowedAt (ds_banks s ! rank ! bank) + dt_tRP (cf_timing c) \<le> t)"
proof -
  have idx: "(rank, bank) \<in> set (bank_indices (cf_geom c)) \<longleftrightarrow> rank < dg_ranksPerChannel (cf_geom c) \<and> bank < dg_banksPerRank (cf_geom c)" for rank bank
    by (auto simp: bank_indices_def)
  then have r: "\<forall>(rank, bank) \<in> set (bank_indices (cf_geom c)). rank < dg_ranksPerChannel (cf_geom c) \<and> bank < dg_banksPerRank (cf_geom c)" by auto
  obtain t where t: "latest_pre s (bank_indices (cf_geom c)) now = Inr t" "now \<le> t"
    "\<forall>(rank, bank) \<in> set (bank_indices (cf_geom c)). bk_preAllowedAt (ds_banks s ! rank ! bank) \<le> t"
    using latest_pre_ok [OF assms r, of now] by blast
  obtain s' where s': "precharge_banks (cf_timing c) t (bank_indices (cf_geom c)) s = Inr s'" "banks_ok c s'"
    "\<And>rank bank. (rank, bank) \<in> set (bank_indices (cf_geom c)) \<Longrightarrow> idle_bank (t + dt_tRP (cf_timing c)) (ds_banks s' ! rank ! bank)"
    using precharge_banks_ok [OF assms r, of t] by blast
  have "ds_numBanksActive s' = 0" using no_active_banks [of "cf_geom c" "cf_timing c" s'] s'(2,3) idx by (metis banks_ok_def)
  moreover have "bk_preAllowedAt (ds_banks s ! rank ! bank) \<le> t" if "rank < dg_ranksPerChannel (cf_geom c)" "bank < dg_banksPerRank (cf_geom c)" for rank bank
    using t(3) idx [of rank bank] that by blast
  ultimately show ?thesis using s' t(1,2) idx
    by (intro exI [of _ s'] exI [of _ "t + dt_tRP (cf_timing c)"]) (auto simp: precharge_all_def)
qed

text \<open>A refresh that finds the device active closes every row and waits for the power state machine.\<close>

lemma refresh_pre_ok:
  assumes inv: "mc_inv c n now mc" "bus_inv c mc"
    and idle: "mc_pwrState mc = PWR_IDLE \<Longrightarrow> mc_powerEvent mc = None \<and> ds_numBanksActive (mc_dram mc) = 0"
  shows "\<exists>mc'. refresh_pre c now mc = Inr mc' \<and> mc_inv c n now mc' \<and> bus_inv c mc' \<and> owed mc' = owed mc \<and> mc_port mc' = mc_port mc \<and>
    mc_refreshState mc' = REF_RUN \<and> ds_numBanksActive (mc_dram mc') = 0"
proof (cases "mc_pwrState mc = PWR_IDLE")
  case True
  let ?mc' = "mc\<lparr>mc_pwrStateTrans := PWR_REF, mc_powerEvent := Some now, mc_refreshState := REF_RUN\<rparr>"
  have "refresh_pre c now mc = Inr ?mc'"
    using True idle by (simp add: refresh_pre_def schedulePowerEvent_def rbind_assert Let_def)
  moreover have "mc_inv c n now ?mc'" "owed ?mc' = owed mc" using inv(1) by (simp_all add: mc_inv_def counters_ok_def owed_def)
  moreover have "bus_inv c ?mc'" using inv(2) by (simp add: bus_inv_def)
  ultimately show ?thesis using True idle by (intro exI [of _ ?mc']) simp
next
  case False
  obtain s where s: "precharge_all c now (mc_dram mc) = Inr s" "banks_ok c s" "ds_numBanksActive s = 0"
    using precharge_all_ok [of c "mc_dram mc" now] inv(2) by (auto simp: bus_inv_def)
  let ?mc' = "mc\<lparr>mc_dram := s, mc_refreshState := REF_RUN\<rparr>"
  have "refresh_pre c now mc = Inr ?mc'" using False s by (simp add: refresh_pre_def rbind_assert Let_def)
  moreover have "mc_inv c n now ?mc'" "owed ?mc' = owed mc" using inv(1) by (simp_all add: mc_inv_def counters_ok_def owed_def)
  moreover have "bus_inv c ?mc'" using inv(2) s(2) by (simp add: bus_inv_def)
  ultimately show ?thesis using s(3) by (intro exI [of _ ?mc']) simp
qed

lemma processRefreshEvent_ok:
  assumes inv: "mc_inv c n now mc" "bus_inv c mc" and st: "mc_refreshState mc \<noteq> REF_RUN"
    and idle: "mc_pwrState mc = PWR_IDLE \<Longrightarrow> mc_powerEvent mc = None \<and> ds_numBanksActive (mc_dram mc) = 0"
  shows "\<exists>mc'. processRefreshEvent c now mc = Inr mc' \<and> mc_inv c n now mc' \<and> bus_inv c mc' \<and> owed mc' = owed mc \<and> mc_port mc' = mc_port mc \<and>
    (if mc_refreshState mc \<noteq> REF_PRE \<and> mc_nextReqEvent mc \<noteq> None then mc_refreshState mc' = REF_DRAIN \<and> mc_nextReqEvent mc' = mc_nextReqEvent mc
     else mc_refreshState mc' = REF_RUN \<and> ds_numBanksActive (mc_dram mc') = 0)"
proof -
  define due where "due = (if mc_refreshState mc = REF_IDLE then now else mc_refreshDueAt mc)"
  let ?m = "\<lambda>st. mc\<lparr>mc_refreshEvent := None, mc_refreshDueAt := due, mc_refreshState := st\<rparr>"
  have k: "mc_inv c n now (?m st)" "bus_inv c (?m st)" "owed (?m st) = owed mc" for st
    using inv by (simp_all add: mc_inv_def counters_ok_def bus_inv_def owed_def)
  show ?thesis
  proof (cases "mc_refreshState mc \<noteq> REF_PRE \<and> mc_nextReqEvent mc \<noteq> None")
    case True
    then have "processRefreshEvent c now mc = Inr (?m REF_DRAIN)"
      using st by (cases "mc_refreshState mc") (simp_all add: processRefreshEvent_def refresh_loop_def Let_def due_def)
    then show ?thesis using True k [of REF_DRAIN] by (intro exI [of _ "?m REF_DRAIN"]) simp
  next
    case False
    have e: "processRefreshEvent c now mc = refresh_pre c now (?m REF_PRE)"
    proof (cases "mc_refreshState mc = REF_PRE")
      case True
      then have m: "?m REF_PRE = mc\<lparr>mc_refreshEvent := None\<rparr>" by (intro dram_ctrl.equality) (simp_all add: due_def)
      show ?thesis unfolding m using True by (simp add: processRefreshEvent_def refresh_loop_def Let_def)
    next
      case pre: False
      then have "mc_nextReqEvent mc = None" using False by blast
      then show ?thesis
        using st pre by (cases "mc_refreshState mc") (simp_all add: processRefreshEvent_def refresh_loop_def Let_def due_def)
    qed
    show ?thesis unfolding e if_not_P [OF False] using refresh_pre_ok [OF k(1,2), of REF_PRE] idle k(3) [of REF_PRE] by simp
  qed
qed

text \<open>The refresh itself: no bank may activate before it is over, and the next one is due in time.\<close>

lemma refresh_run_ok:
  assumes "banks_ok c (mc_dram mc)" "ds_numBanksActive (mc_dram mc) = 0" "mc_pwrState mc = PWR_REF" "mc_refreshEvent mc = None" "mc_powerEvent mc = None"
    and due: "now + cf_tRFC c \<le> mc_refreshDueAt mc + cf_tREFI c" "now + dt_tRP (cf_timing c) \<le> mc_refreshDueAt mc + cf_tREFI c"
    and acts: "\<forall>ts \<in> set (ds_actTicks (mc_dram mc)). \<forall>t \<in> set ts. t \<le> now" "dt_tXAW (cf_timing c) \<le> cf_tRFC c"
  shows "\<exists>mc'. refresh_run c now mc = Inr mc' \<and> banks_ok c (mc_dram mc') \<and> mc_powerEvent mc' = Some (now + cf_tRFC c) \<and> mc_pwrStateTrans mc' = PWR_IDLE \<and>
    mc_refreshEvent mc' = Some (mc_refreshDueAt mc + cf_tREFI c - dt_tRP (cf_timing c)) \<and>
    (\<forall>rk \<in> set (ds_banks (mc_dram mc')). \<forall>b \<in> set rk. bk_actAllowedAt b = now + cf_tRFC c)"
proof -
  let ?s = "mc_dram mc" let ?t = "now + cf_tRFC c" let ?s' = "refresh_banks ?t ?s"
  have ok: "acts_ok (cf_timing c) ?s" "dram_wf (cf_geom c) (cf_timing c) ?s" using assms(1) by (simp_all add: banks_ok_def)
  have b: "bank_wf (b\<lparr>bk_actAllowedAt := t\<rparr>) = bank_wf b" for b t by (simp add: bank_wf_def open_rows_def)
  have a: "active_in_rank (map (\<lambda>b. b\<lparr>bk_actAllowedAt := t\<rparr>) rk) = active_in_rank rk" for t rk
    by (simp add: active_in_rank_def filter_map comp_def)
  have "dram_wf (cf_geom c) (cf_timing c) ?s'" using ok(2) by (simp add: dram_wf_def refresh_banks_def list_all_iff b a comp_def)
  moreover have "rank_ok (cf_timing c) (ds_actTicks ?s ! r) (map (\<lambda>b. b\<lparr>bk_actAllowedAt := ?t\<rparr>) (ds_banks ?s ! r))" if "r < length (ds_banks ?s)" for r
  proof -
    let ?ts = "ds_actTicks ?s ! r"
    have "?ts \<in> set (ds_actTicks ?s)" using that ok(2) by (simp add: dram_wf_def)
    then have "\<forall>t \<in> set ?ts. t \<le> now" using acts(1) by blast
    then have "?ts \<noteq> [] \<Longrightarrow> hd ?ts \<le> now \<and> last ?ts \<le> now" by simp
    moreover have "sorted_wrt (\<ge>) ?ts" using ok(1) that by (simp add: acts_ok_def rank_ok_def)
    ultimately show ?thesis using acts(2) by (auto simp: rank_ok_def)
  qed
  ultimately have ok': "banks_ok c ?s'" by (simp add: banks_ok_def acts_ok_def refresh_banks_def)
  let ?mc' = "mc\<lparr>mc_dram := ?s', mc_refreshEvent := Some (mc_refreshDueAt mc + cf_tREFI c - dt_tRP (cf_timing c)), mc_pwrStateTrans := PWR_IDLE, mc_powerEvent := Some ?t\<rparr>"
  have "refresh_run c now mc = Inr ?mc'"
    using assms(2-5) due by (simp add: refresh_run_def rbind_assert Let_def sched_ev_def tick_sub_def schedulePowerEvent_def)
  then show ?thesis using ok' by (intro exI [of _ ?mc']) (auto simp: refresh_banks_def)
qed

section \<open>Runs of the controller\<close>

text \<open>
  Time may pass up to the next scheduled event of the controller or of its port.
\<close>

definition not_before :: "tick \<Rightarrow> tick option \<Rightarrow> bool" where
  "not_before t e = (case e of None \<Rightarrow> True | Some w \<Rightarrow> t \<le> w)"

text \<open>The power state machine is not in the way of a refresh that starts.\<close>

definition refresh_ready :: "dram_ctrl \<Rightarrow> bool" where
  "refresh_ready mc =
     (mc_refreshState mc \<noteq> REF_RUN \<and> (mc_pwrState mc = PWR_IDLE \<longrightarrow> mc_powerEvent mc = None \<and> ds_numBanksActive (mc_dram mc) = 0))"

text \<open>
  The steps up to the point where a refresh hands over to the power state machine: a request arrives, the request
  loop takes a turn, a read is answered, the port offers a response to the requestor or repeats an offer, a refresh
  falls due or goes on, a drain is asked for, and time passes. The numbers count the accepted requests that need a
  response and the responses delivered.
\<close>

inductive mc_reach :: "dram_config \<Rightarrow> nat \<Rightarrow> tick \<Rightarrow> dram_ctrl \<Rightarrow> nat \<Rightarrow> nat \<Rightarrow> bool" for c n where
  start: "mc_inv c n now mc \<Longrightarrow> bus_inv c mc \<Longrightarrow> owed mc = 0 \<Longrightarrow> mc_reach c n now mc 0 0"
| request: "mc_reach c n now mc a d \<Longrightarrow> req_ready c n mc p \<Longrightarrow> isRead (pk_cmd p) \<or> isWrite (pk_cmd p) \<Longrightarrow>
    length (pq_transmitList (mc_port mc)) \<le> 100 \<Longrightarrow> mc_recvTimingReq c now p mc = Inr (ok, mc') \<Longrightarrow>
    mc_reach c n now mc' (a + of_bool (ok \<and> needsResponse (pk_cmd p))) d"
| turn: "mc_reach c n now mc a d \<Longrightarrow> mc_nextReqEvent mc = Some now \<Longrightarrow> processNextReqEvent c now mc = Inr mc' \<Longrightarrow> mc_reach c n now mc' a d"
| respond: "mc_reach c n now mc a d \<Longrightarrow> mc_respondEvent mc = Some now \<Longrightarrow> length (pq_transmitList (mc_port mc)) \<le> 100 \<Longrightarrow>
    processRespondEvent c now mc = Inr mc' \<Longrightarrow> mc_reach c n now mc' a d"
| send: "mc_reach c n now mc a d \<Longrightarrow> pq_sendEvent (mc_port mc) = Some now \<Longrightarrow> processSendEvent now accepted [] (mc_port mc) = Inr q \<Longrightarrow>
    mc_reach c n now (mc\<lparr>mc_port := q\<rparr>) a (d + of_bool accepted)"
| resend: "mc_reach c n now mc a d \<Longrightarrow> pq_waitingOnRetry (mc_port mc) \<Longrightarrow> pq_retry now accepted [] (mc_port mc) = Inr q \<Longrightarrow>
    mc_reach c n now (mc\<lparr>mc_port := q\<rparr>) a (d + of_bool accepted)"
| refresh: "mc_reach c n now mc a d \<Longrightarrow> mc_refreshEvent mc = Some now \<Longrightarrow> refresh_ready mc \<Longrightarrow>
    processRefreshEvent c now mc = Inr mc' \<Longrightarrow> mc_reach c n now mc' a d"
| drain: "mc_reach c n now mc a d \<Longrightarrow> mc_reach c n now (snd (mc_drain now mc)) a d"
| time: "mc_reach c n now mc a d \<Longrightarrow> now \<le> t \<Longrightarrow> not_before t (mc_respondEvent mc) \<Longrightarrow> not_before t (pq_sendEvent (mc_port mc)) \<Longrightarrow>
    not_before t (mc_nextReqEvent mc) \<Longrightarrow> not_before t (mc_refreshEvent mc) \<Longrightarrow> mc_reach c n t mc a d"

definition run_inv :: "dram_config \<Rightarrow> nat \<Rightarrow> tick \<Rightarrow> dram_ctrl \<Rightarrow> bool" where
  "run_inv c n now mc = (mc_inv c n now mc \<and> bus_inv c mc \<and> length (pq_transmitList (mc_port mc)) \<le> 101)"

lemma request_step:
  assumes c: "config_ok c" and i: "run_inv c n now mc" and p: "req_ready c n mc p" "isRead (pk_cmd p) \<or> isWrite (pk_cmd p)"
    and port: "length (pq_transmitList (mc_port mc)) \<le> 100"
  shows "\<exists>ok mc'. mc_recvTimingReq c now p mc = Inr (ok, mc') \<and> run_inv c n now mc' \<and> owed mc' = owed mc + of_bool (ok \<and> needsResponse (pk_cmd p))"
proof -
  have inv: "mc_inv c n now mc" "bus_inv c mc" using i by (simp_all add: run_inv_def)
  have "\<exists>ok mc'. mc_recvTimingReq c now p mc = Inr (ok, mc') \<and> mc_inv c n now mc' \<and> owed mc' = owed mc + of_bool (ok \<and> needsResponse (pk_cmd p))"
  proof (cases "isRead (pk_cmd p)")
    case True
    then have "needsResponse (pk_cmd p)" using p(1) by (simp add: req_ready_def)
    then have e: "of_bool (ok \<and> needsResponse (pk_cmd p)) = (of_bool ok :: nat)" for ok by simp
    show ?thesis unfolding e using mc_recvTimingReq_read [OF c inv(1) p(1) True port] by blast
  next
    case False
    then show ?thesis using mc_recvTimingReq_write [OF c inv(1) p(1) _ port] p(2) by blast
  qed
  then obtain ok mc' where r: "mc_recvTimingReq c now p mc = Inr (ok, mc')" "mc_inv c n now mc'" "owed mc' = owed mc + of_bool (ok \<and> needsResponse (pk_cmd p))" by blast
  have f: "bus_frame mc mc'" using framed_recvTimingReq [of mc c now p] r(1) by (simp add: framed_def)
  have "bus_inv c mc'" "length (pq_transmitList (mc_port mc')) \<le> 101" using bus_frame_inv [OF f inv(2)] f port by (simp_all add: bus_frame_def)
  with r show ?thesis by (intro exI [of _ ok] exI [of _ mc']) (simp add: run_inv_def)
qed

lemma turn_step:
  assumes "run_inv c n now mc"
  shows "\<exists>mc'. processNextReqEvent c now mc = Inr mc' \<and> run_inv c n now mc' \<and> owed mc' = owed mc"
  using processNextReqEvent_ok [of c n now mc] assms by (auto simp: run_inv_def req_turn_def)

lemma respond_step:
  assumes "run_inv c n now mc" "mc_respondEvent mc = Some now" "length (pq_transmitList (mc_port mc)) \<le> 100"
  shows "\<exists>mc'. processRespondEvent c now mc = Inr mc' \<and> run_inv c n now mc' \<and> owed mc' = owed mc"
proof -
  obtain mc' where r: "processRespondEvent c now mc = Inr mc'" "mc_inv c n now mc'" "owed mc' = owed mc"
    using processRespondEvent_ok [OF _ assms(2,3)] assms(1) unfolding run_inv_def by blast
  with processRespondEvent_bus [OF r(1)] assms show ?thesis by (simp add: run_inv_def)
qed

lemma refresh_step:
  assumes "run_inv c n now mc" "refresh_ready mc"
  shows "\<exists>mc'. processRefreshEvent c now mc = Inr mc' \<and> run_inv c n now mc' \<and> owed mc' = owed mc"
proof -
  obtain mc' where "processRefreshEvent c now mc = Inr mc'" "mc_inv c n now mc'" "bus_inv c mc'" "owed mc' = owed mc" "mc_port mc' = mc_port mc"
    using processRefreshEvent_ok [of c n now mc] assms unfolding run_inv_def refresh_ready_def by blast
  then show ?thesis using assms(1) by (simp add: run_inv_def)
qed

lemma port_step:
  assumes "run_inv c n now mc" "pq_inv now q" "pq_transmitList (mc_port mc) \<noteq> []"
    and "pq_transmitList q = (if accepted then queue_calls [] (tl (pq_transmitList (mc_port mc))) else pq_transmitList (mc_port mc))"
  shows "run_inv c n now (mc\<lparr>mc_port := q\<rparr>)" "owed (mc\<lparr>mc_port := q\<rparr>) + of_bool accepted = owed mc"
  using assms by (auto simp: run_inv_def mc_inv_def counters_ok_def bus_inv_frame owed_def queue_calls_def neq_Nil_conv)

lemma pq_moving: "pq_inv now q \<Longrightarrow> pq_sendEvent q = Some t \<or> pq_waitingOnRetry q \<Longrightarrow> pq_transmitList q \<noteq> []"
  by (auto simp: pq_inv_def split: if_splits)

lemma send_step:
  assumes "run_inv c n now mc" "pq_sendEvent (mc_port mc) = Some now"
  shows "\<exists>q. processSendEvent now accepted [] (mc_port mc) = Inr q \<and> run_inv c n now (mc\<lparr>mc_port := q\<rparr>) \<and>
    owed (mc\<lparr>mc_port := q\<rparr>) + of_bool accepted = owed mc"
proof -
  have i: "pq_inv now (mc_port mc)" "length (pq_transmitList (mc_port mc)) \<le> 101" using assms(1) by (simp_all add: run_inv_def mc_inv_def)
  obtain q where q: "processSendEvent now accepted [] (mc_port mc) = Inr q" "pq_inv now q"
    "pq_transmitList q = (if accepted then queue_calls [] (tl (pq_transmitList (mc_port mc))) else pq_transmitList (mc_port mc))"
    using processSendEvent_ok [OF i(1) assms(2), of "[]" accepted] i(2) by (auto simp: calls_ok_def)
  with port_step [OF assms(1) q(2) _ q(3)] pq_moving [OF i(1)] assms(2) show ?thesis by blast
qed

lemma resend_step:
  assumes "run_inv c n now mc" "pq_waitingOnRetry (mc_port mc)"
  shows "\<exists>q. pq_retry now accepted [] (mc_port mc) = Inr q \<and> run_inv c n now (mc\<lparr>mc_port := q\<rparr>) \<and>
    owed (mc\<lparr>mc_port := q\<rparr>) + of_bool accepted = owed mc"
proof -
  have i: "pq_inv now (mc_port mc)" "length (pq_transmitList (mc_port mc)) \<le> 101" using assms(1) by (simp_all add: run_inv_def mc_inv_def)
  obtain q where q: "pq_retry now accepted [] (mc_port mc) = Inr q" "pq_inv now q"
    "pq_transmitList q = (if accepted then queue_calls [] (tl (pq_transmitList (mc_port mc))) else pq_transmitList (mc_port mc))"
    using pq_retry_ok [OF i(1) assms(2), of "[]" accepted] i(2) by (auto simp: calls_ok_def)
  with port_step [OF assms(1) q(2) _ q(3)] pq_moving [OF i(1)] assms(2) show ?thesis by blast
qed

lemma pq_inv_drainManager: "pq_inv now (q\<lparr>pq_drainManager := b\<rparr>) = pq_inv now q"
  by (simp add: pq_inv_def split: option.split)

lemma pq_drain_simps: "pq_inv now (snd (pq_drain q)) = pq_inv now q" "pq_transmitList (snd (pq_drain q)) = pq_transmitList q"
  by (simp_all add: pq_drain_def pq_inv_drainManager)

lemma drain_frame:
  "run_inv c n now (mc\<lparr>mc_drainManager := b\<rparr>) = run_inv c n now mc" "run_inv c n now (kick_nextReq t mc) = run_inv c n now mc"
  "run_inv c n now (mc\<lparr>mc_port := snd (pq_drain (mc_port mc))\<rparr>) = run_inv c n now mc" "owed (mc\<lparr>mc_drainManager := b\<rparr>) = owed mc"
  "owed (mc\<lparr>mc_port := snd (pq_drain (mc_port mc))\<rparr>) = owed mc"
  by (simp_all add: run_inv_def mc_inv_def counters_ok_def bus_inv_def owed_def pq_drain_simps kick_nextReq_def)

lemma drain_step:
  assumes "run_inv c n now mc"
  shows "run_inv c n now (snd (mc_drain now mc))" "owed (snd (mc_drain now mc)) = owed mc"
proof -
  let ?m = "mc\<lparr>mc_port := snd (pq_drain (mc_port mc))\<rparr>"
  have "snd (mc_drain now mc) \<in> {?m, ?m\<lparr>mc_drainManager := True\<rparr>, kick_nextReq now (?m\<lparr>mc_drainManager := True\<rparr>)}"
    by (simp add: mc_drain_def Let_def split: prod.split)
  moreover have "run_inv c n now ?m" "owed ?m = owed mc" using assms drain_frame by blast+
  ultimately show "run_inv c n now (snd (mc_drain now mc))" "owed (snd (mc_drain now mc)) = owed mc"
    using drain_frame(1,2,4) owed_frame(8) by (metis insertE singletonD)+
qed

lemma time_step:
  assumes "run_inv c n now mc" "now \<le> t" "not_before t (mc_respondEvent mc)" "not_before t (pq_sendEvent (mc_port mc))"
  shows "run_inv c n t mc"
proof -
  have "pq_inv now (mc_port mc)" "respond_armed now (mc_respQueue mc) (mc_respondEvent mc)" using assms(1) by (simp_all add: run_inv_def mc_inv_def)
  then have "pq_inv t (mc_port mc)" "respond_armed t (mc_respQueue mc) (mc_respondEvent mc)"
    using assms(2-4) by (auto simp: pq_inv_def respond_armed_def not_before_def split: if_splits option.splits list.splits)
  with assms(1) show ?thesis by (simp add: run_inv_def mc_inv_def)
qed

lemma mc_reach_inv:
  assumes "config_ok c" "mc_reach c n now mc a d"
  shows "run_inv c n now mc \<and> a = d + owed mc"
  using assms(2)
proof (induction rule: mc_reach.induct)
  case (start now mc)
  then show ?case by (simp add: run_inv_def owed_def)
next
  case (request now mc a d p ok mc')
  then show ?case using request_step [OF assms(1), of n now mc p] by auto
next
  case (turn now mc a d mc')
  then show ?case using turn_step [of c n now mc] by auto
next
  case (respond now mc a d mc')
  then show ?case using respond_step [of c n now mc] by auto
next
  case (send now mc a d accepted q)
  then show ?case using send_step [of c n now mc accepted] by auto
next
  case (resend now mc a d accepted q)
  then show ?case using resend_step [of c n now mc accepted] by auto
next
  case (refresh now mc a d mc')
  then show ?case using refresh_step [of c n now mc] by auto
next
  case (drain now mc a d)
  then show ?case using drain_step [of c n now mc] by auto
next
  case (time now mc a d t)
  then show ?case using time_step [of c n now mc t] by auto
qed

section \<open>The constructed controller\<close>

lemma dram_state0_ok:
  assumes "dg_ranksPerChannel (cf_geom c) = ranks" "dg_banksPerRank (cf_geom c) = banks"
  shows "banks_ok c (dram_state0 ranks banks (dt_activationLimit (cf_timing c)))"
proof -
  have b: "bank_wf Bank" "active_in_rank (replicate banks Bank) = 0"
    by (simp_all add: bank_wf_def open_rows_def Bank_def active_in_rank_def filter_replicate)
  have "dram_wf (cf_geom c) (cf_timing c) (dram_state0 ranks banks (dt_activationLimit (cf_timing c)))"
    using assms b by (simp add: dram_wf_def dram_state0_def list_all_iff sum_list_replicate)
  moreover have "rank_ok (cf_timing c) (replicate k 0) (replicate banks Bank)" for k
  proof -
    have "sorted_wrt (\<ge>) (replicate k (0::tick))" by (induction k) simp_all
    then show ?thesis by (cases k) (simp_all add: rank_ok_def Bank_def)
  qed
  ultimately show ?thesis by (simp add: banks_ok_def acts_ok_def dram_state0_def)
qed

text \<open>
  The controller after construction, registration of the statistics and start-up, with the tables of its control
  plane and the backing store in place.
\<close>

definition started :: "dram_cp \<Rightarrow> u8 list \<Rightarrow> dram_ctrl \<Rightarrow> dram_ctrl" where
  "started cp bs mc = mc\<lparr>mc_cp := cp, mc_mem := setBackingStore (Some bs) (mc_mem mc)\<rparr>"

lemma DRAMCtrl_result:
  assumes "DRAMCtrl p rng system name = Inr (c, mc)"
  shows "mc_dram mc = dram_state0 (dg_ranksPerChannel (cf_geom c)) (dg_banksPerRank (cf_geom c)) (dt_activationLimit (cf_timing c))"
    and "mc_port mc = PacketQueue name" "mc_readQueue mc = []" "mc_writeQueue mc = []" "mc_respQueue mc = []" "mc_helpers mc = []"
    and "mc_respondEvent mc = None" "mc_refreshEvent mc = None" "mc_busState mc = BUS_READ" "mc_refreshState mc = REF_IDLE"
    and "me_range (mc_mem mc) = rng" "dt_tRP (cf_timing c) < cf_tREFI c" "cf_tRFC c < cf_tREFI c" "cf_writeLowThreshold c \<le> cf_writeHighThreshold c"
    and "mc_nextReqEvent mc = None" "mc_drainManager mc = False" "mc_powerEvent mc = None" "mc_pwrState mc = PWR_IDLE"
  using assms
  by (auto simp: DRAMCtrl_def AbstractMemory_def rbind_eq_Inr_iff Let_def intro!: div_le_mono split: if_splits)

lemma DRAMCtrl_started:
  assumes c: "DRAMCtrl p rng system name = Inr (c, mc0)" and cp: "cp_ok cp"
    and bs: "ar_start rng \<le> ar_end rng" "length bs = unat (ar_end rng) - unat (ar_start rng) + 1"
  shows "\<exists>mc. mc_startup c now (mc_regStats n mc0) = Inr mc \<and> mc_inv c n now (started cp bs mc) \<and> bus_inv c (started cp bs mc) \<and>
    owed (started cp bs mc) = 0 \<and> mc_refreshEvent mc = Some (now + cf_tREFI c - dt_tRP (cf_timing c))"
proof -
  note r = DRAMCtrl_result [OF c]
  let ?e = "Some (now + cf_tREFI c - dt_tRP (cf_timing c))"
  define mc where "mc = (mc_regStats n mc0)\<lparr>mc_pwrStateTick := now, mc_busBusyUntil := now + dt_tRP (cf_timing c) + dt_tRCD (cf_timing c) + cf_tCL c, mc_refreshEvent := ?e\<rparr>"
  have s: "mc_startup c now (mc_regStats n mc0) = Inr mc"
    using r(8,12) by (simp add: mc_startup_def Let_def sched_ev_def rbind_assert tick_sub_def mc_def mc_regStats_def)
  have "mem_ready n (mc_mem (started cp bs mc))"
    using bs r(11) by (simp add: mem_ready_def started_def mc_def mc_regStats_def me_regStats_def setBackingStore_def Let_def)
  then have i: "mc_inv c n now (started cp bs mc)"
    using r cp by (simp add: mc_inv_def counters_ok_def ldom_ok_def started_def mc_def mc_regStats_def PacketQueue_inv writes_ok_def helpers_ok_def
        shared_packets_def respond_armed_def)
  have b: "bus_inv c (started cp bs mc)"
    using r dram_state0_ok [OF refl refl, of c] by (simp add: bus_inv_def started_def mc_def mc_regStats_def bus_lead_def)
  have "owed (started cp bs mc) = 0"
    using r by (simp add: owed_def outstanding_def started_def mc_def mc_regStats_def PacketQueue_def)
  then show ?thesis using s i b by (intro exI [of _ mc]) (simp add: mc_def)
qed

section \<open>Limits of the access path\<close>

text \<open>The constructor asks the system for the line size of the caches before a system is set.\<close>

lemma check_interleaving_null:
  "ar_interleaved rng \<Longrightarrow> pr_channels p = ar_stripes rng \<Longrightarrow> pr_addr_mapping p \<noteq> RoRaBaChCo \<Longrightarrow>
   check_interleaving p rng None = Inl BadAccess"
  by (simp add: check_interleaving_def)

text \<open>A request for the same row counts as a hit also when it uses the other row buffer, which does not hold the row.\<close>

lemma adaptive_scan_ignores_rowbuf:
  "dp_rank p = dp_rank dp \<Longrightarrow> dp_bank p = dp_bank dp \<Longrightarrow> dp_row p = dp_row dp \<Longrightarrow> fst (adaptive_scan pol dp False conflict [p])"
  by simp

end
