(* ===== verification/Event_Queue.thy ===== *)
theory Event_Queue
  imports Pard_Prelude
begin

text \<open>
  The simulator's event queue, \<^verbatim>\<open>sim/eventq.hh\<close>, \<^verbatim>\<open>sim/eventq_impl.hh\<close> and
  \<^verbatim>\<open>sim/eventq.cc\<close> of gem5: a linked list of bins, one per time and priority, each bin a
  linked stack of events. Events live in an explicit store; pointers are store indices and
  stale \<^verbatim>\<open>nextBin\<close> pointers stay in the store as they do in memory. The pointer walks are
  partial functions: \<open>None\<close> is a walk that never returns.
\<close>

section \<open>Event\<close>

record event =
  ev_nextBin :: "nat option"
  ev_nextInBin :: "nat option"
  ev_when :: tick
  ev_priority :: int
  ev_flags :: u16
  ev_queue :: "nat option"

definition PublicRead :: u16 where "PublicRead = 0x003f"
definition PublicWrite :: u16 where "PublicWrite = 0x001d"
definition Squashed :: u16 where "Squashed = 0x0001"
definition Scheduled :: u16 where "Scheduled = 0x0002"
definition AutoDelete :: u16 where "AutoDelete = 0x0004"
definition AutoSerialize :: u16 where "AutoSerialize = 0x0008"
definition IsExitEvent :: u16 where "IsExitEvent = 0x0010"
definition IsMainQueue :: u16 where "IsMainQueue = 0x0020"
definition Initialized :: u16 where "Initialized = 0x7a40"
definition InitMask :: u16 where "InitMask = 0xffc0"

lemmas event_flag_defs =
  PublicRead_def PublicWrite_def Squashed_def Scheduled_def AutoDelete_def AutoSerialize_def
  IsExitEvent_def IsMainQueue_def Initialized_def InitMask_def

definition ev_isSet :: "u16 \<Rightarrow> event \<Rightarrow> bool" where
  "ev_isSet f e = (ev_flags e AND f \<noteq> 0)"

definition ev_setFlag :: "u16 \<Rightarrow> event \<Rightarrow> event" where
  "ev_setFlag f e = e\<lparr>ev_flags := ev_flags e OR f\<rparr>"

definition ev_clearFlag :: "u16 \<Rightarrow> event \<Rightarrow> event" where
  "ev_clearFlag f e = e\<lparr>ev_flags := ev_flags e AND NOT f\<rparr>"

definition scheduled :: "event \<Rightarrow> bool" where "scheduled e = ev_isSet Scheduled e"
definition squashed :: "event \<Rightarrow> bool" where "squashed e = ev_isSet Squashed e"
definition isExitEvent :: "event \<Rightarrow> bool" where "isExitEvent e = ev_isSet IsExitEvent e"
definition squash :: "event \<Rightarrow> event" where "squash = ev_setFlag Squashed"

definition initialized :: "event \<Rightarrow> bool" where
  "initialized e = (ev_flags e AND InitMask = Initialized)"

definition Event :: "int \<Rightarrow> u16 \<Rightarrow> event result" where
  "Event p f =
     rbind (sim_assert (f AND NOT PublicWrite = 0)) (\<lambda>_.
       Inr \<lparr>ev_nextBin = None, ev_nextInBin = None, ev_when = 0, ev_priority = p,
            ev_flags = Initialized OR f, ev_queue = None\<rparr>)"

definition setWhen :: "tick \<Rightarrow> nat \<Rightarrow> event \<Rightarrow> event" where
  "setWhen t q e = e\<lparr>ev_when := t, ev_queue := Some q\<rparr>"

definition event_less :: "event \<Rightarrow> event \<Rightarrow> bool" where
  "event_less l r = (ev_when l < ev_when r \<or> (ev_when l = ev_when r \<and> ev_priority l < ev_priority r))"

definition event_le :: "event \<Rightarrow> event \<Rightarrow> bool" where
  "event_le l r = (ev_when l < ev_when r \<or> (ev_when l = ev_when r \<and> ev_priority l \<le> ev_priority r))"

definition event_eq :: "event \<Rightarrow> event \<Rightarrow> bool" where
  "event_eq l r = (ev_when l = ev_when r \<and> ev_priority l = ev_priority r)"

section \<open>EventQueue\<close>

type_synonym event_store = "nat \<Rightarrow> event"

record event_queue =
  eq_id :: nat
  eq_head :: "nat option"
  eq_curTick :: tick
  eq_async :: "nat list"
  eq_events :: event_store

definition EventQueue :: "nat \<Rightarrow> event_store \<Rightarrow> event_queue" where
  "EventQueue n es = \<lparr>eq_id = n, eq_head = None, eq_curTick = 0, eq_async = [], eq_events = es\<rparr>"

definition upd_event :: "nat \<Rightarrow> (event \<Rightarrow> event) \<Rightarrow> event_store \<Rightarrow> event_store" where
  "upd_event i f es = es(i := f (es i))"

definition eq_upd :: "nat \<Rightarrow> (event \<Rightarrow> event) \<Rightarrow> event_queue \<Rightarrow> event_queue" where
  "eq_upd i f q = q\<lparr>eq_events := upd_event i f (eq_events q)\<rparr>"

text \<open>\<^verbatim>\<open>insertBefore\<close> returns its first argument; the result here is the updated store.\<close>

definition insertBefore :: "event_store \<Rightarrow> nat \<Rightarrow> nat option \<Rightarrow> event_store" where
  "insertBefore es event cur =
     (case cur of
        None \<Rightarrow> upd_event event (\<lambda>e. e\<lparr>ev_nextBin := None, ev_nextInBin := None\<rparr>) es
      | Some c \<Rightarrow>
          if event_less (es event) (es c)
          then upd_event event (\<lambda>e. e\<lparr>ev_nextBin := cur, ev_nextInBin := None\<rparr>) es
          else upd_event event (\<lambda>e. e\<lparr>ev_nextBin := ev_nextBin (es c), ev_nextInBin := cur\<rparr>) es)"

partial_function (option) find_bin ::
  "event_store \<Rightarrow> event \<Rightarrow> nat \<Rightarrow> nat option \<Rightarrow> (nat \<times> nat option) option" where
  "find_bin es event prev cur =
     (case cur of
        None \<Rightarrow> Some (prev, None)
      | Some c \<Rightarrow>
          if event_less (es c) event then find_bin es event c (ev_nextBin (es c))
          else Some (prev, cur))"

definition eq_insert :: "event_queue \<Rightarrow> nat \<Rightarrow> event_queue option" where
  "eq_insert q event =
     (let es = eq_events q in
      case eq_head q of
        None \<Rightarrow> Some (q\<lparr>eq_head := Some event, eq_events := insertBefore es event None\<rparr>)
      | Some h \<Rightarrow>
          if event_le (es event) (es h)
          then Some (q\<lparr>eq_head := Some event, eq_events := insertBefore es event (Some h)\<rparr>)
          else case find_bin es (es event) h (ev_nextBin (es h)) of
            None \<Rightarrow> None
          | Some (prev, cur) \<Rightarrow>
              Some (q\<lparr>eq_events := upd_event prev (\<lambda>e. e\<lparr>ev_nextBin := Some event\<rparr>)
                                     (insertBefore es event cur)\<rparr>))"

text \<open>The walk down a bin: \<open>Some (Inl Panic)\<close> is \<^verbatim>\<open>panic("event not found!")\<close>.\<close>

partial_function (option) find_in_bin ::
  "event_store \<Rightarrow> nat \<Rightarrow> nat \<Rightarrow> nat option \<Rightarrow> nat result option" where
  "find_in_bin es event cur nxt =
     (if nxt \<noteq> Some event then
        (case nxt of
           None \<Rightarrow> Some (Inl Panic)
         | Some n \<Rightarrow> find_in_bin es event n (ev_nextInBin (es n)))
      else Some (Inr cur))"

definition removeItem :: "event_store \<Rightarrow> nat \<Rightarrow> nat \<Rightarrow> (event_store \<times> nat option) result option" where
  "removeItem es event tp =
     (let nxt = ev_nextInBin (es tp) in
      if event = tp then
        (case nxt of
           None \<Rightarrow> Some (Inr (es, ev_nextBin (es tp)))
         | Some n \<Rightarrow> Some (Inr (upd_event n (\<lambda>e. e\<lparr>ev_nextBin := ev_nextBin (es tp)\<rparr>) es, nxt)))
      else case find_in_bin es event tp nxt of
        None \<Rightarrow> None
      | Some (Inl err) \<Rightarrow> Some (Inl err)
      | Some (Inr cur) \<Rightarrow>
          Some (Inr (upd_event cur (\<lambda>e. e\<lparr>ev_nextInBin := ev_nextInBin (es event)\<rparr>) es, Some tp)))"

definition eq_remove :: "event_queue \<Rightarrow> nat \<Rightarrow> event_queue result option" where
  "eq_remove q event =
     (let es = eq_events q in
      case eq_head q of
        None \<Rightarrow> Some (Inl Panic)
      | Some h \<Rightarrow>
          if ev_queue (es event) \<noteq> Some (eq_id q) then Some (Inl AssertFail)
          else if event_eq (es h) (es event) then
            (case removeItem es event h of
               None \<Rightarrow> None
             | Some r \<Rightarrow> Some (rbind r (\<lambda>(es', h'). Inr (q\<lparr>eq_head := h', eq_events := es'\<rparr>))))
          else case find_bin es (es event) h (ev_nextBin (es h)) of
            None \<Rightarrow> None
          | Some (prev, None) \<Rightarrow> Some (Inl Panic)
          | Some (prev, Some c) \<Rightarrow>
              if \<not> event_eq (es c) (es event) then Some (Inl Panic)
              else case removeItem es event c of
                None \<Rightarrow> None
              | Some r \<Rightarrow> Some (rbind r (\<lambda>(es', tp).
                  Inr (q\<lparr>eq_events := upd_event prev (\<lambda>e. e\<lparr>ev_nextBin := tp\<rparr>) es'\<rparr>))))"

definition asyncInsert :: "event_queue \<Rightarrow> nat \<Rightarrow> event_queue" where
  "asyncInsert q event = q\<lparr>eq_async := eq_async q @ [event]\<rparr>"

text \<open>
  \<^verbatim>\<open>schedule\<close>, \<^verbatim>\<open>deschedule\<close> and \<^verbatim>\<open>reschedule\<close>: the globals \<^verbatim>\<open>inParallelMode\<close> and
  \<^verbatim>\<open>curEventQueue()\<close> are arguments. The result is \<open>None\<close> when a walk does not return.
\<close>

definition eq_schedule :: "bool \<Rightarrow> nat \<Rightarrow> event_queue \<Rightarrow> nat \<Rightarrow> tick \<Rightarrow> bool \<Rightarrow> event_queue result option" where
  "eq_schedule inParallelMode curq q event t global =
     (let e = eq_events q event in
      if \<not> (t \<ge> eq_curTick q \<and> \<not> scheduled e \<and> initialized e) then Some (Inl AssertFail)
      else
        let q1 = eq_upd event (setWhen t (eq_id q)) q in
        map_option (\<lambda>q2. Inr (eq_upd event (ev_setFlag Scheduled) q2))
          (if inParallelMode \<and> (eq_id q \<noteq> curq \<or> global) then Some (asyncInsert q1 event)
           else eq_insert q1 event))"

definition eq_deschedule :: "bool \<Rightarrow> nat \<Rightarrow> event_queue \<Rightarrow> nat \<Rightarrow> event_queue result option" where
  "eq_deschedule inParallelMode curq q event =
     (let e = eq_events q event in
      if \<not> (scheduled e \<and> initialized e \<and> (\<not> inParallelMode \<or> eq_id q = curq)) then Some (Inl AssertFail)
      else map_option (\<lambda>r. rbind r (\<lambda>q1.
             Inr (eq_upd event (ev_clearFlag Scheduled) (eq_upd event (ev_clearFlag Squashed) q1))))
           (eq_remove q event))"

definition eq_reschedule ::
  "bool \<Rightarrow> nat \<Rightarrow> event_queue \<Rightarrow> nat \<Rightarrow> tick \<Rightarrow> bool \<Rightarrow> event_queue result option" where
  "eq_reschedule inParallelMode curq q event t always =
     (let e = eq_events q event in
      if \<not> (t \<ge> eq_curTick q \<and> (always \<or> scheduled e) \<and> initialized e
             \<and> (\<not> inParallelMode \<or> eq_id q = curq)) then Some (Inl AssertFail)
      else
        case (if scheduled e then eq_remove q event else Some (Inr q)) of
          None \<Rightarrow> None
        | Some (Inl err) \<Rightarrow> Some (Inl err)
        | Some (Inr q1) \<Rightarrow>
            map_option (\<lambda>q2. Inr (eq_upd event (ev_setFlag Scheduled) (eq_upd event (ev_clearFlag Squashed) q2)))
              (eq_insert (eq_upd event (setWhen t (eq_id q)) q1) event))"

text \<open>
  \<^verbatim>\<open>serviceOne\<close>: the virtual method \<^verbatim>\<open>process\<close> is an argument that may change the queue. The
  deletion of an \<^verbatim>\<open>AutoDelete\<close> event releases its storage and changes no other event.
\<close>

definition eq_pop :: "event_queue \<Rightarrow> (nat \<times> event_queue) result" where
  "eq_pop q =
     (case eq_head q of
        None \<Rightarrow> Inl BadAccess
      | Some event \<Rightarrow>
          let es = upd_event event (ev_clearFlag Scheduled) (eq_events q) in
          case ev_nextInBin (es event) of
            Some n \<Rightarrow> Inr (event, q\<lparr>eq_head := Some n,
                eq_events := upd_event n (\<lambda>e. e\<lparr>ev_nextBin := ev_nextBin (es event)\<rparr>) es\<rparr>)
          | None \<Rightarrow> Inr (event, q\<lparr>eq_head := ev_nextBin (es event), eq_events := es\<rparr>))"

definition serviceOne ::
  "(nat \<Rightarrow> event_queue \<Rightarrow> event_queue) \<Rightarrow> event_queue \<Rightarrow> (nat option \<times> event_queue) result" where
  "serviceOne process q =
     rbind (eq_pop q) (\<lambda>(event, q1).
       if \<not> squashed (eq_events q1 event) then
         let q2 = process event (q1\<lparr>eq_curTick := ev_when (eq_events q1 event)\<rparr>); e = eq_events q2 event in
         if isExitEvent e then
           rbind (sim_assert (\<not> ev_isSet AutoDelete e \<or> \<not> ev_isSet IsMainQueue e)) (\<lambda>_. Inr (Some event, q2))
         else Inr (None, q2)
       else Inr (None, eq_upd event (ev_clearFlag Squashed) q1))"

partial_function (option) serviceEvents ::
  "(nat \<Rightarrow> event_queue \<Rightarrow> event_queue) \<Rightarrow> tick \<Rightarrow> event_queue \<Rightarrow> event_queue result option" where
  "serviceEvents process t q =
     (case eq_head q of
        None \<Rightarrow> Some (Inr (q\<lparr>eq_curTick := t\<rparr>))
      | Some h \<Rightarrow>
          if ev_when (eq_events q h) > t then Some (Inr (q\<lparr>eq_curTick := t\<rparr>))
          else case serviceOne process q of
            Inl err \<Rightarrow> Some (Inl err)
          | Inr (_, q1) \<Rightarrow> serviceEvents process t q1)"

fun async_insert_all :: "nat list \<Rightarrow> event_queue \<Rightarrow> event_queue option" where
  "async_insert_all [] q = Some q"
| "async_insert_all (e # es) q =
     (case eq_insert q e of None \<Rightarrow> None | Some q1 \<Rightarrow> async_insert_all es (q1\<lparr>eq_async := es\<rparr>))"

definition handleAsyncInsertions :: "nat \<Rightarrow> event_queue \<Rightarrow> event_queue result option" where
  "handleAsyncInsertions curq q =
     (if eq_id q \<noteq> curq then Some (Inl AssertFail)
      else map_option Inr (async_insert_all (eq_async q) q))"

definition replaceHead :: "nat option \<Rightarrow> event_queue \<Rightarrow> nat option \<times> event_queue" where
  "replaceHead s q = (eq_head q, q\<lparr>eq_head := s\<rparr>)"

section \<open>The bins a queue represents\<close>

fun stack :: "event_store \<Rightarrow> nat option \<Rightarrow> nat list \<Rightarrow> bool" where
  "stack es p [] = (p = None)"
| "stack es p (x # xs) = (p = Some x \<and> stack es (ev_nextInBin (es x)) xs)"

fun bins :: "event_store \<Rightarrow> nat option \<Rightarrow> nat list list \<Rightarrow> bool" where
  "bins es h [] = (h = None)"
| "bins es h (b # bs) =
     (b \<noteq> [] \<and> h = Some (hd b) \<and> stack es (ev_nextInBin (es (hd b))) (tl b) \<and>
      bins es (ev_nextBin (es (hd b))) bs)"

definition bins_ok :: "event_store \<Rightarrow> nat list list \<Rightarrow> bool" where
  "bins_ok es bs =
     ((\<forall>b\<in>set bs. b \<noteq> [] \<and> (\<forall>x\<in>set b. event_eq (es x) (es (hd b)))) \<and>
      sorted_wrt (\<lambda>b c. event_less (es (hd b)) (es (hd c))) bs \<and> distinct (concat bs))"

lemma event_order:
  "event_le l r \<longleftrightarrow> \<not> event_less r l"
  "event_eq l r \<longleftrightarrow> \<not> event_less l r \<and> \<not> event_less r l"
  by (auto simp: event_le_def event_less_def event_eq_def)

lemma event_less_trans: "event_less a b \<Longrightarrow> event_less b c \<Longrightarrow> event_less a c"
  by (auto simp: event_less_def)

lemma event_less_le_trans: "event_less a b \<Longrightarrow> \<not> event_less c b \<Longrightarrow> event_less a c"
  by (auto simp: event_less_def)

lemma event_less_irrefl [simp]: "\<not> event_less a a"
  by (simp add: event_less_def)

lemma event_less_links [simp]:
  "event_less (e\<lparr>ev_nextBin := x\<rparr>) r = event_less e r" "event_less l (e\<lparr>ev_nextBin := x\<rparr>) = event_less l e"
  "event_less (e\<lparr>ev_nextInBin := x\<rparr>) r = event_less e r" "event_less l (e\<lparr>ev_nextInBin := x\<rparr>) = event_less l e"
  "event_less (e\<lparr>ev_flags := f\<rparr>) r = event_less e r" "event_less l (e\<lparr>ev_flags := f\<rparr>) = event_less l e"
  by (simp_all add: event_less_def)

text \<open>The order and the links of the events are all that matters.\<close>

definition same_links :: "event_store \<Rightarrow> event_store \<Rightarrow> nat set \<Rightarrow> bool" where
  "same_links es es' A = (\<forall>x\<in>A. ev_nextInBin (es' x) = ev_nextInBin (es x) \<and> ev_nextBin (es' x) = ev_nextBin (es x))"

definition same_keys :: "event_store \<Rightarrow> event_store \<Rightarrow> nat set \<Rightarrow> bool" where
  "same_keys es es' A = (\<forall>x\<in>A. ev_when (es' x) = ev_when (es x) \<and> ev_priority (es' x) = ev_priority (es x))"

lemma stack_cong:
  "\<forall>x\<in>set xs. ev_nextInBin (es' x) = ev_nextInBin (es x) \<Longrightarrow> stack es' p xs = stack es p xs"
  by (induction xs arbitrary: p) auto

lemma bins_cong: "same_links es es' (set (concat bs)) \<Longrightarrow> bins es' h bs = bins es h bs"
proof (induction bs arbitrary: h)
  case (Cons b bs)
  show ?case
  proof (cases b)
    case b: (Cons x xs)
    have "stack es' p xs = stack es p xs" for p
      by (rule stack_cong) (use Cons.prems b in \<open>auto simp: same_links_def\<close>)
    then show ?thesis using Cons b by (auto simp: same_links_def)
  qed simp
qed simp

lemma bins_ok_cong:
  assumes "same_keys es es' (set (concat bs))"
  shows "bins_ok es' bs = bins_ok es bs"
proof -
  have less: "event_less (es' x) (es' y) = event_less (es x) (es y)"
    if "x \<in> set (concat bs)" "y \<in> set (concat bs)" for x y
    using assms that by (auto simp: same_keys_def event_less_def)
  show ?thesis
  proof (cases "\<forall>b\<in>set bs. b \<noteq> []")
    case True
    then have hd: "hd b \<in> set (concat bs)" if "b \<in> set bs" for b
      using that by (auto intro!: bexI [of _ b])
    have "sorted_wrt (\<lambda>b c. event_less (es' (hd b)) (es' (hd c))) bs =
        sorted_wrt (\<lambda>b c. event_less (es (hd b)) (es (hd c))) bs"
      by (rule iffI; erule sorted_wrt_mono_rel [rotated]) (use hd less in auto)
    moreover have "(\<forall>b\<in>set bs. \<forall>x\<in>set b. event_eq (es' x) (es' (hd b))) =
        (\<forall>b\<in>set bs. \<forall>x\<in>set b. event_eq (es x) (es (hd b)))"
      using hd less by (fastforce simp: event_order)
    ultimately show ?thesis by (auto simp: bins_ok_def)
  qed (auto simp: bins_ok_def)
qed

text \<open>Replacing the tail of the bin list behind the bin of \<open>prev\<close>.\<close>

lemma bins_append:
  "bins es h (pre @ (prev # ps) # post) \<Longrightarrow> bins es (ev_nextBin (es prev)) post"
  by (induction pre arbitrary: h) auto

lemma bins_replace_tail:
  assumes "bins es h (pre @ (prev # ps) # post)" "distinct (concat (pre @ [prev # ps]))"
    and "bins es' (ev_nextBin (es' prev)) post'"
    and "\<forall>x\<in>set (concat pre) \<union> set ps. ev_nextInBin (es' x) = ev_nextInBin (es x) \<and> ev_nextBin (es' x) = ev_nextBin (es x)"
    and "ev_nextInBin (es' prev) = ev_nextInBin (es prev)"
  shows "bins es' h (pre @ (prev # ps) # post')"
  using assms
proof (induction pre arbitrary: h)
  case Nil
  then have "stack es' p ps = stack es p ps" for p by (intro stack_cong) auto
  then show ?case using Nil by auto
next
  case (Cons b pre)
  have "bins es' (ev_nextBin (es (hd b))) (pre @ (prev # ps) # post')"
    by (rule Cons.IH) (use Cons.prems in auto)
  moreover obtain x xs where "b = x # xs" using Cons.prems(1) by (cases b) auto
  moreover have "stack es' p xs = stack es p xs" for p
    by (rule stack_cong) (use Cons.prems \<open>b = x # xs\<close> in auto)
  ultimately show ?case using Cons.prems by auto
qed

text \<open>The walk along the bins stops in front of the first bin that is not earlier.\<close>

lemma find_bin_split:
  assumes "bins es cur post" "bins_ok es post"
  obtains pre' post' prev' where "find_bin es e prev cur = Some (prev', case post' of [] \<Rightarrow> None | b # _ \<Rightarrow> Some (hd b))"
    "post = pre' @ post'" "\<forall>b\<in>set pre'. event_less (es (hd b)) e"
    "\<forall>b\<in>set post'. \<not> event_less (es (hd b)) e"
    "prev' = (if pre' = [] then prev else hd (last pre'))"
  using assms
proof (induction post arbitrary: prev cur thesis)
  case Nil
  show ?case by (rule Nil.prems(1) [of prev "[]" "[]"]) (use Nil in \<open>auto simp: find_bin.simps\<close>)
next
  case (Cons b post)
  have ok: "bins_ok es post" using Cons.prems(3) by (auto simp: bins_ok_def)
  have cur: "cur = Some (hd b)" "b \<noteq> []" "bins es (ev_nextBin (es (hd b))) post" using Cons.prems(2) by auto
  show ?case
  proof (cases "event_less (es (hd b)) e")
    case True
    obtain pre' post' prev' where *: "find_bin es e (hd b) (ev_nextBin (es (hd b))) = Some (prev', case post' of [] \<Rightarrow> None | b # _ \<Rightarrow> Some (hd b))"
      "post = pre' @ post'" "\<forall>b\<in>set pre'. event_less (es (hd b)) e"
      "\<forall>b\<in>set post'. \<not> event_less (es (hd b)) e"
      "prev' = (if pre' = [] then hd b else hd (last pre'))"
      by (rule Cons.IH [OF _ cur(3) ok])
    show ?thesis
      by (rule Cons.prems(1) [of prev' post' "b # pre'"]) (use * True cur in \<open>auto simp: find_bin.simps [of _ _ _ "Some _"]\<close>)
  next
    case False
    have "\<not> event_less (es (hd c)) e" if "c \<in> set post" for c
      using that False Cons.prems(3) event_less_trans by (auto simp: bins_ok_def)
    then show ?thesis
      by (intro Cons.prems(1) [of prev "b # post" "[]"]) (use False cur in \<open>auto simp: find_bin.simps\<close>)
  qed
qed

section \<open>Insertion\<close>

definition order_insert :: "event_store \<Rightarrow> nat \<Rightarrow> nat list \<Rightarrow> nat list" where
  "order_insert es e xs =
     takeWhile (\<lambda>x. event_less (es x) (es e)) xs @ e # dropWhile (\<lambda>x. event_less (es x) (es e)) xs"

fun ins_post :: "event_store \<Rightarrow> nat \<Rightarrow> nat list list \<Rightarrow> nat list list" where
  "ins_post es e [] = [[e]]"
| "ins_post es e (b # bs) = (if event_less (es e) (es (hd b)) then [e] # b # bs else (e # b) # bs)"

definition bins_head :: "nat list list \<Rightarrow> nat option" where
  "bins_head bs = (case bs of [] \<Rightarrow> None | b # _ \<Rightarrow> Some (hd b))"

lemma bins_headD: "bins es h bs \<Longrightarrow> h = bins_head bs"
  by (cases bs) (auto simp: bins_head_def)

lemma insertBefore_bins:
  assumes "bins es cur post" "e \<notin> set (concat post)"
  shows "bins (insertBefore es e cur) (Some e) (ins_post es e post)"
proof -
  have links: "same_links es (insertBefore es e cur) (set (concat post))"
    using assms(2) by (auto simp: same_links_def insertBefore_def upd_event_def split: option.splits)
  show ?thesis
  proof (cases post)
    case Nil
    then show ?thesis using assms by (simp add: insertBefore_def upd_event_def)
  next
    case (Cons b bs)
    then obtain x xs where b: "b = x # xs" using assms(1) by (cases b) auto
    have ne: "x \<noteq> e" using assms(2) Cons b by auto
    have stk: "stack (insertBefore es e cur) p xs = stack es p xs" for p
      by (rule stack_cong) (use links Cons b in \<open>auto simp: same_links_def\<close>)
    have bs: "bins (insertBefore es e cur) p bs = bins es p bs" for p
      by (rule bins_cong) (use links Cons in \<open>auto simp: same_links_def\<close>)
    show ?thesis
      using assms(1) Cons b stk bs ne by (auto simp: insertBefore_def upd_event_def)
  qed
qed

lemma concat_ins_post:
  assumes "bins_ok es post" "\<forall>b\<in>set post. \<not> event_less (es (hd b)) (es e)"
  shows "concat (ins_post es e post) = e # concat post"
  using assms by (cases post) auto

lemma bins_ok_mem: "bins_ok es bs \<Longrightarrow> b \<in> set bs \<Longrightarrow> x \<in> set b \<Longrightarrow> event_eq (es x) (es (hd b))"
  by (auto simp: bins_ok_def)

lemma bins_ok_append:
  "bins_ok es (pre @ post) \<longleftrightarrow> bins_ok es pre \<and> bins_ok es post \<and>
     (\<forall>b\<in>set pre. \<forall>c\<in>set post. event_less (es (hd b)) (es (hd c))) \<and>
     set (concat pre) \<inter> set (concat post) = {}"
  by (auto simp: bins_ok_def sorted_wrt_append)

lemma bins_ok_ins_post:
  assumes "bins_ok es (pre @ post)" "e \<notin> set (concat (pre @ post))"
    and "\<forall>b\<in>set pre. event_less (es (hd b)) (es e)" "\<forall>b\<in>set post. \<not> event_less (es (hd b)) (es e)"
  shows "bins_ok es (pre @ ins_post es e post)"
proof (cases post)
  case Nil
  then show ?thesis using assms by (auto simp: bins_ok_def event_order sorted_wrt_append)
next
  case (Cons b bs)
  show ?thesis
  proof (cases "event_less (es e) (es (hd b))")
    case True
    then show ?thesis using assms Cons event_less_trans
      by (auto simp: bins_ok_append) (auto simp: bins_ok_def event_order)
  next
    case False
    then have eq: "event_eq (es e) (es (hd b))" using assms Cons by (auto simp: event_order)
    then have "event_less (es e) x = event_less (es (hd b)) x" for x
      by (auto simp: event_less_def event_eq_def)
    moreover have "event_eq x (es e) = event_eq x (es (hd b))" for x
      using eq by (auto simp: event_eq_def)
    ultimately show ?thesis using assms Cons False eq
      by (auto simp: bins_ok_append) (auto simp: bins_ok_def event_order)
  qed
qed

lemma order_insert_split:
  assumes "bins_ok es (pre @ post)"
    and "\<forall>b\<in>set pre. event_less (es (hd b)) (es e)" "\<forall>b\<in>set post. \<not> event_less (es (hd b)) (es e)"
  shows "order_insert es e (concat (pre @ post)) = concat pre @ e # concat post"
proof -
  have 1: "event_less (es x) (es e)" if "x \<in> set (concat pre)" for x
    using that assms(1,2) by (fastforce simp: bins_ok_def event_eq_def event_less_def)
  have 2: "\<not> event_less (es x) (es e)" if "x \<in> set (concat post)" for x
    using that assms(1,3) by (fastforce simp: bins_ok_def event_eq_def event_less_def)
  show ?thesis
  proof (cases "concat post")
    case Nil
    have "takeWhile (\<lambda>x. event_less (es x) (es e)) (concat pre) = concat pre"
      "dropWhile (\<lambda>x. event_less (es x) (es e)) (concat pre) = []"
      using 1 unfolding takeWhile_eq_all_conv dropWhile_eq_Nil_conv by blast+
    then show ?thesis unfolding concat_append Nil order_insert_def by simp
  next
    case (Cons y ys)
    then show ?thesis using 1 2 [of y]
      by (simp add: order_insert_def takeWhile_append2 dropWhile_append2 del: set_concat)
  qed
qed

definition same_event :: "event \<Rightarrow> event \<Rightarrow> bool" where
  "same_event e f = (ev_when f = ev_when e \<and> ev_priority f = ev_priority e \<and>
     ev_flags f = ev_flags e \<and> ev_queue f = ev_queue e)"

definition same_queue :: "event_queue \<Rightarrow> event_queue \<Rightarrow> bool" where
  "same_queue q r = (eq_id r = eq_id q \<and> eq_curTick r = eq_curTick q \<and> eq_async r = eq_async q \<and>
     (\<forall>x. same_event (eq_events q x) (eq_events r x)))"

lemma insertBefore_same: "same_event (es x) (insertBefore es e cur x)"
  by (auto simp: same_event_def insertBefore_def upd_event_def split: option.splits)

lemma same_event_keys: "\<forall>x. same_event (es x) (es' x) \<Longrightarrow> bins_ok es' bs = bins_ok es bs"
  by (rule bins_ok_cong) (auto simp: same_event_def same_keys_def)

text \<open>What both walks along the bins find: the bin to stop behind and the rest.\<close>

lemma find_bin_prev:
  assumes "bins es h bs" "bins_ok es bs" "h = Some t" "event_less (es t) e"
  obtains pre prev ps post where "find_bin es e t (ev_nextBin (es t)) = Some (prev, bins_head post)"
    "bs = (pre @ [prev # ps]) @ post" "\<forall>b\<in>set (pre @ [prev # ps]). event_less (es (hd b)) e"
    "\<forall>b\<in>set post. \<not> event_less (es (hd b)) e" "bins es (bins_head post) post"
proof -
  obtain ts post where bs: "bs = (t # ts) # post"
    using assms(1,3) by (cases bs; cases "hd bs") auto
  have ok: "bins_ok es post" and bpost: "bins es (ev_nextBin (es t)) post"
    using assms(1,2) bs by (auto simp: bins_ok_def)
  obtain pre' post' prev' where f: "find_bin es e t (ev_nextBin (es t)) = Some (prev', case post' of [] \<Rightarrow> None | b # _ \<Rightarrow> Some (hd b))"
    "post = pre' @ post'" "\<forall>b\<in>set pre'. event_less (es (hd b)) e"
    "\<forall>b\<in>set post'. \<not> event_less (es (hd b)) e"
    "prev' = (if pre' = [] then t else hd (last pre'))"
    by (rule find_bin_split [OF bpost ok])
  obtain pre ps where pre: "(t # ts) # pre' = pre @ [prev' # ps]"
  proof (cases pre' rule: rev_cases)
    case (snoc as b)
    then have "b \<noteq> []" using ok f(2) by (auto simp: bins_ok_def)
    then show thesis using that [of "(t # ts) # as" "tl b"] f(5) snoc by simp
  qed (use that [of "[]" ts] f(5) in simp)
  then have split: "bs = (pre @ [prev' # ps]) @ post'" using bs f(2) by auto
  have "bins es (bins_head post') post'"
    using bins_append [of es h pre prev' ps post'] assms(1) split bins_headD by fastforce
  moreover have "\<forall>b\<in>set (pre @ [prev' # ps]). event_less (es (hd b)) e"
    using f(3) assms(4) pre by (metis list.sel(1) set_ConsD)
  ultimately show thesis using that [of prev' post' pre ps] f(1,4) split by (simp add: bins_head_def)
qed

lemma eq_insert_front:
  assumes "bins (eq_events q) (eq_head q) bs" "bins_ok (eq_events q) bs" "e \<notin> set (concat bs)"
    and "bs = [] \<or> \<not> event_less (eq_events q (hd (hd bs))) (eq_events q e)"
  obtains q' bs' where "eq_insert q e = Some q'" "bins (eq_events q') (eq_head q') bs'"
    "bins_ok (eq_events q') bs'" "concat bs' = order_insert (eq_events q) e (concat bs)" "same_queue q q'"
proof -
  let ?es = "eq_events q"
  let ?q = "q\<lparr>eq_head := Some e, eq_events := insertBefore ?es e (eq_head q)\<rparr>"
  have post: "\<forall>b\<in>set bs. \<not> event_less (?es (hd b)) (?es e)"
    using assms(2,4) event_less_trans by (cases bs) (auto simp: bins_ok_def)
  have "eq_insert q e = Some ?q"
    using assms(1,4) by (cases bs) (auto simp: eq_insert_def Let_def event_order)
  moreover have "bins (eq_events ?q) (eq_head ?q) (ins_post ?es e bs)"
    using insertBefore_bins [OF assms(1,3)] by simp
  moreover have "bins_ok (eq_events ?q) (ins_post ?es e bs)"
    using bins_ok_ins_post [of ?es "[]" bs e] assms post
    by (simp add: same_event_keys [OF allI [OF insertBefore_same]])
  moreover have "concat (ins_post ?es e bs) = order_insert ?es e (concat bs)"
    using order_insert_split [of ?es "[]" bs e] concat_ins_post [OF assms(2) post] assms(2) post by simp
  ultimately show thesis by (rule that) (simp add: same_queue_def insertBefore_same)
qed

text \<open>Relinking the bin of \<open>prev\<close> to a new tail, as insertion and removal do.\<close>

lemma bins_relink:
  assumes "bins es h ((pre @ [prev # ps]) @ post)" "distinct (concat (pre @ [prev # ps]))"
    and "bins es1 h1 post1" "prev \<notin> set (concat post1)"
    and "same_links es es1 (set (concat (pre @ [prev # ps])))"
  shows "bins (upd_event prev (\<lambda>x. x\<lparr>ev_nextBin := h1\<rparr>) es1) h ((pre @ [prev # ps]) @ post1)"
proof -
  let ?es2 = "upd_event prev (\<lambda>x. x\<lparr>ev_nextBin := h1\<rparr>) es1"
  have "bins ?es2 (ev_nextBin (?es2 prev)) post1"
    by (subst bins_cong [where es = es1]) (use assms in \<open>auto simp: same_links_def upd_event_def\<close>)
  moreover have "ev_nextInBin (?es2 x) = ev_nextInBin (es x) \<and> ev_nextBin (?es2 x) = ev_nextBin (es x)"
    if "x \<in> set (concat pre) \<union> set ps" for x
    using that assms(2,5) by (auto simp: upd_event_def same_links_def)
  moreover have "ev_nextInBin (?es2 prev) = ev_nextInBin (es prev)"
    using assms(5) by (auto simp: upd_event_def same_links_def)
  ultimately show ?thesis using bins_replace_tail [of es h pre prev ps post ?es2 post1] assms(1,2) by simp
qed

lemma eq_insert_behind:
  assumes "bins (eq_events q) (eq_head q) bs" "bins_ok (eq_events q) bs" "e \<notin> set (concat bs)"
    and "eq_head q = Some t" "event_less (eq_events q t) (eq_events q e)"
  obtains q' bs' where "eq_insert q e = Some q'" "bins (eq_events q') (eq_head q') bs'"
    "bins_ok (eq_events q') bs'" "concat bs' = order_insert (eq_events q) e (concat bs)" "same_queue q q'"
proof -
  let ?es = "eq_events q"
  obtain pre prev ps post where f: "find_bin ?es (?es e) t (ev_nextBin (?es t)) = Some (prev, bins_head post)"
    "bs = (pre @ [prev # ps]) @ post" "\<forall>b\<in>set (pre @ [prev # ps]). event_less (?es (hd b)) (?es e)"
    "\<forall>b\<in>set post. \<not> event_less (?es (hd b)) (?es e)" "bins ?es (bins_head post) post"
    by (rule find_bin_prev [OF assms(1,2,4,5)])
  let ?es1 = "insertBefore ?es e (bins_head post)"
  let ?es2 = "upd_event prev (\<lambda>x. x\<lparr>ev_nextBin := Some e\<rparr>) ?es1"
  let ?q = "q\<lparr>eq_events := ?es2\<rparr>" and ?bs = "(pre @ [prev # ps]) @ ins_post ?es e post"
  have dist: "distinct (concat (pre @ [prev # ps]))" "e \<notin> set (concat (pre @ [prev # ps]))"
    "e \<notin> set (concat post)" "prev \<notin> set (concat post)"
    using assms(2,3) f(2) by (auto simp: bins_ok_def)
  have notin: "prev \<notin> set (concat (ins_post ?es e post))" using dist by (cases post) auto
  have links: "same_links ?es ?es1 (set (concat (pre @ [prev # ps])))"
    using dist(2) by (auto simp: same_links_def insertBefore_def upd_event_def split: option.splits)
  have "eq_insert q e = Some ?q"
    using f(1) assms(4,5) by (simp add: eq_insert_def Let_def event_order)
  moreover have "bins (eq_events ?q) (eq_head ?q) ?bs"
    using bins_relink [OF assms(1) [unfolded f(2)] dist(1) insertBefore_bins [OF f(5) dist(3)] notin links]
    by simp
  moreover have same: "\<forall>x. same_event (?es x) (?es2 x)"
    using insertBefore_same by (auto simp: same_event_def upd_event_def)
  then have "bins_ok (eq_events ?q) ?bs"
    using bins_ok_ins_post [of ?es "pre @ [prev # ps]" post e] assms(2,3) f(2-4)
    by (simp add: same_event_keys [OF same])
  moreover have "bins_ok ?es post" using assms(2) f(2) by (simp only: bins_ok_append)
  then have "concat ?bs = order_insert ?es e (concat bs)"
    using order_insert_split [of ?es "pre @ [prev # ps]" post e] concat_ins_post [OF _ f(4)]
      assms(2) f(2-4) by simp
  ultimately show thesis by (rule that) (use same in \<open>simp add: same_queue_def\<close>)
qed

lemma eq_insert_ok:
  assumes "bins (eq_events q) (eq_head q) bs" "bins_ok (eq_events q) bs" "e \<notin> set (concat bs)"
  obtains q' bs' where "eq_insert q e = Some q'" "bins (eq_events q') (eq_head q') bs'"
    "bins_ok (eq_events q') bs'" "concat bs' = order_insert (eq_events q) e (concat bs)" "same_queue q q'"
proof (cases "bs = [] \<or> \<not> event_less (eq_events q (hd (hd bs))) (eq_events q e)")
  case True
  show thesis by (rule eq_insert_front [OF assms True]) (rule that)
next
  case False
  moreover then have "eq_head q = Some (hd (hd bs))" using assms(1) by (cases bs) auto
  ultimately show thesis using eq_insert_behind [OF assms] that by blast
qed

section \<open>Removal\<close>

definition drop_nil :: "nat list \<Rightarrow> nat list list \<Rightarrow> nat list list" where
  "drop_nil b bs = (if b = [] then bs else b # bs)"

lemma concat_drop_nil [simp]: "concat (drop_nil b bs) = b @ concat bs"
  by (simp add: drop_nil_def)

lemma find_in_bin_pred:
  assumes "stack es nxt xs" "e \<in> set xs"
  obtains as p cs where "find_in_bin es e c nxt = Some (Inr p)" "c # xs = as @ p # e # cs"
  using assms
proof (induction xs arbitrary: c nxt thesis)
  case (Cons x xs)
  show ?case
  proof (cases "x = e")
    case True
    then show ?thesis using Cons.prems(2) by (intro Cons.prems(1) [where p = c and as = "[]" and cs = xs]) (auto simp: find_in_bin.simps)
  next
    case False
    obtain as p cs where "find_in_bin es e x (ev_nextInBin (es x)) = Some (Inr p)" "x # xs = as @ p # e # cs"
      by (rule Cons.IH [where c = x and nxt = "ev_nextInBin (es x)"]) (use Cons.prems False in auto)
    moreover have "find_in_bin es e c nxt = find_in_bin es e x (ev_nextInBin (es x))"
      using Cons.prems(2) False by (subst find_in_bin.simps) auto
    ultimately show ?thesis
      by (intro Cons.prems(1) [where p = p and as = "c # as" and cs = cs]) auto
  qed
qed simp

lemma stack_skip:
  assumes "stack es h (as @ p # e # cs)" "distinct (as @ p # e # cs)"
  shows "stack (upd_event p (\<lambda>x. x\<lparr>ev_nextInBin := ev_nextInBin (es e)\<rparr>) es) h (as @ p # cs)"
  using assms
proof (induction as arbitrary: h)
  case Nil
  then show ?case by (auto simp: upd_event_def) (subst stack_cong; auto)
qed (auto simp: upd_event_def)

lemma removeItem_ok:
  assumes "bins es (Some t) ((t # ts) # post)" "e \<in> set (t # ts)" "distinct (concat ((t # ts) # post))"
  obtains es' h' where "removeItem es e t = Some (Inr (es', h'))" "bins es' h' (drop_nil (remove1 e (t # ts)) post)"
    "same_links es es' (- set (t # ts))" "\<forall>x. same_event (es x) (es' x)"
proof (cases "e = t")
  case True
  show thesis
  proof (cases ts)
    case Nil
    then show thesis using assms True
      by (intro that [of es "ev_nextBin (es t)"])
        (auto simp: removeItem_def drop_nil_def same_links_def same_event_def)
  next
    case (Cons n ns)
    let ?es = "upd_event n (\<lambda>x. x\<lparr>ev_nextBin := ev_nextBin (es t)\<rparr>) es"
    have "bins ?es (ev_nextBin (es t)) post = bins es (ev_nextBin (es t)) post"
      by (rule bins_cong) (use assms(3) Cons in \<open>auto simp: same_links_def upd_event_def\<close>)
    moreover have "stack ?es (ev_nextInBin (es n)) ns = stack es (ev_nextInBin (es n)) ns"
      by (rule stack_cong) (auto simp: upd_event_def)
    ultimately show thesis using assms True Cons
      by (intro that [of ?es "Some n"])
        (auto simp: removeItem_def drop_nil_def same_links_def same_event_def upd_event_def)
  qed
next
  case False
  then have e: "e \<in> set ts" using assms(2) by simp
  have "stack es (ev_nextInBin (es t)) ts" using assms(1) by simp
  from find_in_bin_pred [OF this e, of t] obtain as p cs where
    f: "find_in_bin es e t (ev_nextInBin (es t)) = Some (Inr p)" "t # ts = as @ p # e # cs" .
  let ?es = "upd_event p (\<lambda>x. x\<lparr>ev_nextInBin := ev_nextInBin (es e)\<rparr>) es"
  have dist: "distinct (as @ p # e # cs)" using assms(3) by (simp flip: f(2))
  have "stack es (Some t) (as @ p # e # cs)" using assms(1) by (simp flip: f(2))
  from stack_skip [OF this dist] have stk: "stack ?es (Some t) (as @ p # cs)" .
  have rem: "remove1 e (t # ts) = as @ p # cs" using dist by (simp add: f(2) remove1_append)
  then obtain ts' where ts': "as @ p # cs = t # ts'" using False by (metis remove1.simps(2))
  have "bins ?es (ev_nextBin (es t)) post = bins es (ev_nextBin (es t)) post"
    by (rule bins_cong) (use assms(3) f(2) in \<open>auto simp: same_links_def upd_event_def\<close>)
  then have "bins ?es (Some t) (drop_nil (remove1 e (t # ts)) post)"
    using stk assms(1) unfolding rem ts' by (auto simp: drop_nil_def upd_event_def)
  moreover have "p \<in> set (t # ts)" by (simp add: f(2))
  ultimately show thesis using False f(1)
    by (intro that [of ?es "Some t"])
      (auto simp: removeItem_def same_links_def same_event_def upd_event_def)
qed

lemma bins_ok_drop_nil:
  assumes "bins_ok es (pre @ b # post)"
  shows "bins_ok es (pre @ drop_nil (remove1 e b) post)"
proof (cases "remove1 e b = []")
  case False
  have mem: "hd (remove1 e b) \<in> set b" using False by (metis hd_in_set notin_set_remove1)
  have eqs: "event_eq (es (hd (remove1 e b))) (es (hd b))"
    using assms mem by (auto simp: bins_ok_append bins_ok_def)
  then have "event_less x (es (hd (remove1 e b))) = event_less x (es (hd b))"
    "event_less (es (hd (remove1 e b))) x = event_less (es (hd b)) x" 
    "event_eq x (es (hd (remove1 e b))) = event_eq x (es (hd b))" for x
    by (auto simp: event_eq_def event_less_def)
  then show ?thesis using assms False set_remove1_subset [of e b]
    by (auto simp: drop_nil_def bins_ok_def sorted_wrt_append distinct_remove1 dest: notin_set_remove1)
qed (use assms in \<open>auto simp: drop_nil_def bins_ok_def sorted_wrt_append\<close>)

lemma bins_ok_key_unique:
  assumes "bins_ok es bs" "b \<in> set bs" "c \<in> set bs" "x \<in> set b" "event_eq (es x) (es (hd c))"
  shows "c = b"
proof (rule ccontr)
  assume ne: "c \<noteq> b"
  have "event_eq (es x) (es (hd b))" using assms by (auto simp: bins_ok_def)
  then have eq: "event_eq (es (hd b)) (es (hd c))" using assms(5) by (auto simp: event_eq_def)
  obtain i j where ij: "i < length bs" "j < length bs" "b = bs ! i" "c = bs ! j"
    using assms(2,3) by (metis in_set_conv_nth)
  then have "i < j \<or> j < i" using ne by (metis nat_neq_iff)
  then show False using assms(1) ij eq by (auto simp: bins_ok_def sorted_wrt_iff_nth_less event_order)
qed

lemma remove1_concat_split:
  assumes "e \<in> set b" "distinct (concat (pre @ b # post))"
  shows "remove1 e (concat (pre @ b # post)) = concat (pre @ drop_nil (remove1 e b) post)"
  using assms by (auto simp: remove1_append)

text \<open>An event of the head bin, and an event behind it.\<close>

lemma eq_remove_front:
  assumes "bins (eq_events q) (eq_head q) (b # post)" "bins_ok (eq_events q) (b # post)" "e \<in> set b"
    and "ev_queue (eq_events q e) = Some (eq_id q)"
  obtains q' where "eq_remove q e = Some (Inr q')" "bins (eq_events q') (eq_head q') (drop_nil (remove1 e b) post)"
    "same_queue q q'"
proof -
  obtain t ts where b: "b = t # ts" using assms(3) by (cases b) auto
  have eq: "event_eq (eq_events q t) (eq_events q e)"
    using assms(2,3) b by (fastforce simp: bins_ok_def event_eq_def)
  have "distinct (concat (b # post))" using assms(2) by (simp only: bins_ok_def)
  moreover have h: "eq_head q = Some t" using assms(1) b by simp
  ultimately obtain es' h' where r: "removeItem (eq_events q) e t = Some (Inr (es', h'))"
    "bins es' h' (drop_nil (remove1 e b) post)" "\<forall>x. same_event (eq_events q x) (es' x)"
    using removeItem_ok [of "eq_events q" t ts post e] assms(1,3) b by metis
  show thesis
    by (rule that [of "q\<lparr>eq_head := h', eq_events := es'\<rparr>"])
      (use r eq h assms(4) in \<open>auto simp: eq_remove_def same_queue_def\<close>)
qed

lemma eq_remove_behind:
  assumes "bins (eq_events q) (eq_head q) bs" "bins_ok (eq_events q) bs" "e \<in> set (concat bs)"
    and "ev_queue (eq_events q e) = Some (eq_id q)" "eq_head q = Some t" "\<not> event_eq (eq_events q t) (eq_events q e)"
  obtains q' pre b post where "eq_remove q e = Some (Inr q')" "bs = pre @ b # post" "e \<in> set b"
    "bins (eq_events q') (eq_head q') (pre @ drop_nil (remove1 e b) post)" "same_queue q q'"
proof -
  let ?es = "eq_events q"
  obtain b where b: "b \<in> set bs" "e \<in> set b" using assms(3) by auto
  have eqb: "event_eq (?es e) (?es (hd b))" using bins_ok_mem [OF assms(2) b] .
  have hb: "t = hd (hd bs)" "bs \<noteq> []" using assms(1,5) by (cases bs; auto)+
  then have "b = hd bs \<or> event_less (?es t) (?es (hd b))" using assms(2) b(1) by (cases bs) (auto simp: bins_ok_def)
  then have less: "event_less (?es t) (?es e)"
    using eqb assms(6) hb by (auto simp: event_eq_def event_less_def)
  obtain pre prev ps post where f: "find_bin ?es (?es e) t (ev_nextBin (?es t)) = Some (prev, bins_head post)"
    "bs = (pre @ [prev # ps]) @ post" "\<forall>b\<in>set (pre @ [prev # ps]). event_less (?es (hd b)) (?es e)"
    "\<forall>b\<in>set post. \<not> event_less (?es (hd b)) (?es e)" "bins ?es (bins_head post) post"
    by (rule find_bin_prev [OF assms(1,2,5) less])
  have "b \<in> set post" using b(1) f(2,3) eqb by (auto simp: event_order)
  moreover have "sorted_wrt (\<lambda>b c. event_less (?es (hd b)) (?es (hd c))) post"
    using assms(2) f(2) by (simp add: bins_ok_def sorted_wrt_append)
  ultimately obtain post' where post: "post = b # post'"
    using f(4) eqb by (cases post) (auto simp: event_eq_def event_less_def)
  obtain c cs where c: "b = c # cs" using b(2) by (cases b) auto
  have dist: "distinct (concat ((c # cs) # post'))" "distinct (concat (pre @ [prev # ps]))"
    "set (concat (pre @ [prev # ps])) \<inter> set (concat post) = {}"
    using assms(2) f(2) post c by (auto simp: bins_ok_def)
  have "bins ?es (Some c) ((c # cs) # post')" using f(5) post c by (simp add: bins_head_def)
  then obtain es' h' where r: "removeItem ?es e c = Some (Inr (es', h'))"
    "bins es' h' (drop_nil (remove1 e b) post')" "same_links ?es es' (- set b)" "\<forall>x. same_event (?es x) (es' x)"
    using removeItem_ok [of ?es c cs post' e] dist(1) b(2) c by metis
  have "prev \<notin> set (concat (drop_nil (remove1 e b) post'))"
    using dist(3) post by (auto dest: notin_set_remove1)
  moreover have "same_links ?es es' (set (concat (pre @ [prev # ps])))"
    using r(3) dist(3) post by (fastforce simp: same_links_def)
  ultimately have bins: "bins (upd_event prev (\<lambda>x. x\<lparr>ev_nextBin := h'\<rparr>) es') (eq_head q)
      ((pre @ [prev # ps]) @ drop_nil (remove1 e b) post')"
    using bins_relink [OF assms(1) [unfolded f(2)] dist(2) r(2)] by blast
  show thesis
    by (rule that [of "q\<lparr>eq_events := upd_event prev (\<lambda>x. x\<lparr>ev_nextBin := h'\<rparr>) es'\<rparr>" "pre @ [prev # ps]" b post'])
      (use r(1,4) f(1,2) post c b eqb bins assms(4-6) in
        \<open>auto simp: eq_remove_def same_queue_def bins_head_def event_eq_def same_event_def upd_event_def\<close>)
qed

lemma same_queue_keys: "same_queue q r \<Longrightarrow> bins_ok (eq_events r) bs = bins_ok (eq_events q) bs"
  by (rule same_event_keys) (simp add: same_queue_def)

lemma eq_remove_ok:
  assumes "bins (eq_events q) (eq_head q) bs" "bins_ok (eq_events q) bs" "e \<in> set (concat bs)"
    and "ev_queue (eq_events q e) = Some (eq_id q)"
  obtains q' bs' where "eq_remove q e = Some (Inr q')" "bins (eq_events q') (eq_head q') bs'"
    "bins_ok (eq_events q') bs'" "concat bs' = remove1 e (concat bs)" "same_queue q q'"
proof -
  obtain t ts post where bs: "bs = (t # ts) # post" "eq_head q = Some t"
    using assms(1,3) by (cases bs; cases "hd bs") auto
  have dist: "distinct (concat bs)" using assms(2) by (simp add: bins_ok_def)
  have "\<exists>q' pre b post. eq_remove q e = Some (Inr q') \<and> bs = pre @ b # post \<and> e \<in> set b \<and>
    bins (eq_events q') (eq_head q') (pre @ drop_nil (remove1 e b) post) \<and> same_queue q q'"
  proof (cases "event_eq (eq_events q t) (eq_events q e)")
    case True
    obtain b where b: "b \<in> set bs" "e \<in> set b" using assms(3) by auto
    moreover have "event_eq (eq_events q e) (eq_events q (hd (t # ts)))" using True by (auto simp: event_eq_def)
    ultimately have "e \<in> set (t # ts)" using bins_ok_key_unique [OF assms(2)] bs(1) by (metis list.set_intros(1))
    then show ?thesis using eq_remove_front [OF _ _ _ assms(4)] assms(1,2) bs(1) by (metis append_Nil)
  next
    case False
    then show ?thesis using eq_remove_behind [OF assms bs(2)] by metis
  qed
  then show thesis using that remove1_concat_split dist bins_ok_drop_nil assms(2) same_queue_keys by metis
qed

end
