(* ===== verification/Event_Timers.thy ===== *)
theory Event_Timers
  imports Event_Queue
begin

text \<open>
  What the event queue of \<^verbatim>\<open>sim/eventq.cc\<close> promises its users: the queue as the list of its
  events in service order, the effect of \<^verbatim>\<open>schedule\<close>, \<^verbatim>\<open>deschedule\<close>, \<^verbatim>\<open>reschedule\<close> and
  \<^verbatim>\<open>serviceOne\<close> on that list, and the queue as a set of timers (locale \<open>timer_queue\<close>), which
  is the view of it that the device models use.
\<close>

section \<open>Queues and their service order\<close>

definition eq_rep :: "event_queue \<Rightarrow> nat list \<Rightarrow> bool" where
  "eq_rep q xs = (\<exists>bs. bins (eq_events q) (eq_head q) bs \<and> bins_ok (eq_events q) bs \<and> concat bs = xs)"

text \<open>
  The invariant of a queue that serves its events in the order \<open>xs\<close>: the listed events are the
  scheduled events of this queue (outside the asynchronous list) and none lies in the past.
\<close>

definition eq_inv :: "event_queue \<Rightarrow> nat list \<Rightarrow> bool" where
  "eq_inv q xs =
     (eq_rep q xs \<and>
      (\<forall>x\<in>set xs. scheduled (eq_events q x) \<and> initialized (eq_events q x) \<and>
         ev_queue (eq_events q x) = Some (eq_id q) \<and> eq_curTick q \<le> ev_when (eq_events q x)))"

lemma eq_rep_empty: "eq_rep (EventQueue n es) []"
  unfolding eq_rep_def by (rule exI [of _ "[]"]) (simp add: EventQueue_def bins_ok_def)

lemma eq_inv_empty: "eq_inv (EventQueue n es) []"
  by (simp add: eq_inv_def eq_rep_empty)

lemma eq_rep_distinct: "eq_rep q xs \<Longrightarrow> distinct xs"
  by (auto simp: eq_rep_def bins_ok_def)

lemma eq_rep_head: "eq_rep q xs \<Longrightarrow> eq_head q = (case xs of [] \<Rightarrow> None | x # _ \<Rightarrow> Some x)"
proof (unfold eq_rep_def, elim exE conjE)
  fix bs
  assume "bins (eq_events q) (eq_head q) bs" "concat bs = xs"
  then show ?thesis
  proof (cases bs)
    case (Cons b bs')
    then show ?thesis using \<open>bins _ _ bs\<close> \<open>concat bs = xs\<close> by (cases b) auto
  qed auto
qed

lemma concat_sorted:
  assumes "bins_ok es bs"
  shows "sorted_wrt (\<lambda>x y. \<not> event_less (es y) (es x)) (concat bs)"
  using assms
proof (induction bs)
  case (Cons b bs)
  have ok: "bins_ok es bs" using Cons.prems by (auto simp: bins_ok_def)
  have eqs: "event_eq (es x) (es (hd b))" if "x \<in> set b" for x
    using that bins_ok_mem [OF Cons.prems] by simp
  have "sorted_wrt (\<lambda>x y. \<not> event_less (es y) (es x)) b"
  proof (rule sorted_wrt_mono_rel [of _ "\<lambda>_ _. True"])
    fix x y
    assume "x \<in> set b" "y \<in> set b"
    then show "\<not> event_less (es y) (es x)"
      using eqs [of x] eqs [of y] by (simp add: event_less_def event_eq_def)
  qed simp
  moreover have "\<not> event_less (es y) (es x)" if "x \<in> set b" "y \<in> set c" "c \<in> set bs" for x y c
  proof -
    have "event_less (es (hd b)) (es (hd c))" using Cons.prems that(3) by (simp add: bins_ok_def)
    moreover have "event_eq (es y) (es (hd c))" by (rule bins_ok_mem [OF ok that(3,2)])
    ultimately show ?thesis using eqs [OF that(1)] by (simp add: event_less_def event_eq_def) linarith
  qed
  ultimately show ?case using Cons.IH [OF ok] by (simp add: sorted_wrt_append)
qed simp

lemma eq_rep_sorted: "eq_rep q xs \<Longrightarrow> sorted_wrt (\<lambda>x y. \<not> event_less (eq_events q y) (eq_events q x)) xs"
  using concat_sorted by (auto simp: eq_rep_def)

lemma set_order_insert [simp]: "set (order_insert es e xs) = insert e (set xs)"
  by (simp add: order_insert_def) (metis set_append takeWhile_dropWhile_id)

text \<open>Flags.\<close>

lemma ev_isSet_setFlag [simp]: "ev_isSet Scheduled (ev_setFlag Scheduled e)"
proof -
  have "(ev_flags e OR Scheduled) AND Scheduled = Scheduled"
    by (rule bit_word_eqI) (auto simp: bit_simps)
  then show ?thesis by (simp add: ev_isSet_def ev_setFlag_def Scheduled_def)
qed

lemma ev_isSet_clearFlag [simp]: "\<not> ev_isSet f (ev_clearFlag f e)"
  by (simp add: ev_isSet_def ev_clearFlag_def and.assoc)

lemma ev_flag_frame [simp]:
  "ev_isSet Scheduled (ev_clearFlag Squashed e) = ev_isSet Scheduled e"
  "initialized (ev_clearFlag Squashed e) = initialized e"
  "initialized (ev_clearFlag Scheduled e) = initialized e"
  "initialized (ev_setFlag Scheduled e) = initialized e"
  by (simp_all add: ev_isSet_def ev_clearFlag_def ev_setFlag_def initialized_def event_flag_defs
      and.assoc bit.conj_disj_distrib2)

lemma ev_fields_flag [simp]:
  "ev_when (ev_setFlag f e) = ev_when e" "ev_priority (ev_setFlag f e) = ev_priority e"
  "ev_queue (ev_setFlag f e) = ev_queue e" "ev_nextBin (ev_setFlag f e) = ev_nextBin e"
  "ev_nextInBin (ev_setFlag f e) = ev_nextInBin e"
  "ev_when (ev_clearFlag f e) = ev_when e" "ev_priority (ev_clearFlag f e) = ev_priority e"
  "ev_queue (ev_clearFlag f e) = ev_queue e" "ev_nextBin (ev_clearFlag f e) = ev_nextBin e"
  "ev_nextInBin (ev_clearFlag f e) = ev_nextInBin e"
  by (simp_all add: ev_setFlag_def ev_clearFlag_def)

lemma ev_fields_setWhen [simp]:
  "ev_when (setWhen t n e) = t" "ev_priority (setWhen t n e) = ev_priority e"
  "ev_queue (setWhen t n e) = Some n" "ev_flags (setWhen t n e) = ev_flags e"
  "ev_isSet f (setWhen t n e) = ev_isSet f e" "initialized (setWhen t n e) = initialized e"
  by (simp_all add: setWhen_def ev_isSet_def initialized_def)

text \<open>Changes to an event that keep its key and links, or to an event that is not listed.\<close>

lemma eq_rep_cong:
  assumes "eq_rep q xs" "eq_head r = eq_head q" "same_links (eq_events q) (eq_events r) (set xs)"
    "same_keys (eq_events q) (eq_events r) (set xs)"
  shows "eq_rep r xs"
proof -
  obtain bs where bs: "bins (eq_events q) (eq_head q) bs" "bins_ok (eq_events q) bs" "concat bs = xs"
    using assms(1) by (auto simp: eq_rep_def)
  then have "bins (eq_events r) (eq_head r) bs" "bins_ok (eq_events r) bs"
    using bins_cong [of "eq_events q" "eq_events r" bs] bins_ok_cong [of "eq_events q" "eq_events r" bs] assms
    by auto
  then show ?thesis using bs(3) by (auto simp: eq_rep_def)
qed

lemma eq_rep_flag [simp]:
  "eq_rep (eq_upd e (ev_setFlag f) q) xs = eq_rep q xs"
  "eq_rep (eq_upd e (ev_clearFlag f) q) xs = eq_rep q xs"
  by (rule iffI; erule eq_rep_cong; auto simp: eq_upd_def upd_event_def same_links_def same_keys_def)+

lemma eq_rep_other: "e \<notin> set xs \<Longrightarrow> eq_rep q xs \<Longrightarrow> eq_rep (eq_upd e f q) xs"
  by (erule eq_rep_cong) (auto simp: eq_upd_def upd_event_def same_links_def same_keys_def)

lemma eq_insert_rep:
  assumes "eq_rep q xs" "e \<notin> set xs"
  obtains q' where "eq_insert q e = Some q'" "eq_rep q' (order_insert (eq_events q) e xs)" "same_queue q q'"
proof -
  obtain bs where bs: "bins (eq_events q) (eq_head q) bs" "bins_ok (eq_events q) bs" "concat bs = xs"
    using assms(1) by (auto simp: eq_rep_def)
  then obtain q' bs' where "eq_insert q e = Some q'" "bins (eq_events q') (eq_head q') bs'"
    "bins_ok (eq_events q') bs'" "concat bs' = order_insert (eq_events q) e (concat bs)" "same_queue q q'"
    using assms(2) by (metis eq_insert_ok)
  then show thesis using that bs(3) by (auto simp: eq_rep_def)
qed

lemma eq_remove_rep:
  assumes "eq_rep q xs" "e \<in> set xs" "ev_queue (eq_events q e) = Some (eq_id q)"
  obtains q' where "eq_remove q e = Some (Inr q')" "eq_rep q' (remove1 e xs)" "same_queue q q'"
proof -
  obtain bs where bs: "bins (eq_events q) (eq_head q) bs" "bins_ok (eq_events q) bs" "concat bs = xs"
    using assms(1) by (auto simp: eq_rep_def)
  then obtain q' bs' where "eq_remove q e = Some (Inr q')" "bins (eq_events q') (eq_head q') bs'"
    "bins_ok (eq_events q') bs'" "concat bs' = remove1 e (concat bs)" "same_queue q q'"
    using assms(2,3) by (metis eq_remove_ok)
  then show thesis using that bs(3) by (auto simp: eq_rep_def)
qed

lemma same_queueD:
  assumes "same_queue q r"
  shows "eq_id r = eq_id q" "eq_curTick r = eq_curTick q" "eq_async r = eq_async q"
    "ev_when (eq_events r x) = ev_when (eq_events q x)" "ev_priority (eq_events r x) = ev_priority (eq_events q x)"
    "ev_queue (eq_events r x) = ev_queue (eq_events q x)" "ev_flags (eq_events r x) = ev_flags (eq_events q x)"
    "ev_isSet f (eq_events r x) = ev_isSet f (eq_events q x)" "initialized (eq_events r x) = initialized (eq_events q x)"
  using assms by (auto simp: same_queue_def same_event_def ev_isSet_def initialized_def)

lemma eq_upd_simps [simp]:
  "eq_events (eq_upd e f q) x = (if x = e then f (eq_events q e) else eq_events q x)"
  "eq_id (eq_upd e f q) = eq_id q" "eq_curTick (eq_upd e f q) = eq_curTick q"
  "eq_async (eq_upd e f q) = eq_async q" "eq_head (eq_upd e f q) = eq_head q"
  by (simp_all add: eq_upd_def upd_event_def)

section \<open>schedule, deschedule, reschedule\<close>

text \<open>Everything but the links is untouched, apart from the event itself.\<close>

definition others_kept :: "nat \<Rightarrow> event_queue \<Rightarrow> event_queue \<Rightarrow> bool" where
  "others_kept e q r =
     (eq_id r = eq_id q \<and> eq_curTick r = eq_curTick q \<and> eq_async r = eq_async q \<and>
      (\<forall>x. x \<noteq> e \<longrightarrow> same_event (eq_events q x) (eq_events r x)))"

lemma eq_schedule_ok:
  assumes inv: "eq_inv q xs" and "eq_curTick q \<le> t" "\<not> scheduled (eq_events q e)" "initialized (eq_events q e)"
  obtains q' where "eq_schedule False cq q e t g = Some (Inr q')"
    "eq_inv q' (order_insert (eq_events q') e xs)" "scheduled (eq_events q' e)"
    "ev_when (eq_events q' e) = t" "others_kept e q q'"
proof -
  let ?q1 = "eq_upd e (setWhen t (eq_id q)) q"
  have notin: "e \<notin> set xs" using inv assms(3) by (auto simp: eq_inv_def)
  have "eq_rep ?q1 xs" using inv notin eq_rep_other by (auto simp: eq_inv_def)
  then obtain q2 where q2: "eq_insert ?q1 e = Some q2" "eq_rep q2 (order_insert (eq_events ?q1) e xs)"
    "same_queue ?q1 q2" using notin by (rule eq_insert_rep)
  note s = same_queueD [OF q2(3)]
  let ?q3 = "eq_upd e (ev_setFlag Scheduled) q2"
  have ord: "order_insert (eq_events ?q1) e xs = order_insert (eq_events ?q3) e xs"
    unfolding order_insert_def event_less_def by (simp add: s notin)
  have "eq_inv ?q3 (order_insert (eq_events ?q3) e xs)"
    using q2(2) inv assms(2,4) notin ord
    by (auto simp: eq_inv_def s scheduled_def)
  then show thesis using q2(1) assms s
    by (intro that [of ?q3]) (auto simp: eq_schedule_def others_kept_def same_event_def scheduled_def)
qed

lemma set_remove1_distinct: "distinct xs \<Longrightarrow> set (remove1 e xs) = set xs - {e}"
  by simp

lemma eq_deschedule_ok:
  assumes inv: "eq_inv q xs" and "e \<in> set xs" and par: "\<not> par \<or> eq_id q = cq"
  obtains q' where "eq_deschedule par cq q e = Some (Inr q')" "eq_inv q' (remove1 e xs)"
    "\<not> scheduled (eq_events q' e)" "others_kept e q q'" "initialized (eq_events q' e)"
proof -
  have e: "scheduled (eq_events q e)" "initialized (eq_events q e)" "ev_queue (eq_events q e) = Some (eq_id q)"
    and rep: "eq_rep q xs" using inv assms(2) by (auto simp: eq_inv_def)
  obtain q1 where q1: "eq_remove q e = Some (Inr q1)" "eq_rep q1 (remove1 e xs)" "same_queue q q1"
    using rep assms(2) e(3) by (rule eq_remove_rep)
  note s = same_queueD [OF q1(3)]
  let ?q2 = "eq_upd e (ev_clearFlag Scheduled) (eq_upd e (ev_clearFlag Squashed) q1)"
  have "eq_inv ?q2 (remove1 e xs)"
    using q1(2) inv eq_rep_distinct [OF rep] by (auto simp: eq_inv_def s scheduled_def)
  then show thesis using q1(1) e par s
    by (intro that [of ?q2]) (auto simp: eq_deschedule_def others_kept_def same_event_def scheduled_def)
qed

lemma eq_reschedule_ok:
  assumes inv: "eq_inv q xs" and "e \<in> set xs" "eq_curTick q \<le> t" and par: "\<not> par \<or> eq_id q = cq"
  obtains q' where "eq_reschedule par cq q e t always = Some (Inr q')"
    "eq_inv q' (order_insert (eq_events q') e (remove1 e xs))" "scheduled (eq_events q' e)"
    "ev_when (eq_events q' e) = t" "others_kept e q q'"
proof -
  have e: "scheduled (eq_events q e)" "initialized (eq_events q e)" "ev_queue (eq_events q e) = Some (eq_id q)"
    and rep: "eq_rep q xs" using inv assms(2) by (auto simp: eq_inv_def)
  obtain q1 where q1: "eq_remove q e = Some (Inr q1)" "eq_rep q1 (remove1 e xs)" "same_queue q q1"
    using rep assms(2) e(3) by (rule eq_remove_rep)
  note s = same_queueD [OF q1(3)]
  let ?q2 = "eq_upd e (setWhen t (eq_id q)) q1"
  have notin: "e \<notin> set (remove1 e xs)" using eq_rep_distinct [OF rep] by simp
  then have "eq_rep ?q2 (remove1 e xs)" using q1(2) by (rule eq_rep_other)
  then obtain q3 where q3: "eq_insert ?q2 e = Some q3" "eq_rep q3 (order_insert (eq_events ?q2) e (remove1 e xs))"
    "same_queue ?q2 q3" using notin by (rule eq_insert_rep)
  note s3 = same_queueD [OF q3(3)]
  let ?q4 = "eq_upd e (ev_setFlag Scheduled) (eq_upd e (ev_clearFlag Squashed) q3)"
  have ord: "order_insert (eq_events ?q2) e (remove1 e xs) = order_insert (eq_events ?q4) e (remove1 e xs)"
    unfolding order_insert_def event_less_def by (simp add: s3 s notin)
  have "eq_inv ?q4 (order_insert (eq_events ?q4) e (remove1 e xs))"
    using q3(2) inv assms(3) e(2) eq_rep_distinct [OF rep] unfolding ord [symmetric]
    by (auto simp: eq_inv_def s s3 scheduled_def)
  then show thesis using q1(1) q3(1) e par assms(3) s s3
    by (intro that [of ?q4]) (auto simp: eq_reschedule_def others_kept_def same_event_def scheduled_def)
qed

section \<open>Serving events\<close>

lemma eq_pop_rep:
  assumes "eq_rep q (x # xs)"
  obtains q' where "eq_pop q = Inr (x, q')" "eq_rep q' xs" "others_kept x q q'"
    "eq_events q' x = (ev_clearFlag Scheduled (eq_events q x))\<lparr>ev_nextBin := ev_nextBin (eq_events q' x)\<rparr>"
proof -
  obtain bs where bs: "bins (eq_events q) (eq_head q) bs" "bins_ok (eq_events q) bs" "concat bs = x # xs"
    using assms by (auto simp: eq_rep_def)
  obtain b bs' where b: "bs = b # bs'" using bs(3) by (cases bs) auto
  obtain ys where ys: "b = x # ys" using bs(1,3) b by (cases b) auto
  have head: "eq_head q = Some x" and stk: "stack (eq_events q) (ev_nextInBin (eq_events q x)) ys"
    and rest: "bins (eq_events q) (ev_nextBin (eq_events q x)) bs'" using bs(1) b ys by auto
  have xs: "xs = ys @ concat bs'" "x \<notin> set ys" "x \<notin> set (concat bs')" "set ys \<inter> set (concat bs') = {}"
    using bs(2,3) b ys by (auto simp: bins_ok_def)
  let ?es = "upd_event x (ev_clearFlag Scheduled) (eq_events q)"
  have drop: "bins_ok (eq_events q) (drop_nil ys bs')"
    using bins_ok_drop_nil [of "eq_events q" "[]" b bs' x] bs(2) b ys by simp
  show thesis
  proof (cases ys)
    case Nil
    let ?q = "q\<lparr>eq_head := ev_nextBin (eq_events q x), eq_events := ?es\<rparr>"
    have "bins ?es (ev_nextBin (eq_events q x)) bs' = bins (eq_events q) (ev_nextBin (eq_events q x)) bs'"
      by (rule bins_cong) (use xs in \<open>auto simp: same_links_def upd_event_def\<close>)
    moreover have "bins_ok ?es bs' = bins_ok (eq_events q) bs'"
      by (rule bins_ok_cong) (auto simp: same_keys_def upd_event_def)
    ultimately have "eq_rep ?q xs" using rest drop xs(1) Nil by (auto simp: eq_rep_def drop_nil_def)
    then show thesis using stk Nil head
      by (intro that [of ?q]) (auto simp: eq_pop_def Let_def others_kept_def same_event_def upd_event_def)
  next
    case (Cons n ns)
    let ?es2 = "upd_event n (\<lambda>e. e\<lparr>ev_nextBin := ev_nextBin (?es x)\<rparr>) ?es"
    let ?q = "q\<lparr>eq_head := Some n, eq_events := ?es2\<rparr>"
    have n: "n \<noteq> x" "n \<notin> set (concat bs')" using xs Cons by auto
    have "bins ?es2 (ev_nextBin (eq_events q x)) bs' = bins (eq_events q) (ev_nextBin (eq_events q x)) bs'"
      by (rule bins_cong) (use xs n in \<open>auto simp: same_links_def upd_event_def\<close>)
    moreover have "stack ?es2 (ev_nextInBin (eq_events q n)) ns = stack (eq_events q) (ev_nextInBin (eq_events q n)) ns"
      by (rule stack_cong) (auto simp: upd_event_def)
    ultimately have bins2: "bins (eq_events ?q) (eq_head ?q) (ys # bs')"
      using rest stk Cons n by (auto simp: upd_event_def)
    have "bins_ok (eq_events q) (ys # bs')" using drop Cons by (simp add: drop_nil_def)
    moreover have "bins_ok (eq_events ?q) (ys # bs') = bins_ok (eq_events q) (ys # bs')"
      by (rule bins_ok_cong) (auto simp: same_keys_def upd_event_def)
    ultimately have ok2: "bins_ok (eq_events ?q) (ys # bs')" by (rule iffD2 [rotated])
    have "eq_rep ?q xs"
      unfolding eq_rep_def by (intro exI [of _ "ys # bs'"] conjI bins2 ok2) (simp add: xs(1))
    then show thesis using stk Cons head n
      by (intro that [of ?q]) (auto simp: eq_pop_def Let_def others_kept_def same_event_def upd_event_def)
  qed
qed

lemma eq_inv_minimal:
  assumes "eq_inv q (x # xs)" "y \<in> set xs"
  shows "ev_when (eq_events q x) \<le> ev_when (eq_events q y)"
    "ev_when (eq_events q x) = ev_when (eq_events q y) \<Longrightarrow> ev_priority (eq_events q x) \<le> ev_priority (eq_events q y)"
  using eq_rep_sorted [of q "x # xs"] assms by (auto simp: eq_inv_def event_less_def)

lemma eq_pop_ok:
  assumes inv: "eq_inv q (x # xs)"
  obtains q' where "eq_pop q = Inr (x, q')" "eq_inv (q'\<lparr>eq_curTick := ev_when (eq_events q x)\<rparr>) xs"
    "eq_inv q' xs" "\<not> scheduled (eq_events q' x)" "others_kept x q q'"
    "ev_when (eq_events q' x) = ev_when (eq_events q x)"
    "squashed (eq_events q' x) = squashed (eq_events q x)"
    "isExitEvent (eq_events q' x) = isExitEvent (eq_events q x)" "initialized (eq_events q' x)"
proof -
  have rep: "eq_rep q (x # xs)" using inv by (simp add: eq_inv_def)
  obtain q' where q': "eq_pop q = Inr (x, q')" "eq_rep q' xs" "others_kept x q q'"
    "eq_events q' x = (ev_clearFlag Scheduled (eq_events q x))\<lparr>ev_nextBin := ev_nextBin (eq_events q' x)\<rparr>"
    by (rule eq_pop_rep [OF rep])
  have x: "ev_when (eq_events q' x) = ev_when (eq_events q x)"
    "ev_flags (eq_events q' x) = ev_flags (ev_clearFlag Scheduled (eq_events q x))"
    using q'(4) by (metis (no_types, lifting) ev_fields_flag(6) event.select_convs(3) event.surjective event.update_convs(1),
        metis (no_types, lifting) event.select_convs(5) event.surjective event.update_convs(1))
  have other: "ev_when (eq_events q' y) = ev_when (eq_events q y)" "ev_queue (eq_events q' y) = ev_queue (eq_events q y)"
    "scheduled (eq_events q' y) = scheduled (eq_events q y)" "initialized (eq_events q' y) = initialized (eq_events q y)"
    if "y \<in> set xs" for y
  proof -
    have "y \<noteq> x" using that eq_rep_distinct [OF rep] by auto
    then have "same_event (eq_events q y) (eq_events q' y)" using q'(3) by (simp add: others_kept_def)
    then show "ev_when (eq_events q' y) = ev_when (eq_events q y)" "ev_queue (eq_events q' y) = ev_queue (eq_events q y)"
      "scheduled (eq_events q' y) = scheduled (eq_events q y)" "initialized (eq_events q' y) = initialized (eq_events q y)"
      by (simp_all add: same_event_def scheduled_def ev_isSet_def initialized_def)
  qed
  have ids: "eq_id q' = eq_id q" "eq_curTick q' = eq_curTick q" using q'(3) by (simp_all add: others_kept_def)
  have rep2: "eq_rep (q'\<lparr>eq_curTick := t\<rparr>) xs" for t using q'(2) by (simp add: eq_rep_def)
  have "eq_inv q' xs" using inv q'(2) other ids by (simp add: eq_inv_def)
  moreover have "eq_inv (q'\<lparr>eq_curTick := ev_when (eq_events q x)\<rparr>) xs"
    using inv rep2 other ids eq_inv_minimal(1) [OF inv] by (simp add: eq_inv_def)
  moreover have "\<not> scheduled (eq_events q' x)"
    using ev_isSet_clearFlag [of Scheduled "eq_events q x"] x(2) by (simp add: scheduled_def ev_isSet_def)
  moreover have "squashed (eq_events q' x) = squashed (eq_events q x)"
    "isExitEvent (eq_events q' x) = isExitEvent (eq_events q x)"
    using x(2) by (simp_all add: squashed_def isExitEvent_def ev_isSet_def ev_clearFlag_def event_flag_defs and.assoc)
  moreover have "initialized (eq_events q' x)"
    using x(2) inv ev_flag_frame(3) [of "eq_events q x"] by (simp add: eq_inv_def initialized_def)
  ultimately show thesis using that q'(1,3) x(1) by blast
qed

text \<open>Taking the head event off the queue and moving the clock to it.\<close>

definition eq_next :: "event_queue \<Rightarrow> (nat \<times> event_queue) result" where
  "eq_next q = rbind (eq_pop q) (\<lambda>(e, q1). Inr (e, q1\<lparr>eq_curTick := ev_when (eq_events q1 e)\<rparr>))"

lemma eq_next_ok:
  assumes "eq_inv q (x # xs)"
  obtains q' where "eq_next q = Inr (x, q')" "eq_inv q' xs" "\<not> scheduled (eq_events q' x)"
    "eq_curTick q' = ev_when (eq_events q x)" "eq_id q' = eq_id q"
    "\<forall>y. y \<noteq> x \<longrightarrow> same_event (eq_events q y) (eq_events q' y)" "initialized (eq_events q' x)"
proof -
  obtain q' where "eq_pop q = Inr (x, q')" "eq_inv (q'\<lparr>eq_curTick := ev_when (eq_events q x)\<rparr>) xs"
    "\<not> scheduled (eq_events q' x)" "others_kept x q q'" "ev_when (eq_events q' x) = ev_when (eq_events q x)"
    "initialized (eq_events q' x)"
    by (rule eq_pop_ok [OF assms])
  then show thesis
    by (intro that [of "q'\<lparr>eq_curTick := ev_when (eq_events q x)\<rparr>"]) (simp_all add: eq_next_def others_kept_def)
qed

lemma eq_inv_clear_squashed: "eq_inv (eq_upd e (ev_clearFlag Squashed) q) xs = eq_inv q xs"
  by (auto simp: eq_inv_def scheduled_def)

lemma serviceOne_clock:
  assumes inv: "eq_inv q (x # xs)"
    and process: "\<And>e r ys. eq_inv r ys \<Longrightarrow> (\<exists>zs. eq_inv (process e r) zs) \<and> eq_curTick (process e r) = eq_curTick r"
    and run: "serviceOne process q = Inr (res, q')"
  shows "(\<exists>ys. eq_inv q' ys) \<and> eq_curTick q \<le> eq_curTick q' \<and>
    (\<not> squashed (eq_events q x) \<longrightarrow> eq_curTick q' = ev_when (eq_events q x))"
proof -
  obtain q1 where q1: "eq_pop q = Inr (x, q1)" "eq_inv (q1\<lparr>eq_curTick := ev_when (eq_events q x)\<rparr>) xs"
    "eq_inv q1 xs" "others_kept x q q1" "ev_when (eq_events q1 x) = ev_when (eq_events q x)"
    "squashed (eq_events q1 x) = squashed (eq_events q x)"
    by (rule eq_pop_ok [OF inv])
  have le: "eq_curTick q \<le> ev_when (eq_events q x)" using inv by (simp add: eq_inv_def)
  show ?thesis
  proof (cases "squashed (eq_events q x)")
    case True
    then have "q' = eq_upd x (ev_clearFlag Squashed) q1"
      using run q1(1,6) by (simp add: serviceOne_def)
    then show ?thesis using True q1(3,4) by (auto simp: eq_inv_clear_squashed others_kept_def)
  next
    case False
    then have "q' = process x (q1\<lparr>eq_curTick := ev_when (eq_events q x)\<rparr>)"
      using run q1(1,5,6) by (auto simp: serviceOne_def Let_def rbind_assert split: if_splits)
    then show ?thesis using process [OF q1(2), of x] le by auto
  qed
qed

text \<open>Events whose processing schedules nothing: the loop returns and leaves the later events.\<close>

lemma serviceEvents_idle:
  assumes "eq_inv q xs" "\<forall>x\<in>set xs. \<not> isExitEvent (eq_events q x)"
  shows "\<exists>q'. serviceEvents (\<lambda>_ r. r) t q = Some (Inr q') \<and> eq_curTick q' = t \<and>
    eq_rep q' (dropWhile (\<lambda>x. ev_when (eq_events q x) \<le> t) xs)"
  using assms
proof (induction xs arbitrary: q)
  case Nil
  then have "eq_head q = None" "eq_rep q []" by (auto simp: eq_inv_def dest: eq_rep_head)
  then show ?case by (subst serviceEvents.simps) (auto simp: eq_rep_def)
next
  case (Cons x xs)
  have rep: "eq_rep q (x # xs)" using Cons.prems by (simp add: eq_inv_def)
  then have head: "eq_head q = Some x" by (auto dest: eq_rep_head)
  show ?case
  proof (cases "t < ev_when (eq_events q x)")
    case True
    then have "serviceEvents (\<lambda>_ r. r) t q = Some (Inr (q\<lparr>eq_curTick := t\<rparr>))"
      using head by (subst serviceEvents.simps) simp
    moreover have "eq_rep (q\<lparr>eq_curTick := t\<rparr>) (x # xs)" using rep by (simp add: eq_rep_def)
    ultimately show ?thesis using True by simp
  next
    case False
    obtain q1 where q1: "eq_pop q = Inr (x, q1)" "eq_inv (q1\<lparr>eq_curTick := ev_when (eq_events q x)\<rparr>) xs"
      "eq_inv q1 xs" "others_kept x q q1" "squashed (eq_events q1 x) = squashed (eq_events q x)"
      "ev_when (eq_events q1 x) = ev_when (eq_events q x)" "isExitEvent (eq_events q1 x) = isExitEvent (eq_events q x)"
      by (rule eq_pop_ok [OF Cons.prems(1)])
    let ?q2 = "if squashed (eq_events q x) then eq_upd x (ev_clearFlag Squashed) q1
      else q1\<lparr>eq_curTick := ev_when (eq_events q x)\<rparr>"
    have one: "serviceOne (\<lambda>_ r. r) q = Inr (None, ?q2)"
      using q1 Cons.prems(2) by (auto simp: serviceOne_def Let_def)
    have notin: "x \<notin> set xs" using eq_rep_distinct [OF rep] by simp
    have same: "eq_events ?q2 y = eq_events q1 y" "same_event (eq_events q y) (eq_events q1 y)" if "y \<in> set xs" for y
      using that notin q1(4) by (auto simp: others_kept_def)
    have "eq_inv ?q2 xs" using q1(2,3) by (simp add: eq_inv_clear_squashed)
    moreover have "\<forall>y\<in>set xs. \<not> isExitEvent (eq_events ?q2 y)"
      using same Cons.prems(2) by (simp add: same_event_def isExitEvent_def ev_isSet_def)
    ultimately obtain q' where q': "serviceEvents (\<lambda>_ r. r) t ?q2 = Some (Inr q')" "eq_curTick q' = t"
      "eq_rep q' (dropWhile (\<lambda>x. ev_when (eq_events ?q2 x) \<le> t) xs)"
      using Cons.IH by blast
    have "serviceEvents (\<lambda>_ r. r) t q = serviceEvents (\<lambda>_ r. r) t ?q2"
      using head False one by (subst serviceEvents.simps) (simp only: option.case sum.case prod.case if_False)
    moreover have "dropWhile (\<lambda>x. ev_when (eq_events ?q2 x) \<le> t) xs = dropWhile (\<lambda>x. ev_when (eq_events q x) \<le> t) xs"
      using same by (intro dropWhile_cong refl) (simp add: same_event_def)
    ultimately show ?thesis using q' False by simp
  qed
qed

section \<open>The queue as a set of timers\<close>

text \<open>
  What the devices rely on: an event is a timer that is either idle or set to a tick; setting
  a timer that is set, or setting it in the past, fails an assertion; the next event is the
  earliest timer and moves the clock to its tick.
\<close>

definition timer_set :: "tick \<Rightarrow> tick option \<Rightarrow> tick \<Rightarrow> tick option result" where
  "timer_set now tm t = rbind (sim_assert (now \<le> t \<and> tm = None)) (\<lambda>_. Inr (Some t))"

locale timer_queue =
  fixes inv :: "'q \<Rightarrow> bool" and now :: "'q \<Rightarrow> tick" and timer :: "'q \<Rightarrow> nat \<Rightarrow> tick option"
    and sched :: "'q \<Rightarrow> nat \<Rightarrow> tick \<Rightarrow> 'q result option"
    and desched :: "'q \<Rightarrow> nat \<Rightarrow> 'q result option"
    and nxt :: "'q \<Rightarrow> (nat \<times> 'q) result"
  assumes sched_law: "inv q \<Longrightarrow>
      (case timer_set (now q) (timer q e) t of
         Inl err \<Rightarrow> sched q e t = Some (Inl err)
       | Inr v \<Rightarrow> \<exists>q'. sched q e t = Some (Inr q') \<and> inv q' \<and> now q' = now q \<and> timer q' = (timer q)(e := v))"
    and desched_law: "inv q \<Longrightarrow> timer q e \<noteq> None \<Longrightarrow>
      \<exists>q'. desched q e = Some (Inr q') \<and> inv q' \<and> now q' = now q \<and> timer q' = (timer q)(e := None)"
    and nxt_law: "inv q \<Longrightarrow> timer q e = Some t \<Longrightarrow>
      \<exists>e' t' q'. nxt q = Inr (e', q') \<and> inv q' \<and> timer q e' = Some t' \<and> t' \<le> t \<and> now q' = t' \<and>
        timer q' = (timer q)(e' := None)"
    and future: "inv q \<Longrightarrow> timer q e = Some t \<Longrightarrow> now q \<le> t"
begin

text \<open>Serving \<open>n\<close> events: the ticks they are served at.\<close>

fun serve :: "nat \<Rightarrow> 'q \<Rightarrow> (tick list \<times> 'q) result" where
  "serve 0 q = Inr ([], q)"
| "serve (Suc n) q = rbind (nxt q) (\<lambda>(e, q1). rbind (serve n q1) (\<lambda>(ts, q2). Inr (now q1 # ts, q2)))"

lemma serve_sorted:
  assumes "inv q" "n \<le> card (dom (timer q))" "finite (dom (timer q))"
  shows "\<exists>ts q'. serve n q = Inr (ts, q') \<and> inv q' \<and> sorted (now q # ts) \<and> length ts = n \<and>
    card (dom (timer q')) = card (dom (timer q)) - n"
  using assms
proof (induction n arbitrary: q)
  case 0
  then show ?case by simp
next
  case (Suc n)
  then have "dom (timer q) \<noteq> {}" by auto
  then obtain e where "e \<in> dom (timer q)" by blast
  then obtain t where "timer q e = Some t" by auto
  from nxt_law [OF Suc.prems(1) this] obtain e' t' q1 where
    q1: "nxt q = Inr (e', q1)" "inv q1" "timer q e' = Some t'" "now q1 = t'" "timer q1 = (timer q)(e' := None)" by auto
  have "dom (timer q1) = dom (timer q) - {e'}" "e' \<in> dom (timer q)" using q1(3,5) by auto
  then have card: "card (dom (timer q1)) = card (dom (timer q)) - 1" "finite (dom (timer q1))"
    using Suc.prems(3) by simp_all
  moreover have "n \<le> card (dom (timer q1))" using card(1) Suc.prems(2) by simp
  ultimately obtain ts q2 where "serve n q1 = Inr (ts, q2)" "inv q2" "sorted (now q1 # ts)" "length ts = n"
    "card (dom (timer q2)) = card (dom (timer q1)) - n"
    using Suc.IH [OF q1(2)] by blast
  moreover have "now q \<le> now q1" using future [OF Suc.prems(1) q1(3)] q1(4) by simp
  ultimately show ?case using q1(1) card by auto
qed

end

text \<open>A queue that holds all scheduled events, outside parallel mode.\<close>

definition eq_timers :: "event_queue \<Rightarrow> bool" where
  "eq_timers q = ((\<forall>e. initialized (eq_events q e)) \<and>
     (\<exists>xs. eq_inv q xs \<and> (\<forall>e. scheduled (eq_events q e) \<longleftrightarrow> e \<in> set xs)))"

definition eq_timer :: "event_queue \<Rightarrow> nat \<Rightarrow> tick option" where
  "eq_timer q e = (if scheduled (eq_events q e) then Some (ev_when (eq_events q e)) else None)"

lemma others_kept_timer:
  assumes "others_kept e q q'"
  shows "eq_timer q' = (eq_timer q)(e := eq_timer q' e)"
    "x \<noteq> e \<Longrightarrow> scheduled (eq_events q' x) = scheduled (eq_events q x)"
    "x \<noteq> e \<Longrightarrow> initialized (eq_events q' x) = initialized (eq_events q x)"
  using assms by (auto simp: others_kept_def same_event_def eq_timer_def scheduled_def ev_isSet_def
      initialized_def fun_eq_iff)

lemma eq_schedule_timer:
  assumes "eq_timers q"
  shows "case timer_set (eq_curTick q) (eq_timer q e) t of
      Inl err \<Rightarrow> eq_schedule False c q e t g = Some (Inl err)
    | Inr v \<Rightarrow> \<exists>q'. eq_schedule False c q e t g = Some (Inr q') \<and> eq_timers q' \<and>
        eq_curTick q' = eq_curTick q \<and> eq_timer q' = (eq_timer q)(e := v)"
proof (cases "eq_curTick q \<le> t \<and> \<not> scheduled (eq_events q e)")
  case True
  obtain xs where xs: "eq_inv q xs" "\<forall>x. scheduled (eq_events q x) \<longleftrightarrow> x \<in> set xs" "\<forall>x. initialized (eq_events q x)"
    using assms by (auto simp: eq_timers_def)
  obtain q' where q': "eq_schedule False c q e t g = Some (Inr q')" "eq_inv q' (order_insert (eq_events q') e xs)"
    "scheduled (eq_events q' e)" "ev_when (eq_events q' e) = t" "others_kept e q q'"
    using eq_schedule_ok [OF xs(1)] True xs(3) by metis
  have init: "initialized (eq_events q' x)" for x
    using others_kept_timer(3) [OF q'(5)] xs(3) q'(2) by (cases "x = e") (auto simp: eq_inv_def)
  have sch: "scheduled (eq_events q' x) \<longleftrightarrow> x \<in> insert e (set xs)" for x
    using others_kept_timer(2) [OF q'(5)] xs(2) q'(3) by (cases "x = e") auto
  have "eq_timers q'" using q'(2) init sch set_order_insert by (auto simp: eq_timers_def)
  moreover have "eq_timer q' e = Some t" using q'(3,4) by (simp add: eq_timer_def)
  ultimately show ?thesis using True q' others_kept_timer(1) [OF q'(5)]
    by (auto simp: timer_set_def eq_timer_def others_kept_def sim_assert_def)
next
  case False
  then show ?thesis by (auto simp: timer_set_def eq_timer_def eq_schedule_def Let_def sim_assert_def split: if_splits)
qed

lemma eq_deschedule_timer:
  assumes "eq_timers q" "eq_timer q e \<noteq> None"
  shows "\<exists>q'. eq_deschedule False c q e = Some (Inr q') \<and> eq_timers q' \<and> eq_curTick q' = eq_curTick q \<and>
    eq_timer q' = (eq_timer q)(e := None)"
proof -
  obtain xs where xs: "eq_inv q xs" "\<forall>x. scheduled (eq_events q x) \<longleftrightarrow> x \<in> set xs" "\<forall>x. initialized (eq_events q x)"
    using assms by (auto simp: eq_timers_def)
  have e: "e \<in> set xs" using assms(2) xs(2) by (auto simp: eq_timer_def split: if_splits)
  obtain q' where q': "eq_deschedule False c q e = Some (Inr q')" "eq_inv q' (remove1 e xs)"
    "\<not> scheduled (eq_events q' e)" "others_kept e q q'" "initialized (eq_events q' e)"
    using eq_deschedule_ok [OF xs(1) e, of False c] by blast
  have dist: "distinct xs" using xs(1) by (auto simp: eq_inv_def dest: eq_rep_distinct)
  have init: "initialized (eq_events q' x)" for x
    using others_kept_timer(3) [OF q'(4)] xs(3) q'(5) by (cases "x = e") auto
  have "scheduled (eq_events q' x) \<longleftrightarrow> x \<in> set (remove1 e xs)" for x
    using others_kept_timer(2) [OF q'(4)] xs(2) q'(3) dist by (cases "x = e") auto
  then have "eq_timers q'" using q'(2) init by (auto simp: eq_timers_def)
  moreover have "eq_timer q' e = None" using q'(3) by (simp add: eq_timer_def)
  ultimately show ?thesis using q' others_kept_timer(1) [OF q'(4)] by (auto simp: others_kept_def)
qed

lemma eq_next_timer:
  assumes "eq_timers q" "eq_timer q e = Some t"
  shows "\<exists>e' t' q'. eq_next q = Inr (e', q') \<and> eq_timers q' \<and> eq_timer q e' = Some t' \<and> t' \<le> t \<and>
    eq_curTick q' = t' \<and> eq_timer q' = (eq_timer q)(e' := None)"
proof -
  obtain ys where ys: "eq_inv q ys" "\<forall>x. scheduled (eq_events q x) \<longleftrightarrow> x \<in> set ys" "\<forall>x. initialized (eq_events q x)"
    using assms by (auto simp: eq_timers_def)
  have e: "e \<in> set ys" "t = ev_when (eq_events q e)" using assms(2) ys(2) by (auto simp: eq_timer_def split: if_splits)
  then obtain x xs where x: "ys = x # xs" by (cases ys) auto
  obtain q' where q': "eq_next q = Inr (x, q')" "eq_inv q' xs" "\<not> scheduled (eq_events q' x)"
    "eq_curTick q' = ev_when (eq_events q x)" "\<forall>y. y \<noteq> x \<longrightarrow> same_event (eq_events q y) (eq_events q' y)"
    "initialized (eq_events q' x)"
    using eq_next_ok ys(1) x by metis
  have other: "scheduled (eq_events q' y) = scheduled (eq_events q y)" "initialized (eq_events q' y)"
    "ev_when (eq_events q' y) = ev_when (eq_events q y)" if "y \<noteq> x" for y
    using q'(5) that ys(3) by (auto simp: same_event_def scheduled_def ev_isSet_def initialized_def)
  have dist: "distinct ys" using ys(1) by (auto simp: eq_inv_def dest: eq_rep_distinct)
  have "scheduled (eq_events q' y) \<longleftrightarrow> y \<in> set xs" for y
    using other(1) ys(2) q'(3) dist x by (cases "y = x") auto
  moreover have "initialized (eq_events q' y)" for y using other(2) q'(6) by (cases "y = x") auto
  ultimately have "eq_timers q'" using q'(2) by (auto simp: eq_timers_def)
  moreover have "eq_timer q' = (eq_timer q)(x := None)"
    using other q'(3) by (auto simp: eq_timer_def fun_eq_iff)
  moreover have "eq_timer q x = Some (ev_when (eq_events q x))" using ys(2) x by (simp add: eq_timer_def)
  moreover have "ev_when (eq_events q x) \<le> t" using eq_inv_minimal(1) [of q x xs e] ys(1) x e by auto
  ultimately show ?thesis using q'(1,4) by blast
qed

interpretation evq: timer_queue eq_timers eq_curTick eq_timer
  "\<lambda>q e t. eq_schedule False c q e t g" "\<lambda>q e. eq_deschedule False c q e" eq_next for c g
proof (unfold_locales, goal_cases)
  case (1 q e t)
  then show ?case by (rule eq_schedule_timer)
next
  case (2 q e)
  then show ?case by (rule eq_deschedule_timer)
next
  case (3 q e t)
  then show ?case by (rule eq_next_timer)
next
  case (4 q e t)
  then obtain xs where "eq_inv q xs" "\<forall>x. scheduled (eq_events q x) \<longleftrightarrow> x \<in> set xs" by (auto simp: eq_timers_def)
  then show ?case using 4(2) by (auto simp: eq_timer_def eq_inv_def split: if_splits)
qed

end
