(* ===== verification/Clocked_Object.thy ===== *)
theory Clocked_Object
  imports Pard_Prelude
begin

text \<open>
  The lazily updated clock of a simulation object, \<^verbatim>\<open>sim/clocked_object.hh\<close>. The period of
  the clock domain is an argument of the operations, so that a change of frequency between
  two calls is possible.
\<close>

record clocked_object =
  co_tick :: tick
  co_cycle :: nat

definition ClockedObject :: clocked_object where
  "ClockedObject = \<lparr>co_tick = 0, co_cycle = 0\<rparr>"

definition div_ceil :: "nat \<Rightarrow> nat \<Rightarrow> nat" where
  "div_ceil a b = (a + b - 1) div b"

definition clock_update :: "tick \<Rightarrow> nat \<Rightarrow> clocked_object \<Rightarrow> clocked_object" where
  "clock_update now period c =
     (if co_tick c \<ge> now then c
      else
        let c1 = c\<lparr>co_tick := co_tick c + period, co_cycle := co_cycle c + 1\<rparr> in
        if co_tick c1 \<ge> now then c1
        else
          let elapsedCycles = div_ceil (now - co_tick c1) period in
          c1\<lparr>co_cycle := co_cycle c1 + elapsedCycles, co_tick := co_tick c1 + elapsedCycles * period\<rparr>)"

definition resetClock :: "tick \<Rightarrow> nat \<Rightarrow> clocked_object \<Rightarrow> clocked_object" where
  "resetClock now period c =
     (let elapsedCycles = div_ceil now period in
      c\<lparr>co_cycle := elapsedCycles, co_tick := elapsedCycles * period\<rparr>)"

definition clockEdge :: "tick \<Rightarrow> nat \<Rightarrow> nat \<Rightarrow> clocked_object \<Rightarrow> tick \<times> clocked_object" where
  "clockEdge now period cycles c =
     (let c1 = clock_update now period c in (co_tick c1 + period * cycles, c1))"

definition curCycle :: "tick \<Rightarrow> nat \<Rightarrow> clocked_object \<Rightarrow> nat \<times> clocked_object" where
  "curCycle now period c = (let c1 = clock_update now period c in (co_cycle c1, c1))"

definition nextCycle :: "tick \<Rightarrow> nat \<Rightarrow> clocked_object \<Rightarrow> tick \<times> clocked_object" where
  "nextCycle now period c = clockEdge now period 1 c"

definition ticksToCycles :: "nat \<Rightarrow> tick \<Rightarrow> nat" where
  "ticksToCycles period t = div_ceil t period"

section \<open>Edges\<close>

text \<open>
  With a fixed period, the stored tick is always the edge of the stored cycle and the update
  finds the first edge that is not in the past.
\<close>

definition clock_inv :: "nat \<Rightarrow> clocked_object \<Rightarrow> bool" where
  "clock_inv period c = (co_tick c = co_cycle c * period)"

lemma div_ceil_bounds:
  assumes "0 < b"
  shows "a \<le> div_ceil a b * b" "div_ceil a b * b < a + b"
proof -
  have "(a + b - 1) div b * b + (a + b - 1) mod b = a + b - 1" by (rule div_mult_mod_eq)
  moreover have "(a + b - 1) mod b < b" using assms by simp
  ultimately have "a \<le> (a + b - 1) div b * b \<and> (a + b - 1) div b * b < a + b"
    using assms by linarith
  then show "a \<le> div_ceil a b * b" "div_ceil a b * b < a + b"
    unfolding div_ceil_def by blast+
qed

lemma clock_update_inv: "clock_inv period c \<Longrightarrow> clock_inv period (clock_update now period c)"
  by (auto simp: clock_update_def clock_inv_def Let_def algebra_simps)

lemma clock_update_ge: "0 < period \<Longrightarrow> now \<le> co_tick (clock_update now period c)"
  using div_ceil_bounds(1) [of period "now - (co_tick c + period)"]
  by (auto simp: clock_update_def Let_def)

lemma clock_update_first:
  assumes "0 < period" "co_tick c < now + period"
  shows "co_tick (clock_update now period c) < now + period"
  using assms div_ceil_bounds(2) [of period "now - (co_tick c + period)"]
  by (auto simp: clock_update_def Let_def)

lemma clockEdge_ge: "0 < period \<Longrightarrow> clockEdge now period n c = (t, c') \<Longrightarrow> now + n * period \<le> t"
  using clock_update_ge [of period now c] by (auto simp: clockEdge_def Let_def algebra_simps)

lemma clockEdge_window:
  assumes "0 < period" "clock_inv period c" "co_tick c < now + period" "clockEdge now period n c = (t, c')"
  shows "period dvd t" "now + n * period \<le> t" "t < now + (n + 1) * period" "clock_inv period c'"
    "co_tick c' < now + period"
proof -
  have inv: "clock_inv period (clock_update now period c)" by (rule clock_update_inv [OF assms(2)])
  then show "clock_inv period c'" using assms(4) by (auto simp: clockEdge_def Let_def)
  show "period dvd t" using inv assms(4) by (auto simp: clockEdge_def Let_def clock_inv_def)
  show "now + n * period \<le> t" by (rule clockEdge_ge [OF assms(1,4)])
  show "t < now + (n + 1) * period" "co_tick c' < now + period"
    using clock_update_first [OF assms(1,3)] assms(4) by (auto simp: clockEdge_def Let_def algebra_simps)
qed

lemma ticksToCycles_roundtrip:
  assumes "0 < period"
  shows "ticksToCycles period (n * period) = n"
proof -
  have "n * period \<le> ticksToCycles period (n * period) * period"
    "ticksToCycles period (n * period) * period < (n + 1) * period"
    using div_ceil_bounds [OF assms, of "n * period"] by (simp_all add: ticksToCycles_def)
  then show ?thesis using assms by (simp del: mult_Suc_right mult_Suc)
qed

end
