(* ===== verification/Bridge.thy ===== *)
theory Bridge
  imports Packet Event_Timers Clocked_Object
begin

text \<open>
  The bus bridge, \<^verbatim>\<open>hyper/mem/bridge.cc\<close>: a request queue in front of its master port and a
  response queue in front of its slave port, with space reserved for every response that is
  due. The two send events are timers of the event queue. The peer ports are arguments; a
  retry to the requester is an output, since both functions that send one do so last.
\<close>

type_synonym deferred_packet = "packet \<times> tick"

record bridge =
  br_clock :: clocked_object
  br_period :: nat
  br_delay :: nat
  br_reqQueueLimit :: nat
  br_respQueueLimit :: nat
  br_reqs :: "deferred_packet list"
  br_reqEvent :: "tick option"
  br_resps :: "deferred_packet list"
  br_respEvent :: "tick option"
  br_outstandingResponses :: nat
  br_retryReq :: bool

definition PARDg5VBridge :: "nat \<Rightarrow> tick \<Rightarrow> nat \<Rightarrow> nat \<Rightarrow> bridge" where
  "PARDg5VBridge period delay req_size resp_size =
     \<lparr>br_clock = ClockedObject, br_period = period, br_delay = ticksToCycles period delay,
      br_reqQueueLimit = req_size, br_respQueueLimit = resp_size,
      br_reqs = [], br_reqEvent = None, br_resps = [], br_respEvent = None,
      br_outstandingResponses = 0, br_retryReq = False\<rparr>"

definition br_clockEdge :: "tick \<Rightarrow> nat \<Rightarrow> bridge \<Rightarrow> tick \<times> bridge" where
  "br_clockEdge now cycles b =
     (case clockEdge now (br_period b) cycles (br_clock b) of (t, c) \<Rightarrow> (t, b\<lparr>br_clock := c\<rparr>))"

definition respQueueFull :: "bridge \<Rightarrow> bool" where
  "respQueueFull b = (br_outstandingResponses b = br_respQueueLimit b)"

definition reqQueueFull :: "bridge \<Rightarrow> bool" where
  "reqQueueFull b = (length (br_reqs b) = br_reqQueueLimit b)"

definition expects_response :: "packet \<Rightarrow> bool" where
  "expects_response p = (needsResponse (pk_cmd p) \<and> \<not> memInhibitAsserted p)"

definition no_bus_delay :: "packet \<Rightarrow> packet" where
  "no_bus_delay p = p\<lparr>pk_busFirstWordDelay := 0, pk_busLastWordDelay := 0\<rparr>"

definition schedTimingReq :: "tick \<Rightarrow> packet \<Rightarrow> tick \<Rightarrow> bridge \<Rightarrow> bridge result" where
  "schedTimingReq now p t b =
     rbind (if \<not> memInhibitAsserted p \<and> needsResponse (pk_cmd p)
            then rbind (getSrc p) (\<lambda>src. Inr (pushSenderState (BridgeReqState src) p)) else Inr p) (\<lambda>p1.
     rbind (if br_reqs b = [] then timer_set now (br_reqEvent b) t else Inr (br_reqEvent b)) (\<lambda>ev.
     rbind (sim_assert (length (br_reqs b) \<noteq> br_reqQueueLimit b)) (\<lambda>_.
       Inr (b\<lparr>br_reqEvent := ev, br_reqs := br_reqs b @ [(p1, t)]\<rparr>))))"

definition schedTimingResp :: "tick \<Rightarrow> packet \<Rightarrow> tick \<Rightarrow> bridge \<Rightarrow> bridge result" where
  "schedTimingResp now p t b =
     rbind (popSenderState p) (\<lambda>(s, p1).
       case s of BridgeReqState origSrc \<Rightarrow>
         let p2 = p1\<lparr>pk_dest := origSrc\<rparr> in
         rbind (sim_assert (pk_dest p2 \<noteq> InvalidPortID)) (\<lambda>_.
         rbind (if br_resps b = [] then timer_set now (br_respEvent b) t else Inr (br_respEvent b)) (\<lambda>ev.
           Inr (b\<lparr>br_respEvent := ev, br_resps := br_resps b @ [(p2, t)]\<rparr>)))
       | _ \<Rightarrow> Inl AssertFail)"

text \<open>\<^verbatim>\<open>BridgeSlavePort::recvTimingReq\<close>: the answer to the requester and the bridge.\<close>

definition br_recvTimingReq :: "tick \<Rightarrow> packet \<Rightarrow> bridge \<Rightarrow> (bool \<times> bridge) result" where
  "br_recvTimingReq now p b =
     rbind (sim_assert (\<not> br_retryReq b)) (\<lambda>_.
       if reqQueueFull b then Inr (False, b\<lparr>br_retryReq := True\<rparr>)
       else if expects_response p \<and> respQueueFull b then Inr (False, b\<lparr>br_retryReq := True\<rparr>)
       else
         rbind (if expects_response p
                then rbind (sim_assert (br_outstandingResponses b \<noteq> br_respQueueLimit b)) (\<lambda>_.
                       Inr (b\<lparr>br_outstandingResponses := br_outstandingResponses b + 1\<rparr>))
                else Inr b) (\<lambda>b1.
           case br_clockEdge now (br_delay b1) b1 of (t, b2) \<Rightarrow>
             rbind (schedTimingReq now (no_bus_delay p) t b2) (\<lambda>b3. Inr (True, b3))))"

definition br_recvTimingResp :: "tick \<Rightarrow> packet \<Rightarrow> bridge \<Rightarrow> (bool \<times> bridge) result" where
  "br_recvTimingResp now p b =
     (case br_clockEdge now (br_delay b) b of (t, b1) \<Rightarrow>
        rbind (schedTimingResp now (no_bus_delay p) t b1) (\<lambda>b2. Inr (True, b2)))"

text \<open>\<^verbatim>\<open>retryStalledReq\<close>: whether a retry goes to the requester.\<close>

definition retryStalledReq :: "bridge \<Rightarrow> bool \<times> bridge" where
  "retryStalledReq b = (if br_retryReq b then (True, b\<lparr>br_retryReq := False\<rparr>) else (False, b))"

text \<open>The peer's answer is an argument; the result says whether a retry is sent.\<close>

definition trySendTimingReq :: "tick \<Rightarrow> bool \<Rightarrow> bridge \<Rightarrow> (bool \<times> bridge) result" where
  "trySendTimingReq now sent b =
     (case br_reqs b of
        [] \<Rightarrow> Inl AssertFail
      | (p, t) # rest \<Rightarrow>
          rbind (sim_assert (t \<le> now)) (\<lambda>_.
            if sent then
              let b1 = b\<lparr>br_reqs := rest\<rparr> in
              rbind (case rest of
                       [] \<Rightarrow> Inr b1
                     | (_, t') # _ \<Rightarrow>
                         (case br_clockEdge now 0 b1 of (edge, b2) \<Rightarrow>
                            rbind (timer_set now (br_reqEvent b2) (max t' edge)) (\<lambda>ev. Inr (b2\<lparr>br_reqEvent := ev\<rparr>))))
                (\<lambda>b2. Inr (retryStalledReq b2))
            else Inr (False, b)))"

definition trySendTimingResp :: "tick \<Rightarrow> bool \<Rightarrow> bridge \<Rightarrow> (bool \<times> bridge) result" where
  "trySendTimingResp now sent b =
     (case br_resps b of
        [] \<Rightarrow> Inl AssertFail
      | (p, t) # rest \<Rightarrow>
          rbind (sim_assert (t \<le> now)) (\<lambda>_.
            if sent then
              let b1 = b\<lparr>br_resps := rest\<rparr> in
              rbind (sim_assert (br_outstandingResponses b1 \<noteq> 0)) (\<lambda>_.
              let b2 = b1\<lparr>br_outstandingResponses := br_outstandingResponses b1 - 1\<rparr> in
              rbind (case rest of
                       [] \<Rightarrow> Inr b2
                     | (_, t') # _ \<Rightarrow>
                         (case br_clockEdge now 0 b2 of (edge, b3) \<Rightarrow>
                            rbind (timer_set now (br_respEvent b3) (max t' edge)) (\<lambda>ev. Inr (b3\<lparr>br_respEvent := ev\<rparr>))))
                (\<lambda>b3. if \<not> reqQueueFull b3 \<and> br_retryReq b3 then Inr (True, b3\<lparr>br_retryReq := False\<rparr>)
                      else Inr (False, b3)))
            else Inr (False, b)))"

definition br_recvAtomic :: "(packet \<Rightarrow> tick \<times> packet) \<Rightarrow> packet \<Rightarrow> bridge \<Rightarrow> tick \<times> packet" where
  "br_recvAtomic sendAtomic p b =
     (case sendAtomic p of (t, p') \<Rightarrow> (br_delay b * br_period b + t, p'))"

text \<open>
  A functional access searches a queue for the first packet that satisfies it; a write updates
  the packets it passes.
\<close>

fun search_queue :: "u8 list \<Rightarrow> packet \<Rightarrow> deferred_packet list \<Rightarrow> (bool \<times> packet \<times> deferred_packet list) result" where
  "search_queue junk p [] = Inr (False, p, [])"
| "search_queue junk p ((o1, t) # qs) =
     rbind (checkFunctional_pkt junk p o1) (\<lambda>(fin, p1, o2).
       if fin then rbind (makeResponse p1) (\<lambda>p2. Inr (True, p2, (o2, t) # qs))
       else rbind (search_queue junk p1 qs) (\<lambda>(f, p2, qs'). Inr (f, p2, (o2, t) # qs')))"

definition br_checkFunctional :: "u8 list \<Rightarrow> packet \<Rightarrow> bridge \<Rightarrow> (bool \<times> packet \<times> bridge) result" where
  "br_checkFunctional junk p b =
     rbind (search_queue junk p (br_reqs b)) (\<lambda>(found, p1, qs). Inr (found, p1, b\<lparr>br_reqs := qs\<rparr>))"

definition br_recvFunctional ::
  "u8 list \<Rightarrow> string \<Rightarrow> (packet \<Rightarrow> packet) \<Rightarrow> packet \<Rightarrow> bridge \<Rightarrow> (packet \<times> bridge) result" where
  "br_recvFunctional junk name sendFunctional p b =
     rbind (pushLabel name p) (\<lambda>p0.
     rbind (search_queue junk p0 (br_resps b)) (\<lambda>(found, p1, qs).
       let b1 = b\<lparr>br_resps := qs\<rparr> in
       if found then Inr (p1, b1)
       else
         rbind (br_checkFunctional junk p1 b1) (\<lambda>(found2, p2, b2).
           if found2 then Inr (p2, b2)
           else rbind (popLabel p2) (\<lambda>p3. Inr (sendFunctional p3, b2)))))"

section \<open>The bridge between its peers\<close>

text \<open>
  One step of the bridge and its peers: time passes up to the next event; the requester sends a
  request; a send event fires or the peer asks for a retry, with the peer's answer; the memory
  side answers the request at a position of the list of requests in flight. \<open>bs_reqWait\<close> and
  \<open>bs_respWait\<close> record that the peer refused the head packet and owes a retry.
\<close>

record bridge_sys =
  bs_br :: bridge
  bs_now :: tick
  bs_flight :: "packet list"
  bs_reqWait :: bool
  bs_respWait :: bool

datatype bridge_action =
    Advance tick
  | ReqIn packet
  | ReqFire bool
  | ReqRetry bool
  | RespIn nat
  | RespFire bool
  | RespRetry bool

definition forward_head :: "bridge \<Rightarrow> packet list \<Rightarrow> packet list" where
  "forward_head b fl =
     (case br_reqs b of (p, _) # _ \<Rightarrow> if expects_response p then fl @ [p] else fl | [] \<Rightarrow> fl)"

fun enabled :: "bridge_action \<Rightarrow> bridge_sys \<Rightarrow> bool" where
  "enabled (Advance t) s =
     (bs_now s \<le> t \<and> (\<forall>w. br_reqEvent (bs_br s) = Some w \<longrightarrow> t \<le> w) \<and>
      (\<forall>w. br_respEvent (bs_br s) = Some w \<longrightarrow> t \<le> w))"
| "enabled (ReqIn p) s = (\<not> br_retryReq (bs_br s) \<and> pk_src p \<noteq> InvalidPortID)"
| "enabled (ReqFire ok) s = (br_reqEvent (bs_br s) = Some (bs_now s))"
| "enabled (ReqRetry ok) s = bs_reqWait s"
| "enabled (RespIn i) s = (i < length (bs_flight s))"
| "enabled (RespFire ok) s = (br_respEvent (bs_br s) = Some (bs_now s))"
| "enabled (RespRetry ok) s = bs_respWait s"

fun bridge_do :: "bridge_action \<Rightarrow> bridge_sys \<Rightarrow> bridge_sys result" where
  "bridge_do (Advance t) s = Inr (s\<lparr>bs_now := t\<rparr>)"
| "bridge_do (ReqIn p) s =
     rbind (br_recvTimingReq (bs_now s) p (bs_br s)) (\<lambda>(_, b). Inr (s\<lparr>bs_br := b\<rparr>))"
| "bridge_do (ReqFire ok) s =
     rbind (trySendTimingReq (bs_now s) ok ((bs_br s)\<lparr>br_reqEvent := None\<rparr>)) (\<lambda>(_, b).
       Inr (s\<lparr>bs_br := b, bs_reqWait := \<not> ok,
              bs_flight := if ok then forward_head (bs_br s) (bs_flight s) else bs_flight s\<rparr>))"
| "bridge_do (ReqRetry ok) s =
     rbind (trySendTimingReq (bs_now s) ok (bs_br s)) (\<lambda>(_, b).
       Inr (s\<lparr>bs_br := b, bs_reqWait := \<not> ok,
              bs_flight := if ok then forward_head (bs_br s) (bs_flight s) else bs_flight s\<rparr>))"
| "bridge_do (RespIn i) s =
     rbind (makeResponse (bs_flight s ! i)) (\<lambda>r.
     rbind (br_recvTimingResp (bs_now s) r (bs_br s)) (\<lambda>(_, b).
       Inr (s\<lparr>bs_br := b, bs_flight := take i (bs_flight s) @ drop (i + 1) (bs_flight s)\<rparr>)))"
| "bridge_do (RespFire ok) s =
     rbind (trySendTimingResp (bs_now s) ok ((bs_br s)\<lparr>br_respEvent := None\<rparr>)) (\<lambda>(_, b).
       Inr (s\<lparr>bs_br := b, bs_respWait := \<not> ok\<rparr>))"
| "bridge_do (RespRetry ok) s =
     rbind (trySendTimingResp (bs_now s) ok (bs_br s)) (\<lambda>(_, b).
       Inr (s\<lparr>bs_br := b, bs_respWait := \<not> ok\<rparr>))"

definition bridge_init :: "nat \<Rightarrow> tick \<Rightarrow> nat \<Rightarrow> nat \<Rightarrow> bridge_sys" where
  "bridge_init period delay req_size resp_size =
     \<lparr>bs_br = PARDg5VBridge period delay req_size resp_size, bs_now = 0, bs_flight = [],
      bs_reqWait = False, bs_respWait = False\<rparr>"

inductive bridge_reach :: "bridge_sys \<Rightarrow> bridge_sys \<Rightarrow> bool" for s0 :: bridge_sys where
  reach_init: "bridge_reach s0 s0"
| reach_step: "bridge_reach s0 s \<Longrightarrow> enabled a s \<Longrightarrow> bridge_do a s = Inr s' \<Longrightarrow> bridge_reach s0 s'"

section \<open>The invariant\<close>

text \<open>
  A queue with its send event: a packet at the head is either waiting for its event, which is
  not in the past and not before the packet's tick, or was refused and waits for a retry.
\<close>

definition queue_ok :: "tick \<Rightarrow> deferred_packet list \<Rightarrow> tick option \<Rightarrow> bool \<Rightarrow> bool" where
  "queue_ok now q ev waiting =
     ((q = [] \<longrightarrow> ev = None \<and> \<not> waiting) \<and> (q \<noteq> [] \<longrightarrow> (ev = None) = waiting) \<and>
      (\<forall>w. ev = Some w \<longrightarrow> now \<le> w \<and> snd (hd q) \<le> w) \<and> (waiting \<longrightarrow> snd (hd q) \<le> now))"

definition tagged :: "packet \<Rightarrow> bool" where
  "tagged p = (case pk_senderState p of BridgeReqState src # _ \<Rightarrow> src \<noteq> InvalidPortID | _ \<Rightarrow> False)"

definition due :: "deferred_packet list \<Rightarrow> nat" where
  "due q = length (filter (\<lambda>(p, _). expects_response p) q)"

definition bridge_ok :: "bridge_sys \<Rightarrow> bool" where
  "bridge_ok s =
     (let b = bs_br s in
      0 < br_period b \<and>
      queue_ok (bs_now s) (br_reqs b) (br_reqEvent b) (bs_reqWait s) \<and>
      queue_ok (bs_now s) (br_resps b) (br_respEvent b) (bs_respWait s) \<and>
      length (br_reqs b) \<le> br_reqQueueLimit b \<and>
      br_outstandingResponses b = length (br_resps b) + length (bs_flight s) + due (br_reqs b) \<and>
      br_outstandingResponses b \<le> br_respQueueLimit b \<and>
      (br_retryReq b \<longrightarrow> reqQueueFull b \<or> respQueueFull b) \<and>
      (\<forall>(p, _)\<in>set (br_reqs b). expects_response p \<longrightarrow> tagged p) \<and>
      (\<forall>p\<in>set (bs_flight s). expects_response p \<and> tagged p))"

lemma bridge_init_ok: "0 < period \<Longrightarrow> bridge_ok (bridge_init period delay n m)"
  by (simp add: bridge_ok_def bridge_init_def PARDg5VBridge_def queue_ok_def due_def)

lemma br_clockEdge_frame:
  assumes "br_clockEdge now n b = (t, b')"
  shows "\<exists>c. b' = b\<lparr>br_clock := c\<rparr>" "0 < br_period b \<Longrightarrow> now \<le> t"
proof -
  show "\<exists>c. b' = b\<lparr>br_clock := c\<rparr>"
    using assms by (auto simp: br_clockEdge_def split: prod.splits)
  show "now \<le> t" if "0 < br_period b"
    using assms clockEdge_ge [OF that, of now n "br_clock b"] by (auto simp: br_clockEdge_def split: prod.splits)
qed

lemma expects_response_frame [simp]:
  "expects_response (no_bus_delay p) = expects_response p"
  "expects_response (pushSenderState x p) = expects_response p"
  by (simp_all add: expects_response_def no_bus_delay_def pushSenderState_def memInhibitAsserted_def flag_isSet_def)

lemma tagged_push: "src \<noteq> InvalidPortID \<Longrightarrow> tagged (pushSenderState (BridgeReqState src) p)"
  by (simp add: tagged_def pushSenderState_def)

text \<open>Appending to a queue and setting its event when it was empty.\<close>

lemma queue_ok_append:
  assumes "queue_ok now q ev waiting" "now \<le> t"
  shows "\<exists>ev'. (if q = [] then timer_set now ev t else Inr ev) = Inr ev' \<and> queue_ok now (q @ [(p, t)]) ev' waiting"
  using assms by (cases q) (auto simp: queue_ok_def timer_set_def sim_assert_def)

lemma due_append [simp]: "due (q @ [(p, t)]) = due q + of_bool (expects_response p)"
  by (simp add: due_def)

lemma due_Cons [simp]: "due ((p, t) # q) = due q + of_bool (expects_response p)"
  by (simp add: due_def)

lemma schedTimingReq_ok:
  assumes "queue_ok now (br_reqs b) (br_reqEvent b) waiting" "now \<le> t" "pk_src p \<noteq> InvalidPortID"
    "length (br_reqs b) \<noteq> br_reqQueueLimit b"
  obtains p1 ev where "schedTimingReq now p t b = Inr (b\<lparr>br_reqEvent := ev, br_reqs := br_reqs b @ [(p1, t)]\<rparr>)"
    "queue_ok now (br_reqs b @ [(p1, t)]) ev waiting" "expects_response p1 = expects_response p"
    "expects_response p \<longrightarrow> tagged p1"
proof -
  let ?p1 = "if expects_response p then pushSenderState (BridgeReqState (pk_src p)) p else p"
  obtain ev where ev: "(if br_reqs b = [] then timer_set now (br_reqEvent b) t else Inr (br_reqEvent b)) = Inr ev"
    "queue_ok now (br_reqs b @ [(?p1, t)]) ev waiting"
    using queue_ok_append [OF assms(1,2)] by blast
  have "schedTimingReq now p t b = Inr (b\<lparr>br_reqEvent := ev, br_reqs := br_reqs b @ [(?p1, t)]\<rparr>)"
    using ev(1) assms(3,4) by (auto simp: schedTimingReq_def getSrc_def expects_response_def rbind_assert)
  then show thesis by (rule that) (use ev(2) assms(3) in \<open>auto simp: tagged_push\<close>)
qed

lemma schedTimingResp_ok:
  assumes "queue_ok now (br_resps b) (br_respEvent b) waiting" "now \<le> t" "tagged p"
  obtains p1 ev where "schedTimingResp now p t b = Inr (b\<lparr>br_respEvent := ev, br_resps := br_resps b @ [(p1, t)]\<rparr>)"
    "queue_ok now (br_resps b @ [(p1, t)]) ev waiting"
    "pk_senderState p = BridgeReqState (pk_dest p1) # pk_senderState p1"
proof -
  obtain src ss where s: "pk_senderState p = BridgeReqState src # ss" "src \<noteq> InvalidPortID"
    using assms(3) by (auto simp: tagged_def split: list.splits sender_state.splits)
  let ?p1 = "p\<lparr>pk_senderState := ss, pk_dest := src\<rparr>"
  obtain ev where "(if br_resps b = [] then timer_set now (br_respEvent b) t else Inr (br_respEvent b)) = Inr ev"
    "queue_ok now (br_resps b @ [(?p1, t)]) ev waiting"
    using queue_ok_append [OF assms(1,2)] by blast
  then show thesis using s
    by (intro that [where ev = ev and ?p1.0 = ?p1]) (simp_all add: schedTimingResp_def popSenderState_def rbind_assert)
qed

text \<open>Taking the head off a queue and setting the event for the next packet.\<close>

lemma queue_ok_next:
  assumes "now \<le> edge" "tail \<noteq> []"
  shows "timer_set now None (max (snd (hd tail)) edge) = Inr (Some (max (snd (hd tail)) edge))"
    "queue_ok now tail (Some (max (snd (hd tail)) edge)) False"
  using assms by (auto simp: timer_set_def sim_assert_def queue_ok_def)

lemma trySendTimingReq_ok:
  assumes "0 < br_period b" "br_reqEvent b = None" "br_reqs b = (p, t) # tail" "t \<le> now"
  obtains c ev where "trySendTimingReq now True b =
      Inr (br_retryReq b, b\<lparr>br_clock := c, br_reqs := tail, br_reqEvent := ev, br_retryReq := False\<rparr>)"
    "queue_ok now tail ev False"
proof (cases tail)
  case Nil
  then show thesis
    using assms by (intro that [where c = "br_clock b" and ev = None]) (cases b, auto simp: trySendTimingReq_def retryStalledReq_def queue_ok_def rbind_assert Let_def)+
next
  case (Cons x xs)
  obtain edge b2 where e: "br_clockEdge now 0 (b\<lparr>br_reqs := tail\<rparr>) = (edge, b2)" by fastforce
  then obtain c where b2: "b2 = b\<lparr>br_reqs := tail, br_clock := c\<rparr>" "now \<le> edge"
    using br_clockEdge_frame [OF e] assms(1) by auto
  obtain y t' where x: "x = (y, t')" by fastforce
  show thesis
    using assms e b2 Cons x queue_ok_next [OF b2(2), of tail]
    by (intro that [where c = c and ev = "Some (max t' edge)"]) (auto simp: trySendTimingReq_def retryStalledReq_def rbind_assert)
qed

lemma trySendTimingResp_ok:
  assumes "0 < br_period b" "br_respEvent b = None" "br_resps b = (p, t) # tail" "t \<le> now"
    "br_outstandingResponses b \<noteq> 0"
  obtains c ev where "trySendTimingResp now True b =
      Inr (br_retryReq b \<and> \<not> reqQueueFull b,
           b\<lparr>br_clock := c, br_resps := tail, br_outstandingResponses := br_outstandingResponses b - 1,
             br_respEvent := ev, br_retryReq := br_retryReq b \<and> reqQueueFull b\<rparr>)"
    "queue_ok now tail ev False"
proof (cases tail)
  case Nil
  then show thesis
    using assms by (intro that [where c = "br_clock b" and ev = None]) (cases b, auto simp: trySendTimingResp_def queue_ok_def rbind_assert reqQueueFull_def Let_def)+
next
  case (Cons x xs)
  let ?b = "b\<lparr>br_resps := tail, br_outstandingResponses := br_outstandingResponses b - 1\<rparr>"
  obtain edge b2 where e: "br_clockEdge now 0 ?b = (edge, b2)" by fastforce
  then obtain c where b2: "b2 = ?b\<lparr>br_clock := c\<rparr>" "now \<le> edge"
    using br_clockEdge_frame [OF e] assms(1) by auto
  obtain y t' where x: "x = (y, t')" by fastforce
  show thesis
    using assms e b2 Cons x queue_ok_next [OF b2(2), of tail]
    by (intro that [where c = c and ev = "Some (max t' edge)"]) (auto simp: trySendTimingResp_def rbind_assert reqQueueFull_def)
qed

section \<open>Every enabled step succeeds and keeps the invariant\<close>

lemma req_in_ok:
  assumes ok: "bridge_ok s" and "enabled (ReqIn p) s"
  shows "\<exists>s'. bridge_do (ReqIn p) s = Inr s' \<and> bridge_ok s'"
proof -
  let ?b = "bs_br s"
  have en: "\<not> br_retryReq ?b" "pk_src p \<noteq> InvalidPortID" using assms(2) by simp_all
  show ?thesis
  proof (cases "reqQueueFull ?b \<or> expects_response p \<and> respQueueFull ?b")
    case True
    then have "br_recvTimingReq (bs_now s) p ?b = Inr (False, ?b\<lparr>br_retryReq := True\<rparr>)"
      using en(1) by (auto simp: br_recvTimingReq_def rbind_assert)
    moreover have "bridge_ok (s\<lparr>bs_br := ?b\<lparr>br_retryReq := True\<rparr>\<rparr>)"
      using ok True by (auto simp: bridge_ok_def Let_def reqQueueFull_def respQueueFull_def)
    ultimately show ?thesis by simp
  next
    case False
    let ?b1 = "?b\<lparr>br_outstandingResponses := br_outstandingResponses ?b + of_bool (expects_response p)\<rparr>"
    obtain t b2 where e: "br_clockEdge (bs_now s) (br_delay ?b1) ?b1 = (t, b2)" by fastforce
    have per: "0 < br_period ?b" and q: "queue_ok (bs_now s) (br_reqs ?b) (br_reqEvent ?b) (bs_reqWait s)"
      using ok by (auto simp: bridge_ok_def Let_def)
    obtain c where b2: "b2 = ?b1\<lparr>br_clock := c\<rparr>" "bs_now s \<le> t"
      using br_clockEdge_frame [OF e] per by auto
    have src: "pk_src (no_bus_delay p) \<noteq> InvalidPortID" using en(2) by (simp add: no_bus_delay_def)
    have len: "length (br_reqs b2) \<noteq> br_reqQueueLimit b2" using False b2(1) by (simp add: reqQueueFull_def)
    have q2: "queue_ok (bs_now s) (br_reqs b2) (br_reqEvent b2) (bs_reqWait s)" using q b2(1) by simp
    obtain p1 ev where r: "schedTimingReq (bs_now s) (no_bus_delay p) t b2 =
        Inr (b2\<lparr>br_reqEvent := ev, br_reqs := br_reqs b2 @ [(p1, t)]\<rparr>)"
      "queue_ok (bs_now s) (br_reqs b2 @ [(p1, t)]) ev (bs_reqWait s)"
      "expects_response p1 = expects_response (no_bus_delay p)" "expects_response (no_bus_delay p) \<longrightarrow> tagged p1"
      by (rule schedTimingReq_ok [OF q2 b2(2) src len])
    have "br_recvTimingReq (bs_now s) p ?b = Inr (True, b2\<lparr>br_reqEvent := ev, br_reqs := br_reqs b2 @ [(p1, t)]\<rparr>)"
    proof (cases "expects_response p")
      case True
      then show ?thesis using False en(1) e r(1)
        by (simp add: br_recvTimingReq_def rbind_assert respQueueFull_def)
    next
      case F: False
      have "?b1 = ?b" using F by (cases ?b) simp
      then show ?thesis using False F en(1) e r(1) by (simp add: br_recvTimingReq_def rbind_assert)
    qed
    moreover have "bridge_ok (s\<lparr>bs_br := b2\<lparr>br_reqEvent := ev, br_reqs := br_reqs b2 @ [(p1, t)]\<rparr>\<rparr>)"
      using ok r(2-4) b2(1) False en(1)
      by (auto simp: bridge_ok_def Let_def reqQueueFull_def respQueueFull_def split: if_splits)
    ultimately show ?thesis by simp
  qed
qed

lemma resp_in_ok:
  assumes ok: "bridge_ok s" and "enabled (RespIn i) s"
  shows "\<exists>s'. bridge_do (RespIn i) s = Inr s' \<and> bridge_ok s'"
proof -
  let ?b = "bs_br s" and ?p = "bs_flight s ! i"
  have i: "i < length (bs_flight s)" using assms(2) by simp
  have p: "expects_response ?p" "tagged ?p" using ok i nth_mem by (auto simp: bridge_ok_def Let_def)
  obtain r where r: "makeResponse ?p = Inr r" "pk_senderState r = pk_senderState ?p"
    using p(1) by (auto simp: expects_response_def elim: makeResponse_ok)
  obtain t b2 where e: "br_clockEdge (bs_now s) (br_delay ?b) ?b = (t, b2)" by fastforce
  have per: "0 < br_period ?b" and q: "queue_ok (bs_now s) (br_resps ?b) (br_respEvent ?b) (bs_respWait s)"
    using ok by (auto simp: bridge_ok_def Let_def)
  obtain c where b2: "b2 = ?b\<lparr>br_clock := c\<rparr>" "bs_now s \<le> t"
    using br_clockEdge_frame [OF e] per by auto
  have tag: "tagged (no_bus_delay r)" using p(2) r(2) by (simp add: tagged_def no_bus_delay_def)
  have q2: "queue_ok (bs_now s) (br_resps b2) (br_respEvent b2) (bs_respWait s)" using q b2(1) by simp
  obtain p1 ev where s: "schedTimingResp (bs_now s) (no_bus_delay r) t b2 =
      Inr (b2\<lparr>br_respEvent := ev, br_resps := br_resps b2 @ [(p1, t)]\<rparr>)"
    "queue_ok (bs_now s) (br_resps b2 @ [(p1, t)]) ev (bs_respWait s)"
    by (rule schedTimingResp_ok [OF q2 b2(2) tag])
  let ?s' = "s\<lparr>bs_br := b2\<lparr>br_respEvent := ev, br_resps := br_resps b2 @ [(p1, t)]\<rparr>,
    bs_flight := take i (bs_flight s) @ drop (i + 1) (bs_flight s)\<rparr>"
  have "bridge_do (RespIn i) s = Inr ?s'" using r(1) e s(1) by (simp add: br_recvTimingResp_def)
  moreover have "set (take i (bs_flight s) @ drop (i + 1) (bs_flight s)) \<subseteq> set (bs_flight s)"
    using set_take_subset set_drop_subset by fastforce
  then have "bridge_ok ?s'"
    using ok s(2) b2(1) i by (auto simp: bridge_ok_def Let_def reqQueueFull_def respQueueFull_def)
  ultimately show ?thesis by blast
qed

text \<open>Sending from either queue, by its event or by a retry of the peer.\<close>

lemma send_req_ok:
  assumes ok: "bridge_ok s" and head: "br_reqs (bs_br s) = (p, t) # tail" "t \<le> bs_now s"
    and b: "b = (bs_br s)\<lparr>br_reqEvent := None\<rparr>"
  shows "\<exists>s'. rbind (trySendTimingReq (bs_now s) sent b) (\<lambda>(_, b).
       Inr (s\<lparr>bs_br := b, bs_reqWait := \<not> sent,
              bs_flight := if sent then forward_head (bs_br s) (bs_flight s) else bs_flight s\<rparr>)) = Inr s' \<and> bridge_ok s'"
proof (cases sent)
  case False
  have "trySendTimingReq (bs_now s) False b = Inr (False, b)"
    using head b by (simp add: trySendTimingReq_def rbind_assert)
  moreover have "bridge_ok (s\<lparr>bs_br := b, bs_reqWait := True\<rparr>)"
    using ok head b by (auto simp: bridge_ok_def Let_def queue_ok_def reqQueueFull_def respQueueFull_def)
  ultimately show ?thesis using False by simp
next
  case True
  have per: "0 < br_period b" "br_reqEvent b = None" "br_reqs b = (p, t) # tail"
    using ok head b by (auto simp: bridge_ok_def Let_def)
  obtain c ev where r: "trySendTimingReq (bs_now s) True b =
      Inr (br_retryReq b, b\<lparr>br_clock := c, br_reqs := tail, br_reqEvent := ev, br_retryReq := False\<rparr>)"
    "queue_ok (bs_now s) tail ev False"
    by (rule trySendTimingReq_ok [OF per head(2)])
  let ?s' = "s\<lparr>bs_br := b\<lparr>br_clock := c, br_reqs := tail, br_reqEvent := ev, br_retryReq := False\<rparr>,
    bs_reqWait := False, bs_flight := forward_head (bs_br s) (bs_flight s)\<rparr>"
  have "bridge_ok ?s'"
    using ok r(2) b head by (auto simp: bridge_ok_def Let_def forward_head_def)
  then show ?thesis using True r(1) by simp
qed

lemma send_resp_ok:
  assumes ok: "bridge_ok s" and head: "br_resps (bs_br s) = (p, t) # tail" "t \<le> bs_now s"
    and b: "b = (bs_br s)\<lparr>br_respEvent := None\<rparr>"
  shows "\<exists>s'. rbind (trySendTimingResp (bs_now s) sent b) (\<lambda>(_, b).
       Inr (s\<lparr>bs_br := b, bs_respWait := \<not> sent\<rparr>)) = Inr s' \<and> bridge_ok s'"
proof (cases sent)
  case False
  have "trySendTimingResp (bs_now s) False b = Inr (False, b)"
    using head b by (simp add: trySendTimingResp_def rbind_assert)
  moreover have "bridge_ok (s\<lparr>bs_br := b, bs_respWait := True\<rparr>)"
    using ok head b by (auto simp: bridge_ok_def Let_def queue_ok_def reqQueueFull_def respQueueFull_def)
  ultimately show ?thesis using False by simp
next
  case True
  have per: "0 < br_period b" "br_respEvent b = None" "br_resps b = (p, t) # tail" "br_outstandingResponses b \<noteq> 0"
    using ok head b by (auto simp: bridge_ok_def Let_def)
  obtain c ev where r: "trySendTimingResp (bs_now s) True b =
      Inr (br_retryReq b \<and> \<not> reqQueueFull b,
           b\<lparr>br_clock := c, br_resps := tail, br_outstandingResponses := br_outstandingResponses b - 1,
             br_respEvent := ev, br_retryReq := br_retryReq b \<and> reqQueueFull b\<rparr>)"
    "queue_ok (bs_now s) tail ev False"
    by (rule trySendTimingResp_ok [OF per(1-3) head(2) per(4)])
  let ?s' = "s\<lparr>bs_br := b\<lparr>br_clock := c, br_resps := tail, br_outstandingResponses := br_outstandingResponses b - 1,
             br_respEvent := ev, br_retryReq := br_retryReq b \<and> reqQueueFull b\<rparr>, bs_respWait := False\<rparr>"
  have "bridge_ok ?s'"
    using ok r(2) b head by (auto simp: bridge_ok_def Let_def reqQueueFull_def respQueueFull_def)
  then show ?thesis using True r(1) by simp
qed

lemma fire_head:
  assumes "queue_ok now q (Some now) waiting"
  obtains p t tail where "q = (p, t) # tail" "t \<le> now"
  using assms by (cases q) (auto simp: queue_ok_def)

lemma retry_head:
  assumes "queue_ok now q ev True"
  obtains p t tail where "q = (p, t) # tail" "t \<le> now" "ev = None"
  using assms by (cases q) (auto simp: queue_ok_def)

lemma bridge_queues:
  assumes "bridge_ok s"
  shows "queue_ok (bs_now s) (br_reqs (bs_br s)) (br_reqEvent (bs_br s)) (bs_reqWait s)"
    "queue_ok (bs_now s) (br_resps (bs_br s)) (br_respEvent (bs_br s)) (bs_respWait s)"
  using assms by (simp_all add: bridge_ok_def Let_def)

theorem bridge_do_ok:
  assumes "bridge_ok s" "enabled a s"
  shows "\<exists>s'. bridge_do a s = Inr s' \<and> bridge_ok s'"
proof (cases a)
  case (Advance t)
  then show ?thesis using assms by (auto simp: bridge_ok_def Let_def queue_ok_def)
next
  case (ReqIn p)
  then show ?thesis using req_in_ok assms by blast
next
  case (ReqFire ok)
  then have "queue_ok (bs_now s) (br_reqs (bs_br s)) (Some (bs_now s)) (bs_reqWait s)"
    using bridge_queues(1) [OF assms(1)] assms(2) by simp
  then obtain p t tail where "br_reqs (bs_br s) = (p, t) # tail" "t \<le> bs_now s" by (rule fire_head)
  from send_req_ok [OF assms(1) this refl, of ok] show ?thesis using ReqFire by simp
next
  case (ReqRetry ok)
  then have "queue_ok (bs_now s) (br_reqs (bs_br s)) (br_reqEvent (bs_br s)) True"
    using bridge_queues(1) [OF assms(1)] assms(2) by simp
  then obtain p t tail where h: "br_reqs (bs_br s) = (p, t) # tail" "t \<le> bs_now s" "br_reqEvent (bs_br s) = None"
    by (rule retry_head)
  then have "bs_br s = (bs_br s)\<lparr>br_reqEvent := None\<rparr>" by (cases "bs_br s") simp
  from send_req_ok [OF assms(1) h(1,2) this, of ok] show ?thesis using ReqRetry by simp
next
  case (RespIn i)
  then show ?thesis using resp_in_ok assms by blast
next
  case (RespFire ok)
  then have "queue_ok (bs_now s) (br_resps (bs_br s)) (Some (bs_now s)) (bs_respWait s)"
    using bridge_queues(2) [OF assms(1)] assms(2) by simp
  then obtain p t tail where "br_resps (bs_br s) = (p, t) # tail" "t \<le> bs_now s" by (rule fire_head)
  from send_resp_ok [OF assms(1) this refl, of ok] show ?thesis using RespFire by simp
next
  case (RespRetry ok)
  then have "queue_ok (bs_now s) (br_resps (bs_br s)) (br_respEvent (bs_br s)) True"
    using bridge_queues(2) [OF assms(1)] assms(2) by simp
  then obtain p t tail where h: "br_resps (bs_br s) = (p, t) # tail" "t \<le> bs_now s" "br_respEvent (bs_br s) = None"
    by (rule retry_head)
  then have "bs_br s = (bs_br s)\<lparr>br_respEvent := None\<rparr>" by (cases "bs_br s") simp
  from send_resp_ok [OF assms(1) h(1,2) this, of ok] show ?thesis using RespRetry by simp
qed

lemma bridge_reach_ok:
  assumes "bridge_reach s0 s" "bridge_ok s0"
  shows "bridge_ok s"
  using assms
proof (induction rule: bridge_reach.induct)
  case (reach_step s a s')
  then show ?case using bridge_do_ok [of s a] by auto
qed

text \<open>A stalled requester: some packet will leave the bridge or come back to it.\<close>

lemma stalled_progress:
  assumes "bridge_ok s" "br_retryReq (bs_br s)" "0 < br_reqQueueLimit (bs_br s)" "0 < br_respQueueLimit (bs_br s)"
  shows "br_reqEvent (bs_br s) \<noteq> None \<or> bs_reqWait s \<or> br_respEvent (bs_br s) \<noteq> None \<or> bs_respWait s \<or> bs_flight s \<noteq> []"
proof (cases "br_reqs (bs_br s) = [] \<and> br_resps (bs_br s) = []")
  case True
  then show ?thesis using assms by (auto simp: bridge_ok_def Let_def reqQueueFull_def respQueueFull_def due_def)
next
  case False
  then show ?thesis using bridge_queues [OF assms(1)] by (auto simp: queue_ok_def)
qed

text \<open>The destination of a response is the port the request came from.\<close>

lemma response_destination:
  assumes "0 < br_period b" "schedTimingReq now p t b = Inr b'" "expects_response p" "br_reqs b' = br_reqs b @ [(q, t)]"
    and "makeResponse q = Inr r" "schedTimingResp now' r t' b2 = Inr b3"
  shows "\<exists>r'. br_resps b3 = br_resps b2 @ [(r', t')] \<and> pk_dest r' = pk_src p \<and> pk_senderState r' = pk_senderState p"
proof -
  have q: "q = pushSenderState (BridgeReqState (pk_src p)) p"
    using assms(2-4) by (auto simp: schedTimingReq_def expects_response_def getSrc_def rbind_assert rbind_eq_Inr_iff split: if_splits)
  have "pk_senderState r = BridgeReqState (pk_src p) # pk_senderState p"
    using assms(5) q by (auto simp: makeResponse_def rbind_assert flag_clear_def pushSenderState_def split: if_splits)
  then show ?thesis using assms(6)
    by (auto simp: schedTimingResp_def popSenderState_def rbind_assert rbind_eq_Inr_iff Let_def split: if_splits)
qed

section \<open>A stalled requester is released\<close>

text \<open>
  The work left in the bridge: a request still has to be sent, answered and its response
  returned. Every step in which a peer accepts a packet or answers a request decreases it.
\<close>

definition bridge_work :: "bridge_sys \<Rightarrow> nat" where
  "bridge_work s = 3 * length (br_reqs (bs_br s)) + 2 * length (bs_flight s) + length (br_resps (bs_br s))"

definition serves :: "bridge_action \<Rightarrow> bool" where
  "serves a = (a \<in> {ReqFire True, ReqRetry True, RespFire True, RespRetry True} \<or> (\<exists>i. a = RespIn i))"

lemma trySendTimingReq_sent:
  assumes "trySendTimingReq now True b = Inr (r, b')"
  shows "\<exists>p t rest. br_reqs b = (p, t) # rest \<and> br_reqs b' = rest \<and> br_resps b' = br_resps b \<and>
    br_reqQueueLimit b' = br_reqQueueLimit b \<and> br_respQueueLimit b' = br_respQueueLimit b"
  using assms
  by (auto simp: trySendTimingReq_def rbind_assert retryStalledReq_def br_clockEdge_def rbind_eq_Inr_iff Let_def
      split: list.splits if_split_asm prod.splits)

lemma trySendTimingResp_sent:
  assumes "trySendTimingResp now True b = Inr (r, b')"
  shows "\<exists>p t rest. br_resps b = (p, t) # rest \<and> br_resps b' = rest \<and> br_reqs b' = br_reqs b \<and>
    br_reqQueueLimit b' = br_reqQueueLimit b \<and> br_respQueueLimit b' = br_respQueueLimit b"
  using assms
  by (auto simp: trySendTimingResp_def rbind_assert br_clockEdge_def rbind_eq_Inr_iff Let_def
      split: list.splits if_split_asm prod.splits)

lemma schedTimingResp_frame:
  assumes "schedTimingResp now p t b = Inr b'"
  shows "\<exists>q. br_resps b' = br_resps b @ [(q, t)]" "br_reqs b' = br_reqs b"
    "br_reqQueueLimit b' = br_reqQueueLimit b" "br_respQueueLimit b' = br_respQueueLimit b"
proof -
  obtain x p1 where p: "popSenderState p = Inr (x, p1)"
    using assms by (auto simp: schedTimingResp_def rbind_eq_Inr_iff)
  obtain src where "x = BridgeReqState src" using assms p by (cases x) (simp_all add: schedTimingResp_def)
  then obtain ev q where "b' = b\<lparr>br_respEvent := ev, br_resps := br_resps b @ [(q, t)]\<rparr>"
    using assms p by (auto simp: schedTimingResp_def rbind_eq_Inr_iff Let_def)
  then show "\<exists>q. br_resps b' = br_resps b @ [(q, t)]" "br_reqs b' = br_reqs b"
    "br_reqQueueLimit b' = br_reqQueueLimit b" "br_respQueueLimit b' = br_respQueueLimit b" by simp_all
qed

lemma serves_step:
  assumes "serves a" "enabled a s" "bridge_do a s = Inr s'"
  shows "bridge_work s' < bridge_work s" "br_reqQueueLimit (bs_br s') = br_reqQueueLimit (bs_br s)"
    "br_respQueueLimit (bs_br s') = br_respQueueLimit (bs_br s)"
proof -
  have "bridge_work s' < bridge_work s \<and> br_reqQueueLimit (bs_br s') = br_reqQueueLimit (bs_br s) \<and>
    br_respQueueLimit (bs_br s') = br_respQueueLimit (bs_br s)"
  proof (cases a)
    case (RespIn i)
    obtain t b1 where e: "br_clockEdge (bs_now s) (br_delay (bs_br s)) (bs_br s) = (t, b1)" by fastforce
    then obtain r b2 where "schedTimingResp (bs_now s) r t b1 = Inr b2"
      "s' = s\<lparr>bs_br := b2, bs_flight := take i (bs_flight s) @ drop (i + 1) (bs_flight s)\<rparr>"
      using assms(3) RespIn by (auto simp: br_recvTimingResp_def rbind_eq_Inr_iff)
    then show ?thesis
      using e assms(2) RespIn schedTimingResp_frame [of "bs_now s" r t b1 b2] br_clockEdge_frame(1) [OF e]
      by (auto simp: bridge_work_def)
  qed (use assms in \<open>auto simp: serves_def bridge_work_def forward_head_def rbind_eq_Inr_iff
         dest!: trySendTimingReq_sent trySendTimingResp_sent\<close>)
  then show "bridge_work s' < bridge_work s" "br_reqQueueLimit (bs_br s') = br_reqQueueLimit (bs_br s)"
    "br_respQueueLimit (bs_br s') = br_respQueueLimit (bs_br s)" by simp_all
qed

text \<open>Runs in which time passes and peers accept, without new requests.\<close>

inductive serve_reach :: "bridge_sys \<Rightarrow> bridge_sys \<Rightarrow> bool" where
  serve_refl: "serve_reach s s"
| serve_advance: "enabled (Advance t) s \<Longrightarrow> serve_reach (s\<lparr>bs_now := t\<rparr>) s' \<Longrightarrow> serve_reach s s'"
| serve_step: "serves a \<Longrightarrow> enabled a s \<Longrightarrow> bridge_do a s = Inr s1 \<Longrightarrow> serve_reach s1 s' \<Longrightarrow> serve_reach s s'"

lemma serve_enabled:
  assumes "bridge_ok s" "br_reqs (bs_br s) \<noteq> [] \<or> br_resps (bs_br s) \<noteq> [] \<or> bs_flight s \<noteq> []"
  shows "\<exists>t a. enabled (Advance t) s \<and> serves a \<and> enabled a (s\<lparr>bs_now := t\<rparr>)"
proof -
  let ?b = "bs_br s"
  note Q = bridge_queues [OF assms(1)]
  consider "bs_flight s \<noteq> []" | "bs_reqWait s" | "bs_respWait s"
    | w where "br_reqEvent ?b = Some w" "\<forall>v. br_respEvent ?b = Some v \<longrightarrow> w \<le> v"
    | w where "br_respEvent ?b = Some w" "\<forall>v. br_reqEvent ?b = Some v \<longrightarrow> w \<le> v"
    using assms(2) Q by (cases "br_reqEvent ?b"; cases "br_respEvent ?b") (auto simp: queue_ok_def intro: that dest: linear [THEN disjE])
  then show ?thesis
  proof cases
    case 1
    then show ?thesis using Q by (intro exI [of _ "bs_now s"] exI [of _ "RespIn 0"]) (auto simp: serves_def queue_ok_def)
  next
    case 2
    then show ?thesis using Q by (intro exI [of _ "bs_now s"] exI [of _ "ReqRetry True"]) (auto simp: serves_def queue_ok_def)
  next
    case 3
    then show ?thesis using Q by (intro exI [of _ "bs_now s"] exI [of _ "RespRetry True"]) (auto simp: serves_def queue_ok_def)
  next
    case (4 w)
    then show ?thesis using Q by (intro exI [of _ w] exI [of _ "ReqFire True"]) (auto simp: serves_def queue_ok_def)
  next
    case (5 w)
    then show ?thesis using Q by (intro exI [of _ w] exI [of _ "RespFire True"]) (auto simp: serves_def queue_ok_def)
  qed
qed

lemma stalled_work:
  assumes "bridge_ok s" "br_retryReq (bs_br s)" "0 < br_reqQueueLimit (bs_br s)" "0 < br_respQueueLimit (bs_br s)"
  shows "br_reqs (bs_br s) \<noteq> [] \<or> br_resps (bs_br s) \<noteq> [] \<or> bs_flight s \<noteq> []"
  using assms by (auto simp: bridge_ok_def Let_def reqQueueFull_def respQueueFull_def due_def)

theorem stalled_released_aux:
  assumes "bridge_ok s" "0 < br_reqQueueLimit (bs_br s)" "0 < br_respQueueLimit (bs_br s)"
  shows "\<exists>s'. serve_reach s s' \<and> bridge_ok s' \<and> \<not> br_retryReq (bs_br s')"
  using assms
proof (induction "bridge_work s" arbitrary: s rule: less_induct)
  case less
  show ?case
  proof (cases "br_retryReq (bs_br s)")
    case False
    then show ?thesis using less.prems(1) serve_refl by blast
  next
    case True
    obtain t a where e: "enabled (Advance t) s" "serves a" "enabled a (s\<lparr>bs_now := t\<rparr>)"
      using serve_enabled [OF less.prems(1) stalled_work [OF less.prems(1) True less.prems(2,3)]] by blast
    have ok1: "bridge_ok (s\<lparr>bs_now := t\<rparr>)" using bridge_do_ok [OF less.prems(1) e(1)] by simp
    obtain s1 where s1: "bridge_do a (s\<lparr>bs_now := t\<rparr>) = Inr s1" "bridge_ok s1"
      using bridge_do_ok [OF ok1 e(3)] by blast
    have "bridge_work (s\<lparr>bs_now := t\<rparr>) = bridge_work s" by (simp add: bridge_work_def)
    then have "bridge_work s1 < bridge_work s" using serves_step(1) [OF e(2,3) s1(1)] by simp
    then obtain s' where "serve_reach s1 s'" "bridge_ok s'" "\<not> br_retryReq (bs_br s')"
      using less.hyps [OF _ s1(2)] serves_step(2,3) [OF e(2,3) s1(1)] less.prems(2,3) by auto
    then show ?thesis using serve_advance [OF e(1) serve_step [OF e(2,3) s1(1)]] by blast
  qed
qed

end
