(* ===== verification/Spec2Isabelle.thy ===== *)
theory Spec2Isabelle
  imports Guest_Memory Lru_Tags Mshr_Queue Dram_Runs Bridge
begin

unbundle bit_operations_syntax

text \<open>
  \<^bold>\<open>Verification development of PARD on gem5.\<close>

  PARD divides one server into logical domains (also called guests). Every memory request
  carries a QoS tag that names its domain; the hypervisor-side models under
  \<^verbatim>\<open>src/pardg5-v/hyper\<close> and the patched simulator under \<^verbatim>\<open>src/gem5-pard/src\<close> use the tag to
  relocate addresses, to partition the shared cache by way masks, to pick DRAM row buffers and
  priorities, and to count per-domain statistics. A control-plane network lets the global manager
  read and write the parameters of each of these resources. The development models these parts and
  the pieces of the simulator they stand on as HOL functions and proves them correct.

  \<^bold>\<open>How the parts interact.\<close> A request is a packet (Packet). On its way to memory it may cross a
  bus bridge (Bridge), is looked up in the shared cache (Lru\_Tags), is relocated by the
  address mapper (Addr\_Mapper) with the translation table (LDom\_Addr), and is queued, served and
  answered by the memory controller (Dram\_Queues and Dram\_Access, on Dram\_Ctrl), which is also the memory (Abstract\_Mem) and
  sends its answers through a packet queue (Packet\_Queue). The cache and the memory controller are managed resources:
  a connector (Cp\_Network) executes get and set commands on them. Statistics and triggers of the
  control planes are in Control\_Plane. Components act when the event queue (Event\_Queue,
  Event\_Timers) serves their events, on edges of their clock (Clocked\_Object).

  \<^bold>\<open>Theories.\<close>
    \<^item> Pard\_Prelude: results (\<^verbatim>\<open>Inl\<close> an assertion failure, panic, fatal error or invalid access,
      \<^verbatim>\<open>Inr\<close> a value), checked vector access, byte strings, and general lemmas.
    \<^item> Bits\_Intmath: \<^verbatim>\<open>base/bitfield.hh\<close>, \<^verbatim>\<open>base/bitfield.cc\<close>, \<^verbatim>\<open>base/intmath.hh\<close>: bit fields and
      integer logarithms, powers and rounding, on words of their real width.
    \<^item> Guest\_Addr: \<^verbatim>\<open>hyper/base/guest_addr_range.hh\<close> and the tag macros.
    \<^item> LDom\_Addr: \<^verbatim>\<open>hyper/base/ldom_addr.hh\<close>, the table \<^verbatim>\<open>LDomAddrTLB\<close>.
    \<^item> Control\_Plane: \<^verbatim>\<open>StatsTable\<close> and \<^verbatim>\<open>TriggerTable\<close>.
    \<^item> Packet: \<^verbatim>\<open>mem/packet.hh\<close> and \<^verbatim>\<open>mem/packet.cc\<close>: the command table, packet flags, sender
      states, responses, labels and functional accesses.
    \<^item> Cp\_Network: \<^verbatim>\<open>hyper/gm/CPConnector.cc\<close>, \<^verbatim>\<open>hyper/gm/CPAdaptor.cc\<close>. The locale
      \<open>managed_resource\<close> states what a resource promises and proves the command protocol once; it
      is interpreted on the memory controller (\<open>dram_mr\<close>) and on the cache (\<open>lru_mr\<close>).
    \<^item> Dram\_Ctrl: \<^verbatim>\<open>hyper/mem/dram_ctrl.cc\<close> and the domain-aware parts of \<^verbatim>\<open>mem/dram_ctrl.cc\<close>.
    \<^item> Packet\_Queue: \<^verbatim>\<open>mem/packet_queue.cc\<close>, as a step system with an invariant by rule induction.
    \<^item> Abstract\_Mem: \<^verbatim>\<open>mem/abstract_mem.cc\<close>: the bytes of memory, reservations, swaps and
      functional accesses. Guest\_Memory composes it with the address mapper; the locale \<open>domain_windows\<close>
      extends \<open>domain_remap\<close> to ranges of bytes and is interpreted on the table (\<open>ramw\<close>).
    \<^item> Dram\_Queues: the request side of \<^verbatim>\<open>mem/dram_ctrl.cc\<close>: bursts, the read, write and response
      queues, burst helpers, statistics and the port handlers. Dram\_Bursts shows how packets are split and writes merged,
      Dram\_Answers the invariant of the queues.
    \<^item> Dram\_Access: the device side of \<^verbatim>\<open>mem/dram_ctrl.cc\<close>: bursts on the bus, the request loop, refresh, power states,
      the constructor and start-up. Dram\_Runs puts both sides together as a step system: the controller with its port,
      from the constructor on, up to the point where a refresh waits for the power state machine.
    \<^item> Cache\_Blk, Cache\_Set, Lru\_Tags: \<^verbatim>\<open>hyper/mem/cache/blk.hh\<close>, \<^verbatim>\<open>tags/cacheset.cc\<close>,
      \<^verbatim>\<open>tags/base.cc\<close> and \<^verbatim>\<open>tags/lru.cc\<close>. The locale \<open>recency_order\<close> describes a replacement order and
      is interpreted on the sets of the cache (\<open>cset\<close>).
    \<^item> Mshr, Mshr\_Queue: \<^verbatim>\<open>hyper/mem/cache/mshr.cc\<close> and \<^verbatim>\<open>mshr_queue.cc\<close>. All registers of a system are one list,
      a pointer to a register is its index, and the registers reached through the sender states of
      packets are those of other caches.
    \<^item> Addr\_Mapper: \<^verbatim>\<open>hyper/mem/addr_mapper.cc\<close>. The locale \<open>domain_remap\<close> says what isolation
      needs of a relocation function; it is interpreted on the translation table (\<open>ram\<close>).
    \<^item> Event\_Queue, Event\_Timers: \<^verbatim>\<open>sim/eventq.cc\<close>, \<^verbatim>\<open>sim/eventq.hh\<close>, \<^verbatim>\<open>sim/eventq_impl.hh\<close>. Events live in a
      store indexed by natural numbers, which stand for their addresses; the linked bins are modelled
      pointer by pointer. The locale \<open>timer_queue\<close> abstracts the queue to a set of timers and
      is interpreted on it (\<open>evq\<close>).
    \<^item> Clocked\_Object: \<^verbatim>\<open>sim/clocked_object.hh\<close>.
    \<^item> Bridge: \<^verbatim>\<open>hyper/mem/bridge.cc\<close>, with its two send events as timers, as a step system
      with an invariant proved by rule induction.

  \<^bold>\<open>State and errors.\<close> A class is a record, a method a function from the record (and its
  arguments) to a result and the updated record. Pointers into a vector are indices. A failed
  \<^verbatim>\<open>assert\<close>, a \<^verbatim>\<open>panic\<close>, a \<^verbatim>\<open>fatal\<close> and an out-of-range access are the values \<open>AssertFail\<close>,
  \<open>Panic\<close>, \<open>Fatal\<close> and \<open>BadAccess\<close> on the left of the result type. Addresses, masks, tags and counters are
  words where the code depends on their width; ticks and sizes are natural numbers. Peer ports, the
  processing of an event and uninitialised memory are arguments.

  \<^bold>\<open>What the theorems show.\<close> Domains are isolated: a guest sees only its own writes in memory
  (\<open>guest_memory_private\<close>, \<open>mapper_requests_isolated\<close>), fills stay in the ways of the domain
  (\<open>waymask_isolation\<close>, \<open>programmed_waymask\<close>) and row buffers and parameters are separate (\<open>row_buffer_isolation\<close>,
  \<open>dram_parameter_isolation\<close>). The memory controller accepts requests exactly when they fit, covers the bytes
  written, and owes one answer per read (\<open>write_queue_exact\<close>, \<open>read_owed_once\<close>, \<open>bursts_cover_packet\<close>). In every run
  from a constructed controller no answer is lost or duplicated and no assertion fails, a turn of the request loop
  serves a burst, bursts do not overlap on the bus, and a refresh finds all rows closed
  (\<open>controller_conserves_answers\<close>, \<open>controller_never_fails\<close>, \<open>request_loop_serves\<close>, \<open>bursts_share_bus\<close>,
  \<open>refresh_closes_rows\<close>, \<open>constructed_controller_runs\<close>). Packet queues and the bridge lose nothing, fail no assertion and
  make progress; miss registers keep their targets in order; the cache finds what was inserted and evicts the least
  recently used allowed block; the event queue keeps its order, refines timers and its service loop ends. The
  remaining claims are on reordering, address decoding, reservations, triggers, address ranges and refused requests.

  \<^bold>\<open>Loops.\<close> Loops over lists and vectors are structural recursion. The pointer walks and the
  service loop of the event queue are \<^verbatim>\<open>partial_function (option)\<close>; the lemmas on them show that
  they return on well-formed queues. No definition uses fuel.

  \<^bold>\<open>Not modelled.\<close> Debug output and statistics registration, serialisation, the Python
  configuration, the processor models, instruction sets, Ruby and networks of gem5, the PCI, IDE and
  network devices, the sockets of the global manager, and the coherence protocol of the cache
  controller. The power state machine of the memory controller is modelled event by event, but the runs of Dram\_Runs
  do not include its events: that a power event is never scheduled twice depends on relations between the timing
  parameters that the constructor does not check.
\<close>

section \<open>Small configurations for the witnesses\<close>

definition demo_req :: "addr \<Rightarrow> nat \<Rightarrow> u64 \<Rightarrow> request" where
  "demo_req a n tag =
     \<lparr>rq_paddr = a, rq_size = n, rq_secure = False, rq_qosTag = Some tag, rq_uncacheable = False,
      rq_llsc = False, rq_condSwap = False, rq_instFetch = False, rq_contextId = 0, rq_masterId = 1, rq_taskId = TASK_UNKNOWN, rq_extraData = None\<rparr>"

definition demo_read :: "addr \<Rightarrow> u64 \<Rightarrow> packet" where
  "demo_read a tag = (mk_packet (demo_req a 4 tag) ReadReq)\<lparr>pk_src := 3\<rparr>"

definition demo_tlb :: ldom_tlb where
  "demo_tlb = [LDomAddrTLBEntry 1 0 0x1000 0x10000, LDomAddrTLBEntry 2 0 0x1000 0x20000]"

definition demo_mapper :: addr_mapper where
  "demo_mapper = am_regStats \<lparr>am_pendingDelete = [], am_bytesRead = [], am_bytesWritten = []\<rparr>"

lemma demo_tlb_wf: "tlb_wf demo_tlb" "tlb_covers demo_tlb 1 0x10" "tlb_covers demo_tlb 2 0x10"
  by (simp_all add: demo_tlb_def LDomAddrTLBEntry_def le_wf_def entries_disjoint_def windows_disjoint_def
        tlb_covers_def le_contains_def)

lemma demo_read_simps [simp]:
  "pk_addr (demo_read a t) = a" "pk_cmd (demo_read a t) = ReadReq" "pk_size (demo_read a t) = 4"
  "pk_senderState (demo_read a t) = []" "pk_src (demo_read a t) = 3" "pk_req (demo_read a t) = demo_req a 4 t"
  "pk_isSecure (demo_read a t) = False"
  "\<not> memInhibitAsserted (demo_read a t)" "\<not> isExpressSnoop (demo_read a t)"
  "flag_isSet (demo_read a t) VALID_ADDR" "flag_isSet (demo_read a t) VALID_SIZE"
  "PARDG5V_PKT_TO_GUESTID (demo_read a t) = Inr (QOSTAG_TO_GUESTID t)"
  "getQosTag (demo_read a t) = Inr t"
  by (simp_all add: demo_read_def mk_packet_def demo_req_def memInhibitAsserted_def isExpressSnoop_def flag_isSet_def
      PARDG5V_PKT_TO_GUESTID_def QOSTAG_TO_GUESTID_def getQosTag_def packet_flag_defs sim_assert_def)

lemma demo_timing_request:
  assumes "unat (QOSTAG_TO_GUESTID t) < 4"
  shows "\<exists>m1. am_recvTimingReq remap (\<lambda>q. (True, q)) (demo_read a t) demo_mapper =
    Inr (True, am_forwarded remap (QOSTAG_TO_GUESTID t) (demo_read a t), m1)"
  using assms
  by (auto simp: am_recvTimingReq_def am_forwarded_def am_remap_def am_account_def getAddr_def setAddr_def getSize_def
      stat_add_def demo_mapper_def am_regStats_def ReadReq_attribs rbind_assert pushSenderState_def)

section \<open>Isolation of logical domains\<close>

text \<open>
  C2. Isolation of memory requests. When the translation table of the range address mapper is
  well formed, two accepted timing requests that differ in guest or in address, both covered by
  the table, are forwarded to different physical addresses: no domain can reach memory of
  another one through the mapper.
\<close>

theorem mapper_requests_isolated:
  assumes "tlb_wf tlb" "\<not> memInhibitAsserted p" "\<not> memInhibitAsserted q"
    and "am_recvTimingReq (ram_remapAddr tlb) (\<lambda>x. (True, x)) p m = Inr (True, p1, m1)"
    and "am_recvTimingReq (ram_remapAddr tlb) (\<lambda>x. (True, x)) q n = Inr (True, q1, n1)"
    and "PARDG5V_PKT_TO_GUESTID p = Inr g" "PARDG5V_PKT_TO_GUESTID q = Inr h"
    and "tlb_covers tlb g (pk_addr p)" "tlb_covers tlb h (pk_addr q)"
    and "(g, pk_addr p) \<noteq> (h, pk_addr q)"
  shows "pk_addr p1 \<noteq> pk_addr q1"
  using ram.requests_isolated [OF assms(1-9)] assms(10) by blast

theorem mapper_requests_isolated_witness:
  "\<exists>p1 m1 q1 n1.
     am_recvTimingReq (ram_remapAddr demo_tlb) (\<lambda>x. (True, x)) (demo_read 0x10 1) demo_mapper = Inr (True, p1, m1) \<and>
     am_recvTimingReq (ram_remapAddr demo_tlb) (\<lambda>x. (True, x)) (demo_read 0x10 2) demo_mapper = Inr (True, q1, n1) \<and>
     pk_addr p1 \<noteq> pk_addr q1"
proof -
  have g: "QOSTAG_TO_GUESTID 1 = 1" "QOSTAG_TO_GUESTID 2 = 2" by (simp_all add: QOSTAG_TO_GUESTID_def)
  obtain m1 where m: "am_recvTimingReq (ram_remapAddr demo_tlb) (\<lambda>x. (True, x)) (demo_read 0x10 1) demo_mapper =
      Inr (True, am_forwarded (ram_remapAddr demo_tlb) 1 (demo_read 0x10 1), m1)"
    using demo_timing_request [of 1] g by auto
  obtain n1 where n: "am_recvTimingReq (ram_remapAddr demo_tlb) (\<lambda>x. (True, x)) (demo_read 0x10 2) demo_mapper =
      Inr (True, am_forwarded (ram_remapAddr demo_tlb) 2 (demo_read 0x10 2), n1)"
    using demo_timing_request [of 2] g by auto
  from mapper_requests_isolated [OF demo_tlb_wf(1) _ _ m n] demo_tlb_wf(2,3) g m n show ?thesis by auto
qed

text \<open>
  C10. The mapper is transparent. A timing request that the mapper forwards and its peer answers
  comes back to the requester with its original address, with the sender state it was sent
  with, and with the response command of its own command.
\<close>

theorem mapper_timing_roundtrip:
  assumes "am_recvTimingReq remap (\<lambda>q. (True, q)) p m = Inr (True, p1, m1)"
    and "\<not> memInhibitAsserted p" "needsResponse (pk_cmd p)" "makeResponse p1 = Inr p2"
  shows "\<exists>p3. am_recvTimingResp (\<lambda>q. (True, q)) p2 = Inr (True, p3) \<and> pk_addr p3 = pk_addr p \<and>
    pk_senderState p3 = pk_senderState p \<and> pk_cmd p3 = responseCommand (pk_cmd p)"
  by (rule am_timing_roundtrip [OF assms])

theorem mapper_timing_roundtrip_witness:
  "\<exists>p1 m1 p2 p3. am_recvTimingReq (ram_remapAddr demo_tlb) (\<lambda>q. (True, q)) (demo_read 0x10 2) demo_mapper = Inr (True, p1, m1) \<and>
     makeResponse p1 = Inr p2 \<and> am_recvTimingResp (\<lambda>q. (True, q)) p2 = Inr (True, p3) \<and> pk_addr p3 = 0x10"
proof -
  obtain p1 m1 where r: "am_recvTimingReq (ram_remapAddr demo_tlb) (\<lambda>q. (True, q)) (demo_read 0x10 2) demo_mapper = Inr (True, p1, m1)"
    "needsResponse (pk_cmd p1)"
    using demo_timing_request [of 2 "ram_remapAddr demo_tlb" "0x10"]
    by (auto simp: QOSTAG_TO_GUESTID_def am_forwarded_def ReadReq_attribs pushSenderState_def)
  obtain p2 where p2: "makeResponse p1 = Inr p2" using makeResponse_ok [OF r(2)] by blast
  from mapper_timing_roundtrip [OF r(1) _ _ p2] r(1) p2 show ?thesis by (fastforce simp: ReadReq_attribs)
qed

text \<open>
  A cache of one set with two ways, as its constructor leaves it and after guest 2 has filled
  the second way. Guests 0 and 1 may use the first way, guest 2 the second.
\<close>

definition demo_lru0 :: lru where
  "demo_lru0 =
     \<lparr>lr_geom = \<lparr>lg_blkSize = 4, lg_assoc = 2, lg_numSets = 1, lg_hitLatency = 1, lg_sequentialAccess = False,
        lg_setShift = 2, lg_tagShift = 2, lg_setMask = 0, lg_blkMask = 3, lg_maxMasters = 4, lg_warmupBound = 2\<rparr>,
      lr_waymasks = [1, 1, 2], lr_sets = [[0, 1]], lr_blks = [init_blk 4 2 0, init_blk 4 2 1],
      lr_stats = \<lparr>ts_warmedUp = False, ts_warmupCycle = 0, ts_tagsInUse = 0, ts_replacements = 0, ts_totalRefs = 0,
        ts_sampledRefs = 0, ts_occupancies = replicate 4 0, ts_tagAccesses = 0, ts_dataAccesses = 0,
        ts_occupanciesTaskId = replicate NumTaskId 0, ts_ageTaskId = replicate NumTaskId (replicate 5 0),
        ts_guestCapacity = replicate 4 0\<rparr>\<rparr>"

definition demo_lru :: lru where
  "demo_lru = upd_blk 1 (\<lambda>b. b\<lparr>cb_tag := 4, cb_status := BlkValid, cb_qosTag := 2, cb_srcMasterId := 1\<rparr>) demo_lru0"

lemma demo_lru0_constructed: "LRU 8 4 2 1 False [1, 1, 2] 4 4 = Inr demo_lru0"
proof -
  have log: "floorLog2 4 = Inr 2" "floorLog2 1 = Inr 0"
    using floorLog2_exp [of 2] floorLog2_exp [of 0] by simp_all
  have "isPowerOf2 (4 :: u64)" "isPowerOf2 (1 :: u64)" by (simp_all add: isPowerOf2_def leastSigBit_def)
  with log show ?thesis
    by (simp add: LRU_def demo_lru0_def Let_def upt_rec)
qed

lemma demo_lru_inv: "lru_inv demo_lru"
proof -
  have "lru_inv demo_lru0" by (rule LRU_inv [OF demo_lru0_constructed]) simp_all
  then show ?thesis unfolding demo_lru_def
    by (rule upd_blk_inv) (auto simp: blk_ok_def demo_lru0_def init_blk_ok)
qed

lemma demo_lru_fields:
  "lr_waymasks demo_lru = [1, 1, 2]" "lr_sets demo_lru = [[0, 1]]" "lg_assoc (lr_geom demo_lru) = 2"
  "lg_maxMasters (lr_geom demo_lru) = 4" "extractSet (lr_geom demo_lru) a = 0" "extractTag (lr_geom demo_lru) a = drop_bit 2 a"
  "length (lr_blks demo_lru) = 2" "set_blocks (lr_geom demo_lru) 0 = {0, 1}"
  by (auto simp: demo_lru_def demo_lru0_def extractSet_def extractTag_def set_blocks_def)

lemma demo_lru_blks:
  "cb_way (lr_blks demo_lru ! 0) = 0" "cb_way (lr_blks demo_lru ! 1) = 1" "\<not> blk_isValid (lr_blks demo_lru ! 0)"
  "\<not> blk_isSecure (lr_blks demo_lru ! 0)"
  "blk_matches 2 4 False (lr_blks demo_lru ! 1)"
proof -
  show "cb_way (lr_blks demo_lru ! 0) = 0" "cb_way (lr_blks demo_lru ! 1) = 1" "\<not> blk_isValid (lr_blks demo_lru ! 0)"
    by (simp_all add: demo_lru_def demo_lru0_def upd_blk_def init_blk_ok)
  show "\<not> blk_isSecure (lr_blks demo_lru ! 0)"
    by (simp add: demo_lru_def demo_lru0_def upd_blk_def init_blk_def blk_isSecure_def blk_invalidate_def clearLoadLocks_def)
  show "blk_matches 2 4 False (lr_blks demo_lru ! 1)"
    by (simp add: demo_lru_def demo_lru0_def upd_blk_def blk_matches_def blk_isValid_def blk_isSecure_def
        blk_getGuestID_def QOSTAG_TO_GUESTID_def blk_status_defs)
qed

lemma demo_mask_ways: "mask_ways demo_lru 0 = {0}" "mask_ways demo_lru 1 = {0}" "mask_ways demo_lru 2 = {1}"
proof -
  have two: "w < 2 \<longleftrightarrow> w = 0 \<or> w = 1" for w :: nat by auto
  show "mask_ways demo_lru 0 = {0}" "mask_ways demo_lru 1 = {0}" "mask_ways demo_lru 2 = {1}"
    by (auto simp: mask_ways_def demo_lru_fields two bit_simps)
qed

lemma demo_find: "findBlock demo_lru 2 0x10 False = Inr (Some 1)"
proof -
  have "\<not> blk_matches 2 4 False (lr_blks demo_lru ! 0)" using demo_lru_blks(3) by (simp add: blk_matches_def)
  then show ?thesis
    using demo_lru_blks(5) by (simp add: findBlock_def get_set_def demo_lru_fields findBlk_find)
qed

lemma demo_victim: "findVictim demo_lru 1 0x10 = Inr 0"
  using findVictim_ok [OF demo_lru_inv, of 1 "0x10"] demo_lru_blks(1,2)
  by (auto simp: demo_lru_fields demo_mask_ways)

lemma demo_insert_pre: "insert_pre demo_lru (demo_read 0x10 1) 0"
  using demo_lru_blks(3,4) by (simp add: insert_pre_def demo_lru_fields clean_blk_def demo_req_def)

text \<open>
  C3. Way partitioning isolates cached data. When the way masks of two guests are disjoint, a
  fill on behalf of one guest, with the victim \<^verbatim>\<open>findVictim\<close> chooses, leaves every block the
  other guest holds in its own ways in the cache, with its contents unchanged.
\<close>

theorem waymask_isolation:
  assumes "lru_inv l" "findBlock l g' a' sec = Inr (Some k)" "cb_way (lr_blks l ! k) \<in> mask_ways l g'"
    and "mask_ways l g \<inter> mask_ways l g' = {}" "mask_ways l g \<noteq> {}" "unat g < length (lr_waymasks l)"
    and "lg_assoc (lr_geom l) \<le> 31" "findVictim l g (pk_addr pkt) = Inr v" "take_bit 8 g \<noteq> g'"
    and "insert_pre l pkt v" "insertBlock now l g pkt v = Inr l'"
  shows "findBlock l' g' a' sec = Inr (Some k) \<and> lr_blks l' ! k = lr_blks l ! k"
  using fill_preserves_other [OF assms(1,2) waymask_isolation_aux [OF assms(1-8)] assms(10,11,9)] .

theorem waymask_isolation_witness:
  "\<exists>l'. insertBlock 7 demo_lru 1 (demo_read 0x10 1) 0 = Inr l' \<and> findBlock l' 2 0x10 False = Inr (Some 1)"
proof -
  obtain l' where l: "insertBlock 7 demo_lru 1 (demo_read 0x10 1) 0 = Inr l'"
    using insertBlock_ok [OF demo_lru_inv demo_insert_pre, of 7 1] by blast
  have "findBlock l' 2 0x10 False = Inr (Some 1) \<and> lr_blks l' ! 1 = lr_blks demo_lru ! 1"
    by (rule waymask_isolation [OF demo_lru_inv demo_find _ _ _ _ _ _ _ demo_insert_pre l])
       (use demo_victim demo_lru_blks(2) in \<open>simp_all add: demo_mask_ways demo_lru_fields\<close>)
  then show ?thesis using l by blast
qed

text \<open>
  C9. A way mask programmed over the control-plane network confines replacement. After the
  connector of a cache executes a \<^verbatim>\<open>S\<close>(et) command on address 0 with a mask that names at least one way, the
  victims of the addressed domain come from exactly the ways of the new mask, least recently
  used first, and the masks of all other domains are unchanged.
\<close>

theorem programmed_waymask:
  assumes "cpc_wf c" "cpCmd c = 0x53" "cc_resource c = Some l" "lru_inv l" "cpDestAddr c = 0"
    and "unat (cpLDomID c) < length (lr_waymasks l)" "w < lg_assoc (lr_geom l)" "bit (cpData c) w"
    and "lg_assoc (lr_geom l) \<le> 31"
  shows "\<exists>l' v. cpc_command (lru_get now) lru_set c = Inr (c\<lparr>cc_resource := Some l'\<rparr>) \<and>
    findVictim l' (cpLDomID c) a = Inr v \<and> bit (cpData c) (cb_way (lr_blks l' ! v)) \<and>
    (\<forall>d. d \<noteq> cpLDomID c \<longrightarrow> unat d < length (lr_waymasks l) \<longrightarrow> lr_waymasks l' ! unat d = lr_waymasks l ! unat d)"
proof -
  let ?d = "cpLDomID c"
  have "lru_param l ?d (cpDestAddr c)" using assms(5,6) by (simp add: lru_param_def)
  from lru_mr.command_set [OF assms(1-4) this, of now] obtain l' where l':
    "cpc_command (lru_get now) lru_set c = Inr (c\<lparr>cc_resource := Some l'\<rparr>)" "lru_inv l'"
    "lru_param l' ?d (cpDestAddr c)" "lru_peek l' ?d (cpDestAddr c) = cpData c"
    "\<forall>d' a'. lru_param l d' a' \<longrightarrow> d' \<noteq> ?d \<longrightarrow> lru_peek l' d' a' = lru_peek l d' a'" by blast
  obtain ws where ws: "c\<lparr>cc_resource := Some (l\<lparr>lr_waymasks := ws\<rparr>)\<rparr> = c\<lparr>cc_resource := Some l'\<rparr>"
    using l'(1) assms(2,3,5) by (auto simp: cpc_command_def lru_set_def rbind_eq_Inr_iff)
  have geom: "lr_geom l' = lr_geom l" using arg_cong [OF ws, of cc_resource] by auto
  have "w \<in> mask_ways l' ?d" using l'(4) assms(7,8) geom by (simp add: mask_ways_def lru_peek_def)
  then obtain v where "findVictim l' ?d a = Inr v" "cb_way (lr_blks l' ! v) \<in> mask_ways l' ?d"
    using findVictim_ok [OF l'(2), of ?d a] l'(3) assms(9) geom by (auto simp: lru_param_def)
  then show ?thesis using l'(1,4,5) by (auto simp: mask_ways_def lru_peek_def lru_param_def)
qed

definition demo_connector :: "u16 \<Rightarrow> u32 \<Rightarrow> u64 \<Rightarrow> 'r \<Rightarrow> 'r cp_connector" where
  "demo_connector d a v r =
     \<lparr>cc_devID = 0, cc_regs = replicate 16 0 @ [0x53, 0] @ le_bytes 2 d @ le_bytes 4 a @ le_bytes 8 v,
      cc_resource = Some r\<rparr>"

lemma demo_connector_fields:
  "cpc_wf (demo_connector d a v r)" "cpCmd (demo_connector d a v r) = 0x53" "cpLDomID (demo_connector d a v r) = d"
  "cpDestAddr (demo_connector d a v r) = a" "cpData (demo_connector d a v r) = v" "cc_resource (demo_connector d a v r) = Some r"
  by (simp_all add: demo_connector_def cpc_wf_def cpCmd_def cpLDomID_def cpDestAddr_def cpData_def nth_append le_word_bytes)

theorem programmed_waymask_witness:
  "\<exists>l' v. cpc_command (lru_get 5) lru_set (demo_connector 1 0 2 demo_lru) =
      Inr (demo_connector 1 0 2 demo_lru\<lparr>cc_resource := Some l'\<rparr>) \<and>
    findVictim l' 1 0x10 = Inr v \<and> bit (2 :: u64) (cb_way (lr_blks l' ! v))"
  using programmed_waymask [of "demo_connector 1 0 2 demo_lru" demo_lru 1 5 "0x10"] demo_lru_inv
  by (auto simp: demo_connector_fields demo_lru_fields bit_simps)

section \<open>The shared cache\<close>

text \<open>
  C22. Cache accesses are total and keep the cache well formed. On a well-formed cache
  \<^verbatim>\<open>accessBlock\<close> never fails an assertion; it finds exactly the block \<^verbatim>\<open>findBlock\<close> finds, leaves
  the replacement order alone on a miss and makes the block the most recently used one on a hit.
\<close>

theorem cache_access:
  assumes "lru_inv l"
  shows "\<exists>l' r lat. accessBlock t2c now l guest a sec = Inr (l', r, lat) \<and> lru_inv l' \<and>
    findBlock l guest a sec = Inr r \<and> (r = None \<longrightarrow> lr_sets l' = lr_sets l) \<and>
    (\<forall>b. r = Some b \<longrightarrow> hd (lr_sets l' ! extractSet (lr_geom l) a) = b)"
  by (rule accessBlock_ok [OF assms])

theorem cache_access_witness:
  "\<exists>l' lat. accessBlock (\<lambda>t. t) 9 demo_lru 2 0x10 False = Inr (l', Some 1, lat) \<and> hd (lr_sets l' ! 0) = 1"
  using cache_access [OF demo_lru_inv, of "\<lambda>t. t" 9 2 "0x10" False] by (auto simp: demo_find demo_lru_fields)

text \<open>
  C21. The victim is the least recently used block the way mask allows. \<^verbatim>\<open>findVictim\<close> returns a
  block of the right set whose way is in the mask of the guest, and every block further back in
  the replacement order is in a way the guest may not use.
\<close>

theorem victim_least_recent:
  assumes "lru_inv l" "unat guest < length (lr_waymasks l)" "lg_assoc (lr_geom l) \<le> 31" "mask_ways l guest \<noteq> {}"
  shows "\<exists>v. findVictim l guest a = Inr v \<and> v \<in> set_blocks (lr_geom l) (extractSet (lr_geom l) a) \<and>
    cb_way (lr_blks l ! v) \<in> mask_ways l guest \<and>
    (\<exists>as bs. lr_sets l ! extractSet (lr_geom l) a = as @ v # bs \<and>
       (\<forall>p \<in> set bs. cb_way (lr_blks l ! p) \<notin> mask_ways l guest))"
  by (rule findVictim_ok [OF assms])

theorem victim_least_recent_witness:
  "\<exists>v. findVictim demo_lru 2 0x20 = Inr v \<and> cb_way (lr_blks demo_lru ! v) = 1"
  using victim_least_recent [OF demo_lru_inv, of 2 "0x20"] by (auto simp: demo_lru_fields demo_mask_ways)

text \<open>
  C23. What is inserted is found. After \<^verbatim>\<open>insertBlock\<close> and the setting of the valid bit that
  follows it, \<^verbatim>\<open>findBlock\<close> for the same guest, address and security state returns the block.
\<close>

theorem cache_insert_find:
  assumes "lru_inv l" "insert_pre l pkt v" "insertBlock now l g pkt v = Inr l'" "g < 256"
  shows "findBlock (upd_blk v (\<lambda>b. b\<lparr>cb_status := cb_status b OR BlkValid\<rparr>) l') g (pk_addr pkt) (pk_isSecure pkt) =
    Inr (Some v)"
  by (rule insert_then_find [OF assms])

theorem cache_insert_find_witness:
  "\<exists>l'. insertBlock 7 demo_lru 1 (demo_read 0x10 1) 0 = Inr l' \<and>
     findBlock (upd_blk 0 (\<lambda>b. b\<lparr>cb_status := cb_status b OR BlkValid\<rparr>) l') 1 0x10 False = Inr (Some 0)"
proof -
  obtain l' where "insertBlock 7 demo_lru 1 (demo_read 0x10 1) 0 = Inr l'"
    using insertBlock_ok [OF demo_lru_inv demo_insert_pre, of 7 1] by blast
  with cache_insert_find [OF demo_lru_inv demo_insert_pre this] show ?thesis by auto
qed

text \<open>
  Construction establishes the invariant of the cache: every set holds exactly its own
  blocks once, and every block knows its set and its way.
\<close>

lemma cache_constructed:
  assumes "LRU sz bs assoc lat sq wm mm ng = Inr l" "bs < 2 ^ 31" "sz < 2 ^ 31"
  shows "lru_inv l"
  by (rule LRU_inv [OF assms])

lemma cache_constructed_example: "LRU 8 4 2 1 False [1, 1, 2] 4 4 = Inr demo_lru0 \<and> lru_inv demo_lru0"
  using cache_constructed [OF demo_lru0_constructed] demo_lru0_constructed by simp

text \<open>
  Tag, set and address fit together: the address regenerated from the tag and the set of
  an address is that address rounded down to its block.
\<close>

lemma cache_address_roundtrip:
  assumes "lg_wf g"
  shows "regenerateBlkAddr g (extractTag g a) (extractSet g a) = blkAlign g a"
  by (rule regenerate_extract [OF assms])

lemma cache_address_roundtrip_example:
  "regenerateBlkAddr (lr_geom demo_lru) (extractTag (lr_geom demo_lru) 0x1237) (extractSet (lr_geom demo_lru) 0x1237) =
     blkAlign (lr_geom demo_lru) 0x1237"
  using cache_address_roundtrip [of "lr_geom demo_lru" "0x1237"] demo_lru_inv by (simp add: lru_inv_def)

section \<open>The memory controller\<close>

definition demo_dram :: dram_cp where
  "demo_dram = \<lparr>dc_params = concat (replicate 4 [0, 0, 1]) @ replicate (3 * (NUM_PARAM_ROWS - 4)) 0, dc_stats = StatsTable 4 32\<rparr>"

lemma demo_dram_wf: "dram_cp_wf demo_dram"
  by (rule PARDg5VDRAMCtrl_wf [of 4 2 2]) (simp add: PARDg5VDRAMCtrl_def demo_dram_def)

lemma demo_dram_param: "dram_param demo_dram 1 2" "dram_param demo_dram 2 2"
  by (simp_all add: dram_param_def CPA_DESTADDR_TYPE_def CPA_DESTADDR_OFFSET_def bits_def mask_n_eq mask_eq_exp_minus_1)

text \<open>
  C26. Parameters written over the control-plane network read back. A \<^verbatim>\<open>S\<close> command on a
  parameter of the memory controller, followed by the command byte \<^verbatim>\<open>G\<close>, leaves the written
  value in the data register.
\<close>

theorem dram_parameter_roundtrip:
  assumes "cpc_wf c" "cpCmd c = 0x53" "cc_resource c = Some r" "dram_cp_wf r"
    and "dram_param r (cpLDomID c) (cpDestAddr c)" "cpc_command dram_get dram_set c = Inr c1"
    and "c2 = c1\<lparr>cc_regs := (cc_regs c1)[16 := 0x47]\<rparr>"
  shows "\<exists>c3. cpc_command dram_get dram_set c2 = Inr c3 \<and> cpData c3 = cpData c"
  by (rule dram_mr.set_then_get [OF assms])

theorem dram_parameter_roundtrip_witness:
  "\<exists>c1 c3. cpc_command dram_get dram_set (demo_connector 1 2 3 demo_dram) = Inr c1 \<and>
     cpc_command dram_get dram_set (c1\<lparr>cc_regs := (cc_regs c1)[16 := 0x47]\<rparr>) = Inr c3 \<and> cpData c3 = 3"
proof -
  let ?c = "demo_connector 1 2 3 demo_dram"
  have p: "dram_param demo_dram (cpLDomID ?c) (cpDestAddr ?c)" by (simp add: demo_connector_fields demo_dram_param)
  obtain c1 where c1: "cpc_command dram_get dram_set ?c = Inr c1"
    using dram_mr.command_set [OF demo_connector_fields(1,2,6) demo_dram_wf p] by auto
  from dram_parameter_roundtrip [OF demo_connector_fields(1,2,6) demo_dram_wf p c1 refl] c1
  show ?thesis by (auto simp: demo_connector_fields)
qed

text \<open>
  C25. Programming one domain leaves the others alone: a \<^verbatim>\<open>S\<close> command on a valid parameter
  succeeds and changes no parameter of another domain.
\<close>

theorem dram_parameter_isolation:
  assumes "cpc_wf c" "cpCmd c = 0x53" "cc_resource c = Some r" "dram_cp_wf r"
    and "dram_param r (cpLDomID c) (cpDestAddr c)"
  shows "\<exists>r'. cpc_command dram_get dram_set c = Inr (c\<lparr>cc_resource := Some r'\<rparr>) \<and> dram_cp_wf r' \<and>
    (\<forall>d a. dram_param r d a \<longrightarrow> d \<noteq> cpLDomID c \<longrightarrow> dram_peek r' d a = dram_peek r d a)"
  using dram_mr.command_set [OF assms] by blast

theorem dram_parameter_isolation_witness:
  "\<exists>r'. cpc_command dram_get dram_set (demo_connector 1 2 3 demo_dram) =
      Inr (demo_connector 1 2 3 demo_dram\<lparr>cc_resource := Some r'\<rparr>) \<and> dram_peek r' 2 2 = dram_peek demo_dram 2 2"
  using dram_parameter_isolation [OF demo_connector_fields(1,2,6) demo_dram_wf, of 1 2 3] demo_dram_param
  by (fastforce simp: demo_connector_fields)

text \<open>
  C24. Row buffers are partitioned between domains. Two packets whose domains have disjoint
  row-buffer masks are never assigned the same row buffer, so neither can close a row the
  other has open.
\<close>

theorem row_buffer_isolation:
  assumes "decodeAddr now g r p a sz rd = Inr dp" "decodeAddr now' g r q a' sz' rd' = Inr dq"
    and "rowbuf_mask r (QOSTAG_TO_LDOMID (dp_qosTag dp)) = Inr m"
    and "rowbuf_mask r (QOSTAG_TO_LDOMID (dp_qosTag dq)) = Inr m'" "m AND m' = 0"
  shows "dp_rowbuf dp \<noteq> dp_rowbuf dq"
  using decodeAddr_InrD(1) [OF assms(1)] decodeAddr_InrD(1) [OF assms(2)] assms(3-5) select_rowbuf_isolated by fastforce

definition demo_geom :: dram_geometry where
  "demo_geom = \<lparr>dg_burstSize = 64, dg_columnsPerRowBuffer = 16, dg_channels = 1, dg_banksPerRank = 2,
     dg_ranksPerChannel = 1, dg_rowsPerBank = 1024, dg_addrMapping = RoRaBaChCo\<rparr>"

lemma demo_geom_wf: "geometry_wf demo_geom"
  by (simp add: geometry_wf_def demo_geom_def)

definition demo_dram2 :: dram_cp where
  "demo_dram2 = demo_dram\<lparr>dc_params := (dc_params demo_dram)[8 := 2]\<rparr>"

lemma demo_rowbuf_masks: "rowbuf_mask demo_dram2 1 = Inr 1" "rowbuf_mask demo_dram2 2 = Inr 2"
proof -
  have "concat (replicate 4 [0, 0, 1]) = [0, 0, 1 :: u64, 0, 0, 1, 0, 0, 1, 0, 0, 1]" by (simp add: numeral_eq_Suc)
  then show "rowbuf_mask demo_dram2 1 = Inr 1" "rowbuf_mask demo_dram2 2 = Inr 2"
    by (simp_all add: rowbuf_mask_def demo_dram2_def demo_dram_def NUM_PARAM_ROWS_def vec_get_def)
qed

lemma demo_select: "select_rowbuf 1 = Inr 0" "select_rowbuf 2 = Inr 1"
  by (simp_all add: select_rowbuf_iff ROW_BUFFER_COUNT_def bit_simps)

lemma demo_ldom: "QOSTAG_TO_LDOMID 1 = 1" "QOSTAG_TO_LDOMID 2 = 2"
  by (simp_all add: QOSTAG_TO_LDOMID_def)

lemma demo_decode:
  "\<exists>dp. decodeAddr 7 demo_geom demo_dram2 (demo_read a 1) a 64 True = Inr dp \<and> dp_qosTag dp = 1"
  "\<exists>dp. decodeAddr 7 demo_geom demo_dram2 (demo_read a 2) a 64 True = Inr dp \<and> dp_qosTag dp = 2"
  using decodeAddr_ok [OF demo_geom_wf, of "demo_read a 1" 1 demo_dram2 1 0 7 a 64 True]
    decodeAddr_ok [OF demo_geom_wf, of "demo_read a 2" 2 demo_dram2 2 1 7 a 64 True]
  by (auto simp: demo_rowbuf_masks demo_select demo_ldom NUM_PARAM_ROWS_def)

theorem row_buffer_isolation_witness:
  "\<exists>dp dq. decodeAddr 7 demo_geom demo_dram2 (demo_read 0x40 1) 0x40 64 True = Inr dp \<and>
     decodeAddr 7 demo_geom demo_dram2 (demo_read 0x40 2) 0x40 64 True = Inr dq \<and> dp_rowbuf dp \<noteq> dp_rowbuf dq"
proof -
  obtain dp dq where d: "decodeAddr 7 demo_geom demo_dram2 (demo_read 0x40 1) 0x40 64 True = Inr dp" "dp_qosTag dp = 1"
    "decodeAddr 7 demo_geom demo_dram2 (demo_read 0x40 2) 0x40 64 True = Inr dq" "dp_qosTag dq = 2"
    using demo_decode by blast
  have "dp_rowbuf dp \<noteq> dp_rowbuf dq"
    by (rule row_buffer_isolation [OF d(1,3), of 1 2]) (simp_all add: d(2,4) demo_ldom demo_rowbuf_masks)
  then show ?thesis using d by blast
qed

text \<open>
  C35. Address decoding loses nothing: rank, bank and row of \<^verbatim>\<open>decodeAddr\<close> with column and
  channel determine the burst address, for all three address mappings.
\<close>

theorem dram_decode_roundtrip:
  assumes "geometry_wf g" "decode_fields g a = (ra, b, ro)" "unat a div dg_burstSize g < dram_capacity g"
  shows "encode_fields g (unat ra) (unat b) (unat ro) (decode_column g a) (decode_channel g a) = unat a div dg_burstSize g"
  by (rule decode_encode [OF assms])

theorem dram_decode_roundtrip_witness:
  "\<exists>ra b ro. decode_fields demo_geom 0x1240 = (ra, b, ro) \<and>
     encode_fields demo_geom (unat ra) (unat b) (unat ro) (decode_column demo_geom 0x1240) (decode_channel demo_geom 0x1240) = 73"
proof -
  obtain ra b ro where d: "decode_fields demo_geom 0x1240 = (ra, b, ro)" by (metis prod_cases3)
  from dram_decode_roundtrip [OF demo_geom_wf d] d show ?thesis by (simp add: demo_geom_def dram_capacity_def)
qed

text \<open>
  Reordering neither loses nor invents requests. On well-formed requests \<^verbatim>\<open>reorderQueue\<close>
  always succeeds, and its result is the queue with one request moved to the front.
\<close>

lemma reorder_permutes:
  assumes "list_all (request_wf r banks) q" "q \<noteq> []"
  shows "\<exists>k q'. k < length q \<and> reorderQueue r tRP now banks q = Inr q' \<and> q' = move_front k q \<and> mset q' = mset q"
  using reorderQueue_total [OF assms] mset_move_front by metis

definition demo_dp :: "u64 \<Rightarrow> u16 \<Rightarrow> dram_packet" where
  "demo_dp tag row = \<lparr>dp_entryTime = 0, dp_readyTime = 0, dp_pkt = demo_read 0 tag, dp_isRead = True, dp_rank = 0, dp_bank = 0, dp_row = row, dp_bankId = 0, dp_addr = 0,
     dp_size = 64, dp_burstHelper = None, dp_qosTag = tag, dp_rowbuf = 0\<rparr>"

lemma demo_dp_wf: "unat (QOSTAG_TO_LDOMID tag) < 32 \<Longrightarrow> request_wf demo_dram [[Bank]] (demo_dp tag row)"
  using demo_dram_wf
  by (simp add: request_wf_def demo_dp_def Bank_def ROW_BUFFER_COUNT_def dram_cp_wf_def NUM_PARAM_ROWS_def)

lemma reorder_permutes_example:
  "\<exists>q'. reorderQueue demo_dram 10 100 [[Bank]] [demo_dp 1 5, demo_dp 2 6] = Inr q' \<and>
     mset q' = mset [demo_dp 1 5, demo_dp 2 6]"
  using reorder_permutes [of demo_dram "[[Bank]]" "[demo_dp 1 5, demo_dp 2 6]" 10 100]
  by (auto simp: demo_dp_wf demo_ldom)

text \<open>
  C34. Reordering never promotes a request of lower priority over the oldest one: the effective
  priority value of the request it puts first is at most that of the old head (smaller values
  are more urgent).
\<close>

theorem reorder_priority:
  assumes "list_all (request_wf r banks) (p # ps)" "list_all (\<lambda>p. request_priority r p < 2 ^ 31) (p # ps)"
    and "request_priority r p \<le> 64" "reorderQueue r tRP now banks (p # ps) = Inr (q # qs)"
  shows "request_priority r q \<le> request_priority r p"
  by (rule reorder_head_priority [OF assms])

lemma demo_priority: "request_priority demo_dram (demo_dp 1 row) = 0" "request_priority demo_dram (demo_dp 2 row) = 0"
proof -
  have "concat (replicate 4 [0, 0, 1]) = [0, 0, 1 :: u64, 0, 0, 1, 0, 0, 1, 0, 0, 1]" by (simp add: numeral_eq_Suc)
  then show "request_priority demo_dram (demo_dp 1 row) = 0" "request_priority demo_dram (demo_dp 2 row) = 0"
    by (simp_all add: request_priority_def demo_dp_def demo_dram_def demo_ldom)
qed

theorem reorder_priority_witness:
  "\<exists>q qs. reorderQueue demo_dram 10 100 [[Bank]] [demo_dp 1 5, demo_dp 2 6] = Inr (q # qs) \<and>
     request_priority demo_dram q \<le> request_priority demo_dram (demo_dp 1 5)"
proof -
  have wf: "list_all (request_wf demo_dram [[Bank]]) [demo_dp 1 5, demo_dp 2 6]" by (simp add: demo_dp_wf demo_ldom)
  then obtain k where "reorderQueue demo_dram 10 100 [[Bank]] [demo_dp 1 5, demo_dp 2 6] =
      Inr (move_front k [demo_dp 1 5, demo_dp 2 6])"
    using reorderQueue_total [OF wf] by blast
  then obtain q qs where q: "reorderQueue demo_dram 10 100 [[Bank]] [demo_dp 1 5, demo_dp 2 6] = Inr (q # qs)"
    by (auto simp: move_front_def)
  from reorder_priority [OF wf _ _ q] q show ?thesis by (simp add: demo_priority)
qed

text \<open>
  Activation keeps the bank bookkeeping exact. On a closed row buffer, outside the
  activation window, \<^verbatim>\<open>activateBank\<close> fails no assertion; every bank still counts its open
  rows, and the controller's count of active banks is still the number of banks with an open row,
  which is at most the number of banks.
\<close>

lemma activation_invariant:
  assumes "dram_wf g tm s" "rank < dg_ranksPerChannel g" "bank < dg_banksPerRank g"
    and "rowbuf < ROW_BUFFER_COUNT" "bk_openRow (ds_banks s ! rank ! bank) ! rowbuf = NO_ROW"
    and "ds_actTicks s ! rank \<noteq> [] \<Longrightarrow> \<not> in_window t (last (ds_actTicks s ! rank)) (dt_tXAW tm)"
  shows "\<exists>s'. activateBank g tm t rank bank row rowbuf s = Inr s' \<and> dram_wf g tm s' \<and>
    ds_numBanksActive s' \<le> dg_banksPerRank g * dg_ranksPerChannel g"
  using activateBank_ok [OF assms] numBanksActive_bound by blast

definition demo_timing :: dram_timing where
  "demo_timing = \<lparr>dt_tRP = 10, dt_tRAS = 30, dt_tRCD = 10, dt_tRRD = 5, dt_tXAW = 40, dt_activationLimit = 2\<rparr>"

definition demo_dram_state :: dram_state where
  "demo_dram_state = \<lparr>ds_banks = [[Bank, Bank]], ds_actTicks = [[0, 0]], ds_numBanksActive = 0,
     ds_activateEvent = None, ds_prechargeEvent = None\<rparr>"

lemma demo_dram_state_wf: "dram_wf demo_geom demo_timing demo_dram_state"
  by (simp add: dram_wf_def demo_geom_def demo_timing_def demo_dram_state_def active_in_rank_def bank_wf_def Bank_def
      open_rows_def ROW_BUFFER_COUNT_def numeral_eq_Suc)

lemma demo_activate_pre:
  "0 < dg_ranksPerChannel demo_geom" "1 < dg_banksPerRank demo_geom" "1 < ROW_BUFFER_COUNT"
  "bk_openRow (ds_banks demo_dram_state ! 0 ! 1) ! 1 = NO_ROW" "\<not> in_window t (last (ds_actTicks demo_dram_state ! 0)) w"
  by (simp_all add: demo_geom_def demo_dram_state_def Bank_def ROW_BUFFER_COUNT_def in_window_def)

lemma activation_invariant_example:
  "\<exists>s'. activateBank demo_geom demo_timing 50 0 1 7 1 demo_dram_state = Inr s' \<and> ds_numBanksActive s' \<le> 2"
  using activation_invariant [OF demo_dram_state_wf demo_activate_pre] by (auto simp: demo_geom_def)

text \<open>
  Precharging keeps the bank bookkeeping exact: on an open row buffer \<^verbatim>\<open>prechargeBank\<close>
  fails no assertion and preserves that invariant.
\<close>

lemma precharge_invariant:
  assumes "dram_wf g tm s" "rank < dg_ranksPerChannel g" "bank < dg_banksPerRank g"
    and "rowbuf < ROW_BUFFER_COUNT" "bk_openRow (ds_banks s ! rank ! bank) ! rowbuf \<noteq> NO_ROW"
  shows "\<exists>s'. prechargeBank tm rank bank rowbuf pre_at s = Inr s' \<and> dram_wf g tm s'"
  by (rule prechargeBank_ok [OF assms])

definition demo_open_state :: dram_state where
  "demo_open_state = demo_dram_state\<lparr>ds_banks := [[Bank, Bank\<lparr>bk_openRow := [7, NO_ROW], bk_numRowsActive := 1\<rparr>]],
     ds_numBanksActive := 1\<rparr>"

lemma precharge_invariant_example:
  "\<exists>s'. prechargeBank demo_timing 0 1 0 80 demo_open_state = Inr s' \<and> dram_wf demo_geom demo_timing s'"
proof -
  have "dram_wf demo_geom demo_timing demo_open_state"
    by (simp add: dram_wf_def demo_geom_def demo_timing_def demo_open_state_def demo_dram_state_def active_in_rank_def
        bank_wf_def Bank_def open_rows_def ROW_BUFFER_COUNT_def NO_ROW_def)
  then show ?thesis
    by (rule precharge_invariant) (simp_all add: demo_geom_def ROW_BUFFER_COUNT_def demo_open_state_def NO_ROW_def)
qed

section \<open>The event queue\<close>

text \<open>
  C31. Scheduling inserts in order. In a queue that serves the events \<open>xs\<close>, \<^verbatim>\<open>schedule\<close> of an
  unscheduled event at a tick that is not past succeeds. The two-dimensional list of bins then
  represents \<open>xs\<close> with the event inserted before the first event that is not earlier, no other event
  changes, and the order of service is sorted by time and priority.
\<close>

theorem event_schedule:
  assumes "eq_inv q xs" "eq_curTick q \<le> t" "\<not> scheduled (eq_events q e)" "initialized (eq_events q e)"
  shows "\<exists>q' ys. eq_schedule False cq q e t g = Some (Inr q') \<and> ys = order_insert (eq_events q') e xs \<and>
    eq_inv q' ys \<and> ev_when (eq_events q' e) = t \<and> others_kept e q q' \<and>
    sorted_wrt (\<lambda>x y. \<not> event_less (eq_events q' y) (eq_events q' x)) ys"
proof -
  obtain q' where q': "eq_schedule False cq q e t g = Some (Inr q')" "eq_inv q' (order_insert (eq_events q') e xs)"
    "ev_when (eq_events q' e) = t" "others_kept e q q'"
    by (rule eq_schedule_ok [OF assms])
  then have "eq_rep q' (order_insert (eq_events q') e xs)" by (simp add: eq_inv_def)
  with q' eq_rep_sorted show ?thesis by blast
qed

definition demo_events :: event_store where
  "demo_events = (\<lambda>_. \<lparr>ev_nextBin = None, ev_nextInBin = None, ev_when = 0, ev_priority = 0, ev_flags = Initialized,
     ev_queue = None\<rparr>)"

lemma demo_events_fresh: "\<not> scheduled (demo_events e)" "initialized (demo_events e)"
  by (simp_all add: demo_events_def scheduled_def ev_isSet_def initialized_def Initialized_def InitMask_def Scheduled_def)

theorem event_schedule_witness:
  "\<exists>q'. eq_schedule False 0 (EventQueue 0 demo_events) 5 10 False = Some (Inr q') \<and> eq_inv q' [5]"
  using event_schedule [OF eq_inv_empty, of 0 demo_events 10 5 0 False] demo_events_fresh [of 5]
  by (auto simp: EventQueue_def order_insert_def)

text \<open>
  Descheduling removes exactly the given event from the order of service.
\<close>

lemma event_deschedule:
  assumes "eq_inv q xs" "e \<in> set xs" "\<not> par \<or> eq_id q = cq"
  shows "\<exists>q'. eq_deschedule par cq q e = Some (Inr q') \<and> eq_inv q' (remove1 e xs) \<and>
    \<not> scheduled (eq_events q' e) \<and> others_kept e q q'"
  by (rule eq_deschedule_ok [OF assms]) blast

lemma demo_queue: obtains q where "eq_schedule False 0 (EventQueue 0 demo_events) 5 10 False = Some (Inr q)"
  "eq_inv q [5]" "ev_when (eq_events q 5) = 10" "eq_id q = 0" "eq_curTick q = 0" "\<not> isExitEvent (eq_events q 5)"
proof -
  obtain q where q: "eq_schedule False 0 (EventQueue 0 demo_events) 5 10 False = Some (Inr q)"
    "eq_inv q (order_insert (eq_events q) 5 [])" "scheduled (eq_events q 5)" "ev_when (eq_events q 5) = 10"
    "others_kept 5 (EventQueue 0 demo_events) q"
    by (rule eq_schedule_ok [OF eq_inv_empty, of 0 demo_events 10 5 0 False])
       (use demo_events_fresh [of 5] in \<open>simp_all add: EventQueue_def\<close>)
  moreover have "\<not> isExitEvent (eq_events q 5)"
    using q(1) demo_events_fresh [of 5]
    by (auto simp: EventQueue_def eq_schedule_def eq_insert_def Let_def insertBefore_def eq_upd_def upd_event_def
        isExitEvent_def ev_isSet_def ev_setFlag_def setWhen_def demo_events_def Initialized_def Scheduled_def IsExitEvent_def)
  ultimately show thesis using that [of q] by (simp add: order_insert_def others_kept_def EventQueue_def)
qed

lemma event_deschedule_example:
  "\<exists>q q'. eq_schedule False 0 (EventQueue 0 demo_events) 5 10 False = Some (Inr q) \<and>
     eq_deschedule True 0 q 5 = Some (Inr q') \<and> eq_inv q' []"
proof -
  obtain q where "eq_schedule False 0 (EventQueue 0 demo_events) 5 10 False = Some (Inr q)" "eq_inv q [5]" "eq_id q = 0"
    by (rule demo_queue)
  with event_deschedule [of q "[5]" 5 True 0] show ?thesis by auto
qed

text \<open>
  C33. Time never runs backwards. If processing an event keeps the queue well formed and leaves the
  clock alone, then \<^verbatim>\<open>serviceOne\<close> keeps the queue well formed, never decreases the current
  tick, and sets it to the tick of the event served unless that event was squashed.
\<close>

theorem event_service_clock:
  assumes "eq_inv q (x # xs)"
    and "\<And>e r ys. eq_inv r ys \<Longrightarrow> (\<exists>zs. eq_inv (process e r) zs) \<and> eq_curTick (process e r) = eq_curTick r"
    and "serviceOne process q = Inr (res, q')"
  shows "(\<exists>ys. eq_inv q' ys) \<and> eq_curTick q \<le> eq_curTick q' \<and>
    (\<not> squashed (eq_events q x) \<longrightarrow> eq_curTick q' = ev_when (eq_events q x))"
  by (rule serviceOne_clock [OF assms])

theorem event_service_clock_witness:
  "\<exists>q res q'. eq_schedule False 0 (EventQueue 0 demo_events) 5 10 False = Some (Inr q) \<and>
     serviceOne (\<lambda>_ r. r) q = Inr (res, q') \<and> eq_curTick q \<le> eq_curTick q'"
proof -
  obtain q where q: "eq_schedule False 0 (EventQueue 0 demo_events) 5 10 False = Some (Inr q)" "eq_inv q [5]"
    "\<not> isExitEvent (eq_events q 5)" by (rule demo_queue)
  obtain q1 where q1: "eq_pop q = Inr (5, q1)" "isExitEvent (eq_events q1 5) = isExitEvent (eq_events q 5)"
    by (rule eq_pop_ok [OF q(2)])
  then obtain res q' where r: "serviceOne (\<lambda>_ r. r) q = Inr (res, q')"
    using q(3) by (cases "squashed (eq_events q1 5)") (auto simp: serviceOne_def)
  from event_service_clock [OF q(2) _ r] q(1) r show ?thesis by blast
qed



text \<open>
  C17. The queue implements timers. Seen as a partial function from events to ticks, the queue
  behaves under \<^verbatim>\<open>schedule\<close> exactly as setting one timer does: the assertion fails precisely when
  the timer is set already or the tick is past, and otherwise only that timer changes.
\<close>

theorem event_timer_refinement:
  assumes "eq_timers q"
  shows "case timer_set (eq_curTick q) (eq_timer q e) t of
      Inl err \<Rightarrow> eq_schedule False c q e t g = Some (Inl err)
    | Inr v \<Rightarrow> \<exists>q'. eq_schedule False c q e t g = Some (Inr q') \<and> eq_timers q' \<and> eq_curTick q' = eq_curTick q \<and>
        eq_timer q' = (eq_timer q)(e := v)"
  by (rule evq.sched_law [OF assms])

theorem event_timer_refinement_witness:
  "\<exists>q'. eq_schedule False 0 (EventQueue 0 demo_events) 5 10 True = Some (Inr q') \<and> eq_timer q' 5 = Some 10"
proof -
  have "eq_timers (EventQueue 0 demo_events)"
    using demo_events_fresh eq_inv_empty [of 0 demo_events] by (auto simp: eq_timers_def EventQueue_def)
  moreover have "timer_set (eq_curTick (EventQueue 0 demo_events)) (eq_timer (EventQueue 0 demo_events) 5) 10 = Inr (Some 10)"
    using demo_events_fresh [of 5] by (simp add: timer_set_def eq_timer_def EventQueue_def sim_assert_def)
  ultimately show ?thesis
    using event_timer_refinement [where q = "EventQueue 0 demo_events" and e = 5 and t = 10 and c = 0 and g = True]
    by (auto simp: fun_upd_def)
qed

text \<open>
  A clock edge \<open>n\<close> cycles ahead is a multiple of the period, at least \<open>n\<close> periods away and
  less than \<open>n + 1\<close> periods away.
\<close>

lemma clock_edge_window:
  assumes "0 < period" "clock_inv period c" "co_tick c < now + period" "clockEdge now period n c = (t, c')"
  shows "period dvd t \<and> now + n * period \<le> t \<and> t < now + (n + 1) * period \<and> clock_inv period c' \<and> co_tick c' < now + period"
  using clockEdge_window [OF assms] by blast

lemma clock_edge_window_example:
  "\<exists>t c'. clockEdge 1501 500 2 ClockedObject = (t, c') \<and> 500 dvd t \<and> 2501 \<le> t \<and> t < 3001"
proof -
  obtain t c' where e: "clockEdge 1501 500 2 ClockedObject = (t, c')" by fastforce
  from clock_edge_window [OF _ _ _ e] e show ?thesis by (auto simp: clock_inv_def ClockedObject_def)
qed

section \<open>The bus bridge\<close>

text \<open>
  C15. No assertion of the bridge can fail. In every state the bridge and its peers can reach,
  every action the port protocol allows succeeds: the queues never overflow, a send event always finds
  a packet that is due, and every response finds its bridge state.
\<close>

theorem bridge_safe:
  assumes "0 < period" "bridge_reach (bridge_init period delay req_size resp_size) s" "enabled a s"
  shows "\<exists>s'. bridge_do a s = Inr s'"
  using bridge_do_ok [OF bridge_reach_ok [OF assms(2) bridge_init_ok [OF assms(1)]] assms(3)] by blast

theorem bridge_safe_witness: "\<exists>s'. bridge_do (ReqIn (demo_read 0x40 1)) (bridge_init 500 1000 4 4) = Inr s'"
  using bridge_safe [OF _ reach_init, of 500 "ReqIn (demo_read 0x40 1)" 1000 4 4]
  by (simp add: bridge_init_def PARDg5VBridge_def InvalidPortID_def)

text \<open>
  C29. Space is reserved for every response. In every reachable state the number of outstanding
  responses is the number of responses queued, requests in flight and queued requests that
  expect one; it never exceeds the response queue limit, and the request queue stays within its own.
\<close>

theorem bridge_response_space:
  assumes "0 < period" "bridge_reach (bridge_init period delay req_size resp_size) s"
  shows "br_outstandingResponses (bs_br s) = length (br_resps (bs_br s)) + length (bs_flight s) + due (br_reqs (bs_br s)) \<and>
    br_outstandingResponses (bs_br s) \<le> br_respQueueLimit (bs_br s) \<and>
    length (br_reqs (bs_br s)) \<le> br_reqQueueLimit (bs_br s)"
  using bridge_reach_ok [OF assms(2) bridge_init_ok [OF assms(1)]] by (auto simp: bridge_ok_def Let_def)

theorem bridge_response_space_witness:
  "\<exists>s. bridge_do (ReqIn (demo_read 0x40 1)) (bridge_init 500 1000 4 4) = Inr s \<and>
     br_outstandingResponses (bs_br s) \<le> br_respQueueLimit (bs_br s)"
proof -
  let ?i = "bridge_init 500 1000 4 4" and ?a = "ReqIn (demo_read 0x40 1)"
  have e: "enabled ?a ?i" by (simp add: bridge_init_def PARDg5VBridge_def InvalidPortID_def)
  obtain s where s: "bridge_do ?a ?i = Inr s" using bridge_do_ok [OF bridge_init_ok e] by auto
  from bridge_response_space [OF _ reach_step [OF reach_init e s]] s show ?thesis by simp
qed



text \<open>
  C30. Responses find their way back. The response to a request that passed the bridge is queued for
  the port the request came from, with the sender state the request arrived with.
\<close>

theorem bridge_response_routed:
  assumes "0 < br_period b" "schedTimingReq now p t b = Inr b'" "expects_response p" "br_reqs b' = br_reqs b @ [(q, t)]"
    and "makeResponse q = Inr r" "schedTimingResp now' r t' b2 = Inr b3"
  shows "\<exists>r'. br_resps b3 = br_resps b2 @ [(r', t')] \<and> pk_dest r' = pk_src p \<and> pk_senderState r' = pk_senderState p"
  by (rule response_destination [OF assms])

lemma demo_bridge_ok: "br_reqs (PARDg5VBridge 500 1000 4 4) = []" "br_resps (PARDg5VBridge 500 1000 4 4) = []"
  "queue_ok 0 (br_reqs (PARDg5VBridge 500 1000 4 4)) (br_reqEvent (PARDg5VBridge 500 1000 4 4)) False"
  "queue_ok 0 (br_resps (PARDg5VBridge 500 1000 4 4)) (br_respEvent (PARDg5VBridge 500 1000 4 4)) False"
  by (simp_all add: PARDg5VBridge_def queue_ok_def)

theorem bridge_response_routed_witness:
  "\<exists>b' q r b3 r'. schedTimingReq 0 (demo_read 0x40 1) 10 (PARDg5VBridge 500 1000 4 4) = Inr b' \<and> br_reqs b' = [(q, 10)] \<and>
     makeResponse q = Inr r \<and> schedTimingResp 0 r 20 (PARDg5VBridge 500 1000 4 4) = Inr b3 \<and>
     br_resps b3 = [(r', 20)] \<and> pk_dest r' = 3"
proof -
  let ?b = "PARDg5VBridge 500 1000 4 4" and ?p = "demo_read 0x40 1"
  have ex: "expects_response ?p" by (simp add: expects_response_def ReadReq_attribs)
  have lim: "length (br_reqs ?b) \<noteq> br_reqQueueLimit ?b" by (simp add: PARDg5VBridge_def)
  obtain q ev where q: "schedTimingReq 0 ?p 10 ?b = Inr (?b\<lparr>br_reqEvent := ev, br_reqs := br_reqs ?b @ [(q, 10)]\<rparr>)"
    "expects_response q" "tagged q"
    by (rule schedTimingReq_ok [OF demo_bridge_ok(3) _ _ lim, of 10 ?p]) (use ex in \<open>auto simp: InvalidPortID_def\<close>)
  obtain r where r: "makeResponse q = Inr r" "pk_senderState r = pk_senderState q"
    using q(2) by (auto simp: expects_response_def elim: makeResponse_ok)
  have "tagged r" using q(3) r(2) by (simp add: tagged_def)
  then obtain p1 e2 where s: "schedTimingResp 0 r 20 ?b = Inr (?b\<lparr>br_respEvent := e2, br_resps := br_resps ?b @ [(p1, 20)]\<rparr>)"
    by (rule schedTimingResp_ok [OF demo_bridge_ok(4), of 20 r, rotated]) auto
  have "0 < br_period ?b" by (simp add: PARDg5VBridge_def)
  from bridge_response_routed [OF this q(1) ex _ r(1) s] q(1) r(1) s demo_bridge_ok(1,2) show ?thesis by fastforce
qed

section \<open>Packets and blocks\<close>

text \<open>
  C36. A store breaks overlapping reservations: after a write checked by \<^verbatim>\<open>checkWrite\<close>, a
  store-conditional to an overlapping address fails, whatever its context.
\<close>

theorem store_conditional_fails:
  assumes "req_wf (pk_req sc)" "req_wf (pk_req st)" "reqs_overlap (pk_req sc) (pk_req st)"
    and "isLLSC (pk_cmd sc)" "checkWrite st b = (ok, st', b')"
  shows "\<not> fst (checkWrite sc b')"
  by (rule store_breaks_reservation [OF assms])

definition demo_packet :: "mem_cmd \<Rightarrow> addr \<Rightarrow> u8 list \<Rightarrow> packet" where
  "demo_packet c a d =
     (mk_packet (demo_req a (length d) 1) c)\<lparr>pk_data := Some d, pk_flags := VALID_ADDR OR VALID_SIZE OR STATIC_DATA\<rparr>"

lemma demo_packet_simps [simp]:
  "pk_cmd (demo_packet c a d) = c" "pk_addr (demo_packet c a d) = a" "pk_size (demo_packet c a d) = length d"
  "pk_req (demo_packet c a d) = demo_req a (length d) 1" "pk_isSecure (demo_packet c a d) = False"
  "has_buffer (demo_packet c a d) d"
  by (simp_all add: demo_packet_def mk_packet_def demo_req_def has_buffer_def flag_isSet_def packet_flag_defs)

lemma demo_req_wf: "req_wf (demo_req 0x100 4 1)" "req_wf (demo_req 0x102 4 1)"
  "reqs_overlap (demo_req 0x100 4 1) (demo_req 0x102 4 1)"
  by (simp_all add: req_wf_def reqs_overlap_def demo_req_def)

theorem store_conditional_fails_witness:
  "\<not> fst (checkWrite (demo_packet StoreCondReq 0x100 [1, 2, 3, 4])
       (snd (snd (checkWrite (demo_packet WriteReq 0x102 [5, 6, 7, 8]) (CacheBlk [] 0)))))"
proof -
  obtain ok st' b' where c: "checkWrite (demo_packet WriteReq 0x102 [5, 6, 7, 8]) (CacheBlk [] 0) = (ok, st', b')"
    by (metis prod_cases3)
  have "isLLSC StoreCondReq" by (simp add: cmd_attrib_defs)
  with store_conditional_fails [of "demo_packet StoreCondReq 0x100 [1, 2, 3, 4]", OF _ _ _ _ c] demo_req_wf c
  show ?thesis by (simp add: eval_nat_numeral)
qed

text \<open>
  A store-conditional that directly follows the load-locked of the same context and range
  succeeds.
\<close>

lemma store_conditional_succeeds:
  assumes "trackLoadLocked ll b = Inr b'" "rq_contextId (pk_req sc) = rq_contextId (pk_req ll)"
    and "rq_paddr (pk_req sc) = rq_paddr (pk_req ll)" "rq_size (pk_req sc) = rq_size (pk_req ll)"
  shows "fst (checkWrite sc b')"
  by (rule load_locked_then_conditional [OF assms])

lemma store_conditional_succeeds_example:
  "\<exists>b'. trackLoadLocked (demo_packet LoadLockedReq 0x100 [0, 0, 0, 0]) (CacheBlk [] 0) = Inr b' \<and>
     fst (checkWrite (demo_packet StoreCondReq 0x100 [1, 2, 3, 4]) b')"
proof -
  have "isLLSC LoadLockedReq" by (simp add: cmd_attrib_defs)
  then obtain b' where b: "trackLoadLocked (demo_packet LoadLockedReq 0x100 [0, 0, 0, 0]) (CacheBlk [] 0) = Inr b'"
    by (auto simp: trackLoadLocked_def sim_assert_def)
  from store_conditional_succeeds [OF b] b show ?thesis by simp
qed

text \<open>
  Functional accesses see memory. A functional write that lies within a block updates the
  block, and a functional read of the same range then returns the bytes written.
\<close>

lemma functional_write_read:
  assumes "isWrite (pk_cmd w)" "\<not> isRead (pk_cmd w)" "has_buffer w dw" "access_within w a (length bs)"
    and "isRead (pk_cmd r)" "has_buffer r dr" "pk_addr r = pk_addr w" "pk_size r = pk_size w"
    and "pk_isSecure r = pk_isSecure w"
  shows "\<exists>bs'. checkFunctional junk w a (pk_isSecure w) (int (length bs)) (Some bs) = Inr (False, w, Some bs') \<and>
    checkFunctional junk r a (pk_isSecure w) (int (length bs)) (Some bs') = Inr (True, r\<lparr>pk_data := Some dw\<rparr>, Some bs')"
  by (rule checkFunctional_write_read [OF assms])

lemma functional_write_read_example:
  "\<exists>bs'. checkFunctional [] (demo_packet WriteReq 0x102 [9, 8]) 0x100 False 4 (Some [1, 2, 3, 4]) =
      Inr (False, demo_packet WriteReq 0x102 [9, 8], Some bs') \<and>
    checkFunctional [] (demo_packet ReadReq 0x102 [0, 0]) 0x100 False 4 (Some bs') =
      Inr (True, (demo_packet ReadReq 0x102 [0, 0])\<lparr>pk_data := Some [9, 8]\<rparr>, Some bs')"
  using functional_write_read [of "demo_packet WriteReq 0x102 [9, 8]" "[9, 8]" "0x100" "[1, 2, 3, 4]"
      "demo_packet ReadReq 0x102 [0, 0]" "[0, 0]" "[]"]
  by (simp add: ReadReq_attribs WriteReq_attribs access_within_def)

text \<open>
  The command table is consistent. A command that needs a response is a request, its response
  command is a response that needs none, a read is answered by a read with data and a write by a write.
\<close>

lemma response_commands:
  assumes "needsResponse c"
  shows "isRequest c \<and> isResponse (responseCommand c) \<and> \<not> isRequest (responseCommand c) \<and>
    \<not> needsResponse (responseCommand c) \<and> (isRead c \<longrightarrow> isRead (responseCommand c) \<and> hasData (responseCommand c)) \<and>
    (isWrite c \<longrightarrow> isWrite (responseCommand c))"
  by (rule responseCommand_wf [OF assms])

lemma response_commands_example: "isResponse (responseCommand ReadReq)"
  using response_commands [OF ReadReq_attribs(3)] by simp

section \<open>Monitoring and address ranges\<close>


definition demo_trigger :: trigger_entry where
  "demo_trigger = \<lparr>te_ldom = 1, te_metric = 0, te_comparator = 0x210, te_value = 0, te_notify_id = 9, te_triggers = 0,
     te_reported = False\<rparr>"


text \<open>
  C37. Checking triggers never fails on a well-formed table, and it leaves the entries of other domains alone.
\<close>

theorem trigger_check:
  assumes "stats_wf s" "triggers_ok s es"
  shows "\<exists>es' ls. checkTrigger s d es = Inr (es', ls) \<and> length es' = length es \<and>
    (\<forall>i < length es. te_ldom (es ! i) \<noteq> d \<longrightarrow> es' ! i = es ! i)"
  using checkTrigger_total [OF assms] checkTrigger_length checkTrigger_other_ldom by metis

theorem trigger_check_witness:
  "\<exists>es' ls. checkTrigger (StatsTable 2 4) 2 [demo_trigger] = Inr (es', ls) \<and> es' ! 0 = demo_trigger"
  using trigger_check [OF StatsTable_wf, of 2 4 "[demo_trigger]" 2]
  by (auto simp: triggers_ok_def demo_trigger_def StatsTable_def)

text \<open>
  C39. Merging interleaved ranges loses no address: the range the merging constructor of
  \<^verbatim>\<open>GuestAddrRange\<close> builds contains exactly the addresses of the ranges it was given.
\<close>

theorem merged_range_complete:
  assumes "GuestAddrRange_merge rs = Inr m" "rs \<noteq> []" "length rs < 2 ^ 64"
    and "unat (gar_intlvBits (hd rs)) \<le> 8" "unat (gar_intlvHighBit (hd rs)) < 64"
    and "unat (gar_intlvBits (hd rs)) \<le> unat (gar_intlvHighBit (hd rs)) + 1"
  shows "gar_contains m a g \<longleftrightarrow> (\<exists>r \<in> set rs. gar_contains r a g)"
  by (rule merge_complete [OF assms])

definition demo_range :: "u8 \<Rightarrow> guest_addr_range" where
  "demo_range m = \<lparr>gar_guestID = 1, gar_start = 0, gar_end = 0xFFF, gar_intlvHighBit = 6, gar_intlvBits = 1, gar_intlvMatch = m\<rparr>"

theorem merged_range_complete_witness:
  "\<exists>m. GuestAddrRange_merge [demo_range 0, demo_range 1] = Inr m \<and>
     (gar_contains m 0x40 1 \<longleftrightarrow> gar_contains (demo_range 0) 0x40 1 \<or> gar_contains (demo_range 1) 0x40 1)"
proof -
  obtain m where m: "GuestAddrRange_merge [demo_range 0, demo_range 1] = Inr m"
    by (simp add: GuestAddrRange_merge_def demo_range_def gar_mergesWith_def)
  from merged_range_complete [OF m, of "0x40" 1] m show ?thesis by (auto simp: demo_range_def)
qed

section \<open>Arithmetic of the simulator\<close>

text \<open>
  The two logarithms agree: for a non-zero word, \<^verbatim>\<open>floorLog2\<close> and \<^verbatim>\<open>findMsbSet\<close> both
  return the position of the most significant bit, the unique exponent with
  \<open>2 ^ y \<le> n < 2 ^ (y + 1)\<close>.
\<close>

lemma logarithms_agree:
  assumes "n \<noteq> 0"
  shows "floorLog2 n = Inr (findMsbSet n) \<and> 2 ^ findMsbSet n \<le> unat n \<and> unat n < 2 ^ (findMsbSet n + 1)"
  using findMsbSet_floorLog2 [OF assms] findMsbSet_bounds [OF assms] by blast

lemma logarithms_agree_example: "floorLog2 0x12345 = Inr (findMsbSet 0x12345)"
  using logarithms_agree [of "0x12345"] by simp

text \<open>
  C40. A refused request stays relocated. When the peer of the address mapper refuses a timing request,
  the mapper takes back the sender state but not the address, so the packet the requester will retry
  carries the address of the physical memory.
\<close>

theorem refused_request_relocated:
  assumes "am_recvTimingReq remap (\<lambda>q. (False, q)) p m = Inr (ok, p1, m1)"
    and "\<not> memInhibitAsserted p" "PARDG5V_PKT_TO_GUESTID p = Inr g"
  shows "\<not> ok \<and> pk_addr p1 = remap (pk_addr p) g \<and> pk_senderState p1 = pk_senderState p"
  by (rule am_refused_request [OF assms])

theorem refused_request_relocated_witness:
  "\<exists>p1 m1. am_recvTimingReq (ram_remapAddr demo_tlb) (\<lambda>q. (False, q)) (demo_read 0x10 2) demo_mapper = Inr (False, p1, m1) \<and>
     pk_addr p1 = 0x20010"
proof -
  have g: "QOSTAG_TO_GUESTID 2 = 2" by (simp add: QOSTAG_TO_GUESTID_def)
  have r: "\<exists>ok p1 m1. am_recvTimingReq (ram_remapAddr demo_tlb) (\<lambda>q. (False, q)) (demo_read 0x10 2) demo_mapper = Inr (ok, p1, m1)"
    by (simp add: am_recvTimingReq_def am_remap_def am_account_def getAddr_def setAddr_def getSize_def
        stat_add_def demo_mapper_def am_regStats_def ReadReq_attribs rbind_assert pushSenderState_def popSenderState_def g exI [of _ False])
  have "ram_remapAddr demo_tlb 0x10 2 = 0x20010"
    by (simp add: ram_remapAddr_def demo_tlb_def LDomAddrTLBEntry_def le_contains_def le_translate_def)
  with refused_request_relocated [of "ram_remapAddr demo_tlb" "demo_read 0x10 2" demo_mapper] r g show ?thesis by fastforce
qed

section \<open>Miss status holding registers\<close>

definition demo_mshrs :: mshr_store where
  "demo_mshrs = [MSHR 0, MSHR 0, MSHR 0]"




lemma demo_upstream_free: "upstream_free (demo_read a t) st"
  by (simp add: upstream_free_def)


text \<open>
  C20. Targets are served in order of arrival. \<^verbatim>\<open>MSHR::allocateTarget\<close> succeeds on every request that is not a
  hardware prefetch and whose upstream register is not waiting already. Whether the target joins the
  outstanding request or is deferred, it comes last in the order of service, the register stays well
  formed, and of the other registers at most the flag \<^verbatim>\<open>downstreamPending\<close> changes.
\<close>

theorem mshr_targets_in_order:
  assumes "mshr_ok (st ! i)" "i < length st" "isRequest (pk_cmd p)" "pk_cmd p \<noteq> HardPFReq" "upstream_free p st"
  shows "\<exists>st'. allocateTarget now i p whenReady order st = Inr st' \<and>
    service_order (st' ! i) = service_order (st ! i) @ [order] \<and> mshr_ok (st' ! i) \<and> others_pending i st st'"
proof -
  obtain st' where r: "allocateTarget now i p whenReady order st = Inr st'"
    using allocateTarget_total [OF assms(2,4,5)] by blast
  with allocateTarget_ok [OF assms(1-4) r] show ?thesis by simp
qed

theorem mshr_targets_in_order_witness:
  "\<exists>st'. allocateTarget 7 0 (demo_read 0x40 1) 9 5 demo_mshrs = Inr st' \<and> service_order (st' ! 0) = [5]"
proof -
  have m: "mshr_ok (demo_mshrs ! 0)" "0 < length demo_mshrs" "service_order (demo_mshrs ! 0) = []"
    by (simp_all add: demo_mshrs_def MSHR_def TargetList_def mshr_ok_def tl_ok_def isReset_def service_order_def)
  have p: "isRequest (pk_cmd (demo_read 0x40 1))" "pk_cmd (demo_read 0x40 1) \<noteq> HardPFReq" by (simp_all add: cmd_attrib_defs)
  show ?thesis using mshr_targets_in_order [OF m(1,2) p demo_upstream_free, of 7 9 5] m(3) by auto
qed

text \<open>
  C19. Snoops and outstanding misses. \<^verbatim>\<open>MSHR::handleSnoop\<close> keeps the register well formed. After an
  invalidating snoop for an exclusive copy no deferred target is still an upgrade of a copy the cache
  is about to lose; if the snoop comes after the outstanding request the register invalidates its
  copy after the fill, otherwise no target at all is an upgrade. When the outstanding request will
  return the dirty copy and no invalidation is pending, the snoop is inhibited from memory and
  recorded as the last target, so the register answers it.
\<close>

theorem mshr_snoop:
  assumes run: "handleSnoop now i p order st = Inr (r, p', st')" and ok: "mshr_ok (st ! i)" and i: "i < length st"
  shows "mshr_ok (st' ! i) \<and> others_pending i st st' \<and>
    (needsExclusive (pk_cmd p) \<and> isInvalidate (pk_cmd p) \<longrightarrow>
       no_upgrades (ms_deferredTargets (st' ! i)) \<and>
       (if r then ms_postInvalidate (st' ! i) else no_upgrades (ms_targets (st' ! i)))) \<and>
    (r \<and> ms_pendingDirty (st ! i) \<and> \<not> ms_postInvalidate (st ! i) \<longrightarrow>
       memInhibitAsserted p' \<and>
       (\<exists>t. tl_targets (ms_targets (st' ! i)) = tl_targets (ms_targets (st ! i)) @ [t] \<and>
            tg_source t = FromSnoop \<and> tg_pkt t = copy_packet p True \<and> tg_order t = order))"
  using handleSnoop_ok [OF run ok i] handleSnoop_exclusive [OF run ok i] handleSnoop_promise [OF _ ok i] run
  by (cases r) simp_all

definition demo_snooped :: mshr_store where
  "demo_snooped = [(MSHR 0)\<lparr>ms_inService := True, ms_pendingDirty := True\<rparr>]"

definition demo_snoop :: packet where
  "demo_snoop = mk_packet (demo_req 0x40 64 1) ReadExReq"

theorem mshr_snoop_witness:
  "\<exists>p' st'. handleSnoop 7 0 demo_snoop 5 demo_snooped = Inr (True, p', st') \<and>
     ms_postInvalidate (st' ! 0) \<and> memInhibitAsserted p' \<and> length (tl_targets (ms_targets (st' ! 0))) = 1"
proof -
  have ok: "mshr_ok (demo_snooped ! 0)"
    by (simp add: demo_snooped_def MSHR_def TargetList_def mshr_ok_def tl_ok_def isReset_def)
  have c: "needsExclusive (pk_cmd demo_snoop)" "isInvalidate (pk_cmd demo_snoop)"
    by (simp_all add: demo_snoop_def mk_packet_def cmd_attrib_defs)
  obtain p' st' where r: "handleSnoop 7 0 demo_snoop 5 demo_snooped = Inr (True, p', st')"
    using c by (auto simp: handleSnoop_def demo_snooped_def MSHR_def hasPostInvalidate_def isPendingDirty_def tl_add_def
        Let_def sim_assert_def vec_get_def isExpressSnoop_def flag_isSet_def rbind_def split: if_splits)
  have l: "0 < length demo_snooped" by (simp add: demo_snooped_def)
  show ?thesis using mshr_snoop [OF r ok l] c r
    by (auto simp: demo_snooped_def MSHR_def TargetList_def)
qed

section \<open>Memory behind the mapper\<close>

definition demo_mem :: abstract_mem where
  "demo_mem = me_regStats 4 \<lparr>me_range = AddrRange 0 0x2FFFF, me_pmem = Some (replicate 0x30000 0), me_lockedAddrList = [],
     me_woken = [], me_bytesRead = [], me_bytesInstRead = [], me_bytesWritten = [], me_numReads = [], me_numWrites = [],
     me_numOther = []\<rparr>"

definition demo_store :: "addr \<Rightarrow> u64 \<Rightarrow> packet" where
  "demo_store a tag = flag_set DYNAMIC_DATA (mk_packet (demo_req a 4 tag) WriteReq)\<lparr>pk_data := Some [1, 2, 3, 4]\<rparr>"

text \<open>
  C1. The memory of a guest is private. A request of guest \<open>g\<close> that the mapper forwards and the memory serves
  changes nothing any other guest can see, and nothing of \<open>g\<close> outside the bytes of the request; a write makes
  its bytes visible to \<open>g\<close> at the addresses it used, and a read returns what \<open>g\<close> could see there. What a guest sees
  is its own address space, before relocation.
\<close>

theorem guest_memory_private:
  assumes "tlb_wf tlb" "tlb_window tlb g (pk_addr p) (pk_size p)" "\<not> memInhibitAsserted p" "PARDG5V_PKT_TO_GUESTID p = Inr g"
    and "am_recvTimingReq (ram_remapAddr tlb) (\<lambda>x. (True, x)) p am = Inr (True, p1, am1)"
    and "me_access p1 m = Inr (p2, m1)" "me_pmem m = Some bs"
  shows "(\<forall>h a. h = g \<and> in_access p a \<or>
            guest_view (ram_remapAddr tlb) (tlb_covers tlb) m1 h a = guest_view (ram_remapAddr tlb) (tlb_covers tlb) m h a) \<and>
    (isWrite (pk_cmd p) \<and> \<not> isRead (pk_cmd p) \<and> \<not> isLLSC (pk_cmd p) \<longrightarrow>
       (\<exists>d. getPtr p = Inr d \<and>
          (\<forall>a. in_access p a \<longrightarrow> guest_view (ram_remapAddr tlb) (tlb_covers tlb) m1 g a = Some (d ! unat (a - pk_addr p))))) \<and>
    (isRead (pk_cmd p) \<longrightarrow>
       (\<exists>d. pk_data p2 = Some d \<and>
          (\<forall>a. in_access p a \<longrightarrow> guest_view (ram_remapAddr tlb) (tlb_covers tlb) m g a = Some (d ! unat (a - pk_addr p)))))"
proof -
  obtain g' q where f: "PARDG5V_PKT_TO_GUESTID p = Inr g'" "(True, am_forwarded (ram_remapAddr tlb) g' p) = (True, q)" "p1 = q"
    using assms(5,3) by (rule am_recvTimingReq_forwards) auto
  then have acc: "me_access (am_forwarded (ram_remapAddr tlb) g p) m = Inr (p2, m1)" using assms(4,6) by simp
  note v = guest_access_view [OF assms(1-3) acc assms(7)]
  show ?thesis using v(1) v(2) v(3) by blast
qed

lemma demo_store_simps [simp]:
  "pk_addr (demo_store a t) = a" "pk_cmd (demo_store a t) = WriteReq" "pk_size (demo_store a t) = 4"
  "pk_req (demo_store a t) = demo_req a 4 t" "\<not> memInhibitAsserted (demo_store a t)" "\<not> isExpressSnoop (demo_store a t)" "pk_data (demo_store a t) = Some [1, 2, 3, 4]"
  "flag_isSet (demo_store a t) VALID_ADDR" "flag_isSet (demo_store a t) VALID_SIZE" "getPtr (demo_store a t) = Inr [1, 2, 3, 4]"
  "PARDG5V_PKT_TO_GUESTID (demo_store a t) = Inr (QOSTAG_TO_GUESTID t)" "getQosTag (demo_store a t) = Inr t"
  by (simp_all add: demo_store_def mk_packet_def demo_req_def memInhibitAsserted_def isExpressSnoop_def flag_isSet_def flag_set_def getPtr_def
      PARDG5V_PKT_TO_GUESTID_def QOSTAG_TO_GUESTID_def getQosTag_def packet_flag_defs sim_assert_def)

lemma demo_mem_ready: "mem_ready 4 demo_mem" "me_range demo_mem = AddrRange 0 0x2FFFF" "me_pmem demo_mem = Some (replicate 0x30000 0)"
  by (simp_all add: mem_ready_def demo_mem_def me_regStats_def AddrRange_def Let_def)

lemma demo_remap: "ram_remapAddr demo_tlb 0x10 2 = 0x20010" "tlb_window demo_tlb 2 0x10 4"
  by (simp_all add: ram_remapAddr_def demo_tlb_def LDomAddrTLBEntry_def le_contains_def le_translate_def tlb_window_def)

lemma demo_store_request:
  "\<exists>m1. am_recvTimingReq remap (\<lambda>q. (True, q)) (demo_store a 2) demo_mapper = Inr (True, am_forwarded remap 2 (demo_store a 2), m1)"
  by (auto simp: am_recvTimingReq_def am_forwarded_def am_remap_def am_account_def getAddr_def setAddr_def getSize_def QOSTAG_TO_GUESTID_def
      stat_add_def demo_mapper_def am_regStats_def WriteReq_attribs rbind_assert pushSenderState_def Let_def)

lemma demo_forwarded_ready: "pkt_ready 4 (me_range demo_mem) (am_forwarded (ram_remapAddr demo_tlb) 2 (demo_store 0x10 2))"
proof -
  have "getPtr (am_forwarded f g (demo_store a t)) = Inr [1, 2, 3, 4]" for f g a t
    using demo_store_simps(10) [of a t] by (simp add: getPtr_def flag_isSet_def)
  then show ?thesis
    by (simp add: pkt_ready_def demo_mem_ready AddrRange_def demo_req_def WriteReq_attribs demo_remap flag_isSet_def)
       (simp flip: flag_isSet_def)
qed

theorem guest_memory_private_witness:
  "\<exists>p1 am1 p2 m1. am_recvTimingReq (ram_remapAddr demo_tlb) (\<lambda>x. (True, x)) (demo_store 0x10 2) demo_mapper = Inr (True, p1, am1) \<and>
     me_access p1 demo_mem = Inr (p2, m1) \<and>
     guest_view (ram_remapAddr demo_tlb) (tlb_covers demo_tlb) m1 2 0x11 = Some 2 \<and>
     guest_view (ram_remapAddr demo_tlb) (tlb_covers demo_tlb) m1 1 0x11 = guest_view (ram_remapAddr demo_tlb) (tlb_covers demo_tlb) demo_mem 1 0x11"
proof -
  let ?p = "demo_store 0x10 2" let ?q = "am_forwarded (ram_remapAddr demo_tlb) 2 (demo_store 0x10 2)"
  obtain m where m: "am_recvTimingReq (ram_remapAddr demo_tlb) (\<lambda>x. (True, x)) ?p demo_mapper = Inr (True, ?q, m)"
    using demo_store_request by blast
  obtain p2 m1 where a: "me_access ?q demo_mem = Inr (p2, m1)"
    using me_access_total [OF demo_mem_ready(1) demo_forwarded_ready] by blast
  have g: "PARDG5V_PKT_TO_GUESTID ?p = Inr 2" by (simp add: QOSTAG_TO_GUESTID_def)
  have w: "tlb_window demo_tlb 2 (pk_addr ?p) (pk_size ?p)" using demo_remap by simp
  have i: "\<not> memInhibitAsserted ?p" by simp
  have b: "in_access ?p 0x11" "\<not> isLLSC (pk_cmd ?p)" "isWrite (pk_cmd ?p)" "\<not> isRead (pk_cmd ?p)"
    by (simp_all add: in_access_def WriteReq_attribs) (simp add: cmd_attrib_defs)
  note v = guest_memory_private [OF demo_tlb_wf(1) w i g m a demo_mem_ready(3)]
  have "guest_view (ram_remapAddr demo_tlb) (tlb_covers demo_tlb) m1 2 0x11 = Some 2" using v b by auto
  moreover have "guest_view (ram_remapAddr demo_tlb) (tlb_covers demo_tlb) m1 1 0x11 = guest_view (ram_remapAddr demo_tlb) (tlb_covers demo_tlb) demo_mem 1 0x11"
    using v [THEN conjunct1, rule_format, of 1 "0x11"] by simp
  ultimately show ?thesis using m a by blast
qed

section \<open>Queues in front of memory\<close>

text \<open>
  C16. A packet queue loses nothing. In every reachable state the packets given to \<^verbatim>\<open>schedSendTiming\<close> are exactly
  those sent and those still waiting, the waiting ones are sorted by the tick they may leave at, at most 101 packets
  wait, and a send event or an outstanding retry keeps a non-empty queue moving.
\<close>

theorem packet_queue_lossless:
  assumes "pq_reach now q queued sent"
  shows "mset queued = mset sent + mset (pq_transmitList q) \<and> sorted (map df_tick (pq_transmitList q)) \<and>
    length (pq_transmitList q) \<le> 101 \<and> (pq_transmitList q \<noteq> [] \<longrightarrow> pq_waitingOnRetry q \<or> pq_sendEvent q \<noteq> None)"
  using pq_reach_inv [OF assms] by (auto simp: pq_inv_def split: if_splits option.splits)

lemma demo_pq: obtains q where "pq_reach 0 q [DeferredPacket 5 (demo_read 0x40 1) False] []"
  "pq_transmitList q = [DeferredPacket 5 (demo_read 0x40 1) False]"
proof -
  obtain q where q: "schedSendTiming 0 (demo_read 0x40 1) 5 False (PacketQueue ''port'') = Inr q"
    "pq_transmitList q = stable_insert (DeferredPacket 5 (demo_read 0x40 1) False) (pq_transmitList (PacketQueue ''port''))"
    using pq_inv_schedule [OF PacketQueue_inv, of 0 5 "demo_read 0x40 1" "''port''" False] by (auto simp: PacketQueue_def)
  have "pq_reach 0 q (DeferredPacket 5 (demo_read 0x40 1) False # []) []"
    using pq_reach.queue [OF pq_reach.start _ _ q(1)] by simp
  with that [of q] q(2) show thesis by (simp add: PacketQueue_def)
qed

theorem packet_queue_lossless_witness:
  "\<exists>q. pq_reach 0 q [DeferredPacket 5 (demo_read 0x40 1) False] [] \<and> pq_transmitList q \<noteq> [] \<and>
     (pq_waitingOnRetry q \<or> pq_sendEvent q \<noteq> None)"
proof -
  obtain q where q: "pq_reach 0 q [DeferredPacket 5 (demo_read 0x40 1) False] []"
    "pq_transmitList q = [DeferredPacket 5 (demo_read 0x40 1) False]" by (rule demo_pq)
  from packet_queue_lossless [OF q(1)] q show ?thesis by (intro exI [of _ q]) simp
qed



text \<open>
  C11. A packet is split into bursts that cover it exactly. The bursts the controller makes of a packet, with the
  number of them computed by \<^verbatim>\<open>recvTimingReq\<close>, list every byte of the packet once and in order, and none of
  them crosses the boundary of a burst.
\<close>

theorem bursts_cover_packet:
  assumes "burst_ok B" "clear_of_end B p"
  shows "\<exists>n. dram_pkt_count B p = Inr n \<and> concat (map byte_range (bursts B p n (pk_addr p))) = [unat (pk_addr p)..<pkt_end p] \<and>
    list_all (burst_wf B) (bursts B p n (pk_addr p))"
  using bursts_of_ok [OF assms] by (intro exI [of _ "length (bursts_of B p)"]) simp

theorem bursts_cover_packet_witness:
  "\<exists>n. dram_pkt_count 2 (demo_read 0x41 1) = Inr n \<and> concat (map byte_range (bursts 2 (demo_read 0x41 1) n 0x41)) = [65, 66, 67, 68]"
proof -
  have "burst_ok 2" unfolding burst_ok_def by (intro exI [of _ 1]) simp
  from bursts_cover_packet [OF this, of "demo_read 0x41 1"] show ?thesis
    by (auto simp: clear_of_end_def pkt_end_def upt_rec)
qed

section \<open>The queues of the memory controller\<close>

definition demo_config :: dram_config where
  "demo_config = \<lparr>cf_geom = demo_geom, cf_timing = demo_timing, cf_tCL = 10, cf_tBURST = 5, cf_tWR = 15, cf_tRTP = 8, cf_tRFC = 100,
     cf_tREFI = 7000, cf_tWTR = 8, cf_tRTW = 3, cf_readBufferSize = 4, cf_writeBufferSize = 4, cf_writeHighThreshold = 3,
     cf_writeLowThreshold = 2, cf_minWritesPerSwitch = 1, cf_memSchedPolicy = frfcfs, cf_pageMgmt = page_open, cf_maxAccessesPerRow = 16,
     cf_frontendLatency = 10, cf_backendLatency = 10\<rparr>"

definition demo_mc :: dram_ctrl where
  "demo_mc = \<lparr>mc_cp = demo_dram\<lparr>dc_stats := StatsTable (length DRAMCtrlStats) 32\<rparr>, mc_mem = demo_mem, mc_port = PacketQueue ''port'',
     mc_dram = demo_dram_state, mc_readQueue = [], mc_writeQueue = [], mc_respQueue = [], mc_helpers = [],
     mc_perLDom = (\<lambda>_. replicate 4 0), mc_retryRdReq = False, mc_retryWrReq = False, mc_busState = BUS_READ, mc_writesThisTime = 0,
     mc_readsThisTime = 0, mc_busBusyUntil = 30, mc_nextReqTime = 0, mc_prevArrival = 0, mc_refreshDueAt = 0, mc_refreshState = REF_IDLE,
     mc_pwrState = PWR_IDLE, mc_pwrStateTrans = PWR_IDLE, mc_pwrStateTick = 0, mc_nextReqEvent = None, mc_respondEvent = None,
     mc_refreshEvent = Some 6990, mc_powerEvent = None, mc_drainManager = False, mc_pendingDelete = [], mc_retries = 0, mc_drainDone = 0\<rparr>"

definition demo_load :: "addr \<Rightarrow> u64 \<Rightarrow> packet" where
  "demo_load a tag = flag_set DYNAMIC_DATA (mk_packet (demo_req a 4 tag) ReadReq)\<lparr>pk_data := Some [0, 0, 0, 0]\<rparr>"

lemma demo_load_simps [simp]:
  "pk_addr (demo_load a t) = a" "pk_cmd (demo_load a t) = ReadReq" "pk_size (demo_load a t) = 4"
  "pk_req (demo_load a t) = demo_req a 4 t" "\<not> memInhibitAsserted (demo_load a t)"
  "flag_isSet (demo_load a t) VALID_ADDR" "flag_isSet (demo_load a t) VALID_SIZE" "getPtr (demo_load a t) = Inr [0, 0, 0, 0]"
  "getQosTag (demo_load a t) = Inr t"
  by (simp_all add: demo_load_def mk_packet_def demo_req_def memInhibitAsserted_def flag_isSet_def flag_set_def getPtr_def
      getQosTag_def packet_flag_defs sim_assert_def)

lemma demo_config_ok: "config_ok demo_config"
proof -
  have "burst_ok 64" unfolding burst_ok_def by (intro exI [of _ 6]) simp
  then show ?thesis using demo_geom_wf by (simp add: config_ok_def demo_config_def) (simp add: demo_geom_def)
qed

lemma demo_mc_inv: "mc_inv demo_config 4 t demo_mc" "length (pq_transmitList (mc_port demo_mc)) \<le> 100"
proof -
  have "cp_ok (mc_cp demo_mc)"
    using demo_dram_wf by (simp add: cp_ok_def demo_mc_def dram_cp_wf_def stats_wf_def StatsTable_def list_all_length)
  then show "mc_inv demo_config 4 t demo_mc"
    using demo_mem_ready(1) PacketQueue_inv [of t]
    by (simp add: mc_inv_def counters_ok_def ldom_ok_def demo_mc_def writes_ok_def helpers_ok_def shared_packets_def respond_armed_def)
  show "length (pq_transmitList (mc_port demo_mc)) \<le> 100" by (simp add: demo_mc_def PacketQueue_def)
qed

lemma demo_tag_ok: "getQosTag p = Inr 1 \<Longrightarrow> tag_ok (mc_cp demo_mc) p"
proof -
  assume p: "getQosTag p = Inr 1"
  have "rowbuf_mask (mc_cp demo_mc) 1 = Inr 1"
    by (simp add: rowbuf_mask_def demo_mc_def demo_dram_def vec_get_def numeral_eq_Suc NUM_PARAM_ROWS_def nth_append)
  then show ?thesis using p demo_ldom demo_select unfolding tag_ok_def by fastforce
qed

lemma demo_reqs_ready: "req_ready demo_config 4 demo_mc (demo_store 0x40 1)" "req_ready demo_config 4 demo_mc (demo_load 0x40 1)"
proof -
  have "mc_mem demo_mc = demo_mem" by (simp add: demo_mc_def)
  then show "req_ready demo_config 4 demo_mc (demo_store 0x40 1)" "req_ready demo_config 4 demo_mc (demo_load 0x40 1)"
    using demo_tag_ok
    by (simp_all add: req_ready_def pkt_ready_def demo_mem_ready AddrRange_def demo_req_def WriteReq_attribs ReadReq_attribs
        clear_of_end_def demo_config_def demo_geom_def)
qed

text \<open>
  C6. The write queue stands for exactly the bytes written. A write with room in the queue is accepted and the
  bytes the queue covers grow by the bytes of the packet, whatever is merged; without room it is refused,
  the queue is unchanged and a retry is remembered. The invariant of the queues is kept and no assertion fails.
\<close>

theorem write_queue_exact:
  assumes "config_ok c" "mc_inv c n now mc" "req_ready c n mc p" "isWrite (pk_cmd p)" "length (pq_transmitList (mc_port mc)) \<le> 100"
  shows "\<exists>ok mc'. mc_recvTimingReq c now p mc = Inr (ok, mc') \<and> mc_inv c n now mc' \<and>
    (ok \<longleftrightarrow> length (mc_writeQueue mc) + length (bursts_of (burstSize c) p) \<le> cf_writeBufferSize c) \<and>
    write_covered (mc_writeQueue mc') = write_covered (mc_writeQueue mc) \<union> (if ok then {unat (pk_addr p)..<pkt_end p} else {}) \<and>
    (ok \<or> mc_retryWrReq mc')"
  using mc_recvTimingReq_write [OF assms] by blast

theorem write_queue_exact_witness:
  "\<exists>mc'. mc_recvTimingReq demo_config 7 (demo_store 0x40 1) demo_mc = Inr (True, mc') \<and>
     write_covered (mc_writeQueue mc') = {64..<68}"
proof -
  obtain ok mc' where r: "mc_recvTimingReq demo_config 7 (demo_store 0x40 1) demo_mc = Inr (ok, mc')"
    "ok \<longleftrightarrow> length (mc_writeQueue demo_mc) + length (bursts_of (burstSize demo_config) (demo_store 0x40 1)) \<le> cf_writeBufferSize demo_config"
    "write_covered (mc_writeQueue mc') = write_covered (mc_writeQueue demo_mc) \<union> (if ok then {unat (pk_addr (demo_store 0x40 1))..<pkt_end (demo_store 0x40 1)} else {})"
    using write_queue_exact [OF demo_config_ok demo_mc_inv(1) demo_reqs_ready(1) _ demo_mc_inv(2), of 7] by (auto simp: WriteReq_attribs)
  have "length (bursts_of (burstSize demo_config) (demo_store 0x40 1)) = 1"
    by (simp add: bursts_of_def demo_config_def demo_geom_def pkt_end_def)
  then have ok: "ok" using r(2) by (simp add: demo_mc_def demo_config_def)
  with r(3) have "write_covered (mc_writeQueue mc') = {64..<68}" by (simp add: demo_mc_def pkt_end_def)
  with r(1) ok show ?thesis by auto
qed

text \<open>
  C7. Every accepted read is owed exactly one answer. A read is accepted exactly when its bursts fit into the
  read buffer, also when some of them are served from the write queue; acceptance adds one to the answers owed, which
  are the reads in the queues and the responses waiting in the port. A refused read is remembered for a retry.
\<close>

theorem read_owed_once:
  assumes "config_ok c" "mc_inv c n now mc" "req_ready c n mc p" "isRead (pk_cmd p)" "length (pq_transmitList (mc_port mc)) \<le> 100"
  shows "\<exists>ok mc'. mc_recvTimingReq c now p mc = Inr (ok, mc') \<and> mc_inv c n now mc' \<and> owed mc' = owed mc + of_bool ok \<and>
    (ok \<longleftrightarrow> length (mc_readQueue mc) + length (mc_respQueue mc) + length (bursts_of (burstSize c) p) \<le> cf_readBufferSize c) \<and>
    (ok \<or> mc_retryRdReq mc')"
  using mc_recvTimingReq_read [OF assms] by blast

theorem read_owed_once_witness:
  "\<exists>mc'. mc_recvTimingReq demo_config 7 (demo_load 0x40 1) demo_mc = Inr (True, mc') \<and> owed mc' = 1"
proof -
  obtain ok mc' where r: "mc_recvTimingReq demo_config 7 (demo_load 0x40 1) demo_mc = Inr (ok, mc')" "owed mc' = owed demo_mc + of_bool ok"
    "ok \<longleftrightarrow> length (mc_readQueue demo_mc) + length (mc_respQueue demo_mc) + length (bursts_of (burstSize demo_config) (demo_load 0x40 1))
       \<le> cf_readBufferSize demo_config"
    using read_owed_once [OF demo_config_ok demo_mc_inv(1) demo_reqs_ready(2) _ demo_mc_inv(2), of 7] by (auto simp: ReadReq_attribs)
  have "length (bursts_of (burstSize demo_config) (demo_load 0x40 1)) = 1"
    by (simp add: bursts_of_def demo_config_def demo_geom_def pkt_end_def)
  then have ok: "ok" using r(3) by (simp add: demo_mc_def demo_config_def)
  moreover have "owed demo_mc = 0" by (simp add: owed_def demo_mc_def outstanding_def PacketQueue_def)
  ultimately show ?thesis using r(1,2) by auto
qed

text \<open>
  Answers are neither lost nor duplicated. \<^verbatim>\<open>processRespondEvent\<close> at its tick fails no assertion, removes
  the head of the response queue, keeps the invariant, leaves the number of answers owed as it was (a read is moved
  to the port with its last burst, and only then) and passes on a remembered read retry.
\<close>

lemma respond_keeps_answers:
  assumes "mc_inv c n now mc" "mc_respondEvent mc = Some now" "length (pq_transmitList (mc_port mc)) \<le> 100"
  shows "\<exists>mc'. processRespondEvent c now mc = Inr mc' \<and> mc_inv c n now mc' \<and> owed mc' = owed mc \<and>
    mc_respQueue mc' = tl (mc_respQueue mc) \<and> \<not> mc_retryRdReq mc'"
  by (rule processRespondEvent_ok [OF assms])

definition demo_done :: dram_packet where
  "demo_done = \<lparr>dp_entryTime = 0, dp_readyTime = 50, dp_pkt = demo_load 0x40 1, dp_isRead = True, dp_rank = 0, dp_bank = 0, dp_row = 0,
     dp_bankId = 0, dp_addr = 0x40, dp_size = 4, dp_burstHelper = None, dp_qosTag = 1, dp_rowbuf = 0\<rparr>"

lemma demo_read_ready: "read_ready demo_config 4 (me_range (mc_mem demo_mc)) demo_done"
proof -
  have "mc_mem demo_mc = demo_mem" by (simp add: demo_mc_def)
  then show ?thesis using demo_reqs_ready(2) demo_ldom
    by (simp add: read_ready_def demo_done_def dp_wf_def req_ready_def ReadReq_attribs demo_config_def demo_geom_def ROW_BUFFER_COUNT_def)
qed

lemma respond_keeps_answers_example:
  "\<exists>mc'. processRespondEvent demo_config 50 (demo_mc\<lparr>mc_respQueue := [demo_done], mc_respondEvent := Some 50\<rparr>) = Inr mc' \<and>
     mc_respQueue mc' = [] \<and> owed mc' = 1"
proof -
  let ?m = "demo_mc\<lparr>mc_respQueue := [demo_done], mc_respondEvent := Some 50\<rparr>"
  have "mc_inv demo_config 4 50 ?m"
    using demo_mc_inv(1) [of 50] demo_read_ready
    by (simp add: mc_inv_def counters_ok_def demo_mc_def demo_config_def helpers_ok_def shared_packets_def respond_armed_def demo_done_def)
  from respond_keeps_answers [OF this] demo_mc_inv(2) show ?thesis
    by (auto simp: owed_def demo_mc_def outstanding_def PacketQueue_def demo_done_def)
qed

section \<open>Runs of the memory controller\<close>

lemma demo_banks_ok: "banks_ok demo_config demo_dram_state"
  using demo_dram_state_wf
  by (simp add: banks_ok_def demo_config_def acts_ok_def rank_ok_def demo_dram_state_def)

lemma demo_bus_inv: "bus_inv demo_config demo_mc"
  using demo_banks_ok by (simp add: bus_inv_def demo_mc_def bus_lead_def demo_config_def demo_timing_def)

lemma demo_started: "mc_reach demo_config 4 7 demo_mc 0 0"
proof -
  have "owed demo_mc = 0" by (simp add: owed_def demo_mc_def outstanding_def PacketQueue_def)
  then show ?thesis by (rule mc_reach.start [OF demo_mc_inv(1) demo_bus_inv])
qed

lemma demo_one_read:
  obtains mc' where "mc_reach demo_config 4 7 mc' 1 0" "mc_recvTimingReq demo_config 7 (demo_load 0x40 1) demo_mc = Inr (True, mc')"
proof -
  obtain ok mc' where r: "mc_recvTimingReq demo_config 7 (demo_load 0x40 1) demo_mc = Inr (ok, mc')"
    "ok \<longleftrightarrow> length (mc_readQueue demo_mc) + length (mc_respQueue demo_mc) + length (bursts_of (burstSize demo_config) (demo_load 0x40 1))
       \<le> cf_readBufferSize demo_config"
    using mc_recvTimingReq_read [OF demo_config_ok demo_mc_inv(1) demo_reqs_ready(2) _ demo_mc_inv(2), of 7] by (auto simp: ReadReq_attribs)
  have "length (bursts_of (burstSize demo_config) (demo_load 0x40 1)) = 1"
    by (simp add: bursts_of_def demo_config_def demo_geom_def pkt_end_def)
  then have "ok" using r(2) by (simp add: demo_mc_def demo_config_def)
  moreover have "mc_reach demo_config 4 7 mc' (0 + of_bool (ok \<and> needsResponse (pk_cmd (demo_load 0x40 1)))) 0"
    by (rule mc_reach.request [OF demo_started demo_reqs_ready(2) _ demo_mc_inv(2) r(1)]) (simp add: ReadReq_attribs)
  ultimately show thesis using that [of mc'] r(1) by (simp add: ReadReq_attribs)
qed

text \<open>
  C4. The controller conserves answers. In every reachable state, whatever the order of requests, turns of the request
  loop, finished bursts, sends, refused sends and refreshes, the accepted requests that need a response are
  exactly those whose response was delivered, those whose response waits in the port, and the reads whose bursts
  are still in the queues.
\<close>

theorem controller_conserves_answers:
  assumes "config_ok c" "mc_reach c n now mc accepted delivered"
  shows "accepted = delivered + length (pq_transmitList (mc_port mc)) + outstanding (mc_helpers mc) (mc_readQueue mc @ mc_respQueue mc)"
  using mc_reach_inv [OF assms] by (simp add: owed_def)

theorem controller_conserves_answers_witness:
  "\<exists>mc. mc_reach demo_config 4 7 mc 1 0 \<and>
     length (pq_transmitList (mc_port mc)) + outstanding (mc_helpers mc) (mc_readQueue mc @ mc_respQueue mc) = 1"
proof -
  obtain mc where r: "mc_reach demo_config 4 7 mc 1 0" by (rule demo_one_read)
  from controller_conserves_answers [OF demo_config_ok r] r show ?thesis by (intro exI [of _ mc]) simp
qed



text \<open>
  C8. Every turn of the request loop serves a burst. In a state with the invariants, so in every reachable state, and
  outside a refresh, a turn on a bus turned to writes takes one burst from the write queue; otherwise, with reads
  waiting, it takes one burst from the read queue and appends it to the response queue, ready only a burst time
  after the bus was free; in both cases the next turn is scheduled. With nothing to read the loop stops only when
  the writes do not exceed the low threshold. No answer is lost.
\<close>

theorem request_loop_serves:
  assumes "run_inv c n now mc" "mc_refreshState mc = REF_IDLE"
  shows "\<exists>mc'. processNextReqEvent c now mc = Inr mc' \<and> run_inv c n now mc' \<and> owed mc' = owed mc \<and>
    (if mc_busState mc \<in> {BUS_WRITE, BUS_READ_TO_WRITE} then
       (\<exists>dp. mset (mc_writeQueue mc) = mset (dp # mc_writeQueue mc')) \<and> mc_readQueue mc' = mc_readQueue mc \<and> mc_nextReqEvent mc' \<noteq> None
     else if mc_readQueue mc \<noteq> [] then
       (\<exists>dp t. mset (mc_readQueue mc) = mset (dp # mc_readQueue mc') \<and> mc_respQueue mc' = mc_respQueue mc @ [dp\<lparr>dp_readyTime := t\<rparr>] \<and>
          mc_busBusyUntil mc + cf_tBURST c \<le> t) \<and> mc_writeQueue mc' = mc_writeQueue mc \<and> mc_nextReqEvent mc' \<noteq> None
     else mc_nextReqEvent mc' = None \<longrightarrow> length (mc_writeQueue mc) \<le> cf_writeLowThreshold c)"
proof -
  have i: "mc_inv c n now mc" "bus_inv c mc" using assms(1) by (simp_all add: run_inv_def)
  obtain mc' where p: "processNextReqEvent c now mc = Inr mc'" "mc_inv c n now mc'" "bus_inv c mc'" "owed mc' = owed mc" "req_turn c mc mc'"
    using processNextReqEvent_ok [OF i] by blast
  have "run_inv c n now mc'" using p assms(1) by (simp add: run_inv_def req_turn_def)
  with p(1,4,5) assms(2) show ?thesis
    by (intro exI [of _ mc']) (auto simp: req_turn_def served_write_def served_read_def, blast)
qed

theorem request_loop_serves_witness:
  "\<exists>mc'. processNextReqEvent demo_config 7 (demo_mc\<lparr>mc_readQueue := [demo_done]\<rparr>) = Inr mc' \<and> mc_readQueue mc' = [] \<and>
     (\<exists>t \<ge> 35. mc_respQueue mc' = [demo_done\<lparr>dp_readyTime := t\<rparr>])"
proof -
  let ?m = "demo_mc\<lparr>mc_readQueue := [demo_done]\<rparr>"
  have "mc_inv demo_config 4 7 ?m"
    using demo_mc_inv(1) [of 7] demo_read_ready
    by (simp add: mc_inv_def counters_ok_def demo_mc_def demo_config_def helpers_ok_def shared_packets_def demo_done_def)
  moreover have "bus_inv demo_config ?m" using demo_bus_inv by (simp add: bus_inv_def)
  ultimately have "run_inv demo_config 4 7 ?m" using demo_mc_inv(2) by (simp add: run_inv_def)
  from request_loop_serves [OF this] show ?thesis by (auto simp: demo_mc_def demo_config_def)
qed

text \<open>
  C12. The data bus carries one burst at a time. \<^verbatim>\<open>doDRAMAccess\<close> fails no assertion, whether it finds its row open, has
  to close another row or has to activate first, and gives the burst a slot of the bus that starts when the previous
  burst is over and no earlier than the column latency from now; the bus is busy until the end of that slot, and the
  invariant of the banks is kept.
\<close>

theorem bursts_share_bus:
  assumes "counters_ok mc" "banks_ok c (mc_dram mc)" "dp_wf c dp" "cf_tCL c \<le> mc_busBusyUntil mc"
  shows "\<exists>t mc'. doDRAMAccess c now dp mc = Inr (dp\<lparr>dp_readyTime := t\<rparr>, mc') \<and> mc_busBusyUntil mc + cf_tBURST c \<le> t \<and>
    now + cf_tCL c + cf_tBURST c \<le> t \<and> mc_busBusyUntil mc' = t \<and> banks_ok c (mc_dram mc')"
  using doDRAMAccess_ok [OF assms] by blast

theorem bursts_share_bus_witness:
  "\<exists>t mc'. doDRAMAccess demo_config 7 demo_done demo_mc = Inr (demo_done\<lparr>dp_readyTime := t\<rparr>, mc') \<and> 35 \<le> t \<and> mc_busBusyUntil mc' = t"
proof -
  have "counters_ok demo_mc" "banks_ok demo_config (mc_dram demo_mc)" "dp_wf demo_config demo_done" "cf_tCL demo_config \<le> mc_busBusyUntil demo_mc"
    using demo_mc_inv(1) demo_bus_inv demo_read_ready by (simp_all add: mc_inv_def bus_inv_def bus_lead_def read_ready_def)
  then obtain t mc' where "doDRAMAccess demo_config 7 demo_done demo_mc = Inr (demo_done\<lparr>dp_readyTime := t\<rparr>, mc')"
    "mc_busBusyUntil demo_mc + cf_tBURST demo_config \<le> t" "mc_busBusyUntil mc' = t"
    using bursts_share_bus [of demo_mc demo_config demo_done 7] by blast
  then show ?thesis by (intro exI [of _ t] exI [of _ mc']) (simp add: demo_mc_def demo_config_def)
qed



text \<open>
  C14. A constructed controller is ready to run. Whenever the constructor accepts its parameters, start-up succeeds and
  the controller, with the tables of its control plane and a backing store of the size of its range, is a
  reachable state that owes nothing.
\<close>

theorem constructed_controller_runs:
  assumes "DRAMCtrl p rng system name = Inr (c, mc0)" "PARDg5VDRAMCtrl (length DRAMCtrlStats) k k = Inr cp"
    and "ar_start rng \<le> ar_end rng" "length bs = unat (ar_end rng) - unat (ar_start rng) + 1"
  shows "\<exists>mc. mc_startup c now (mc_regStats n mc0) = Inr mc \<and> mc_reach c n now (started cp bs mc) 0 0 \<and>
    mc_refreshEvent mc = Some (now + cf_tREFI c - dt_tRP (cf_timing c))"
proof -
  have "cp_ok cp" using assms(2) PARDg5VDRAMCtrl_wf [OF assms(2)]
    by (auto simp: cp_ok_def PARDg5VDRAMCtrl_def StatsTable_def stats_wf_def list_all_length)
  with DRAMCtrl_started [OF assms(1) _ assms(3,4)] mc_reach.start show ?thesis by metis
qed

definition demo_params :: dram_params where
  "demo_params = \<lparr>pr_device_bus_width = 8, pr_burst_length = 8, pr_device_rowbuffer_size = 1024, pr_devices_per_rank = 8,
     pr_ranks_per_channel = 1, pr_banks_per_rank = 2, pr_channels = 1, pr_read_buffer_size = 4, pr_write_buffer_size = 4,
     pr_write_high_thresh_perc = 85, pr_write_low_thresh_perc = 50, pr_min_writes_per_switch = 1, pr_timing = demo_timing,
     pr_tWTR = 8, pr_tRTW = 3, pr_tBURST = 5, pr_tCL = 10, pr_tWR = 15, pr_tRTP = 8, pr_tRFC = 100, pr_tREFI = 7000,
     pr_mem_sched_policy = frfcfs, pr_addr_mapping = RoRaBaChCo, pr_page_policy = page_open, pr_max_accesses_per_row = 16,
     pr_static_frontend_latency = 10, pr_static_backend_latency = 10\<rparr>"

lemma demo_params_accepted: "case DRAMCtrl demo_params (AddrRange 0 0xFFFFF) None ''mem'' of Inl _ \<Rightarrow> False | Inr (c, _) \<Rightarrow> cf_tREFI c = 7000 \<and> dt_tRP (cf_timing c) = 10"
  by code_simp

theorem constructed_controller_runs_witness:
  "\<exists>c mc0 mc cp. DRAMCtrl demo_params (AddrRange 0 0xFFFFF) None ''mem'' = Inr (c, mc0) \<and> mc_startup c 0 (mc_regStats 4 mc0) = Inr mc \<and>
     mc_reach c 4 0 (started cp (replicate 0x100000 0) mc) 0 0 \<and> mc_refreshEvent mc = Some 6990"
proof -
  obtain c mc0 where d: "DRAMCtrl demo_params (AddrRange 0 0xFFFFF) None ''mem'' = Inr (c, mc0)" "cf_tREFI c = 7000" "dt_tRP (cf_timing c) = 10"
    using demo_params_accepted by (auto split: sum.splits)
  obtain cp where "PARDg5VDRAMCtrl (length DRAMCtrlStats) 1 1 = Inr cp" by (simp add: PARDg5VDRAMCtrl_def)
  from constructed_controller_runs [OF d(1) this, of "replicate 0x100000 0" 0 4] d show ?thesis by (auto simp: AddrRange_def)
qed

end
